(* ===== verification/Prelude.thy ===== *)
theory Prelude
  imports Main "HOL-Library.Word" "HOL-Library.Sublist" "HOL-Library.List_Lexorder"
begin

text \<open>
  The shared ground of the development: the names of the machine types, the
  collections of rewrite rules the component proofs use, and the generic lemmas
  on words and lists that no component owns.

  \<^item> A C++ \<open>char\<close> is a \<open>byte\<close>, an 8-bit word; \<open>uint32_t\<close> and \<open>uint64_t\<close> are \<open>u32\<close> and
    \<open>u64\<close>, so that additions, shifts and casts wrap and truncate as the code's do.
  \<^item> A \<open>Slice\<close> or a \<open>std::string\<close> is a \<open>slice\<close>, the list of its bytes. A pointer into
    a buffer with its \<open>limit\<close> is the list of the bytes from the pointer to the limit.
  \<^item> A \<open>size_t\<close> that is the length of such a list is a \<open>nat\<close>; where the code casts it to
    a narrower type the cast is written out.
\<close>

unbundle bit_operations_syntax

type_synonym byte = "8 word"
type_synonym u32 = "32 word"
type_synonym u64 = "64 word"
type_synonym slice = "byte list"

named_theorems codec_simps \<open>round trips and lengths of the encoders\<close>
named_theorems word_cuts \<open>masks and shifts of words as take_bit and drop_bit\<close>
named_theorems inv_intros \<open>operations that keep a component's invariant\<close>

section \<open>Words\<close>

lemma and_255_eq [word_cuts]: "(w :: 'a::len word) AND 255 = take_bit 8 w"
  using take_bit_eq_mask [of 8 w] by (simp add: mask_numeral)

lemma and_127_eq [word_cuts]: "(w :: 'a::len word) AND 127 = take_bit 7 w"
  using take_bit_eq_mask [of 7 w] by (simp add: mask_numeral)

lemma bit_128_iff: "bit (128 :: 'a::len word) n \<longleftrightarrow> n = 7 \<and> 7 < LENGTH('a)"
proof -
  have "(128 :: 'a word) = push_bit 7 1" by simp
  then show ?thesis by (simp only: bit_push_bit_iff) (auto simp: bit_1_iff)
qed

lemma and_128_eq_0_iff: "(w :: 'a::len word) AND 128 = 0 \<longleftrightarrow> \<not> bit w 7"
proof
  assume "w AND 128 = 0"
  then have "\<not> bit (w AND 128) 7" by simp
  then show "\<not> bit w 7"
    by (simp only: bit_and_iff bit_128_iff) (auto dest: bit_imp_le_length)
next
  assume "\<not> bit w 7"
  then have "\<not> bit (w AND 128) n" for n
    by (simp only: bit_and_iff bit_128_iff) auto
  then show "w AND 128 = 0" by (intro bit_word_eqI) simp
qed

lemma take_bit_or_push_drop:
  "take_bit n w OR push_bit n (drop_bit n w) = (w :: 'a::len word)"
proof (rule bit_word_eqI)
  fix m assume "m < LENGTH('a)"
  then show "bit (take_bit n w OR push_bit n (drop_bit n w)) m = bit w m"
    by (cases "m < n") (auto simp: bit_simps)
qed

lemma push_bit_split7:
  "push_bit s (take_bit 7 w) OR push_bit (s + 7) (drop_bit 7 w) = push_bit s (w :: 'a::len word)"
proof -
  have "push_bit s (take_bit 7 w OR push_bit 7 (drop_bit 7 w)) = push_bit s w"
    by (simp only: take_bit_or_push_drop)
  then show ?thesis by (simp add: push_bit_or ac_simps)
qed

lemma unat_drop_bit: "unat (drop_bit n (w :: 'a::len word)) = unat w div 2 ^ n"
  by (simp add: unat_drop_bit_eq flip: drop_bit_eq_div)

lemma unat_take_bit: "unat (take_bit n (w :: 'a::len word)) = unat w mod 2 ^ n"
proof -
  have "unat (take_bit n w) = take_bit n (unat w)" by (rule unsigned_take_bit_eq)
  then show ?thesis by (simp only: take_bit_nat_def)
qed

lemma bit_less_power: "unat (w :: 'a::len word) < 2 ^ n \<Longrightarrow> bit w m \<Longrightarrow> m < n"
proof -
  assume "unat w < 2 ^ n" and bit: "bit w m"
  then have "take_bit n (unat w) = unat w" by (simp add: take_bit_nat_eq_self)
  moreover have "bit (unat w) m" using bit by (simp add: bit_unsigned_iff)
  ultimately have "bit (take_bit n (unat w)) m" by simp
  then show "m < n" by (simp add: bit_take_bit_iff)
qed

lemma ucast_ucast_small:
  assumes "unat (w :: 'a::len word) < 2 ^ LENGTH('b::len)"
  shows "ucast (ucast w :: 'b word) = w"
  by (rule bit_word_eqI) (use assms in \<open>auto simp: bit_simps dest: bit_less_power\<close>)

lemma unat_ucast_up:
  assumes "LENGTH('a::len) \<le> LENGTH('b::len)"
  shows "unat (ucast (v :: 'a word) :: 'b word) = unat v"
  by (rule bit_eqI) (use assms in \<open>auto simp: bit_simps dest: bit_imp_le_length\<close>)

lemma unat_lt: "unat (w :: 'a::len word) < 2 ^ LENGTH('a)"
  by (rule unsigned_less)

section \<open>Lists\<close>

lemma take_append_length [simp]: "take (length xs) (xs @ ys) = xs"
  by simp

text \<open>\<open>memcpy\<close> into a buffer at an offset.\<close>

definition write_at :: "byte list \<Rightarrow> nat \<Rightarrow> byte list \<Rightarrow> byte list" where
  "write_at b off bytes = take off b @ bytes @ drop (off + length bytes) b"

lemma length_write_at:
  "off + length bytes \<le> length b \<Longrightarrow> length (write_at b off bytes) = length b"
  by (simp add: write_at_def)

lemma take_write_at [simp]:
  "off \<le> length b \<Longrightarrow> n = off + length bytes \<Longrightarrow> take n (write_at b off bytes) = take off b @ bytes"
  by (simp add: write_at_def)

lemma take_write_at_before:
  "n \<le> off \<Longrightarrow> off \<le> length b \<Longrightarrow> take n (write_at b off bytes) = take n b"
  by (simp add: write_at_def min_def)

text \<open>\<open>printf\<close> of an unsigned number.\<close>

fun decimal :: "nat \<Rightarrow> string" where
  "decimal n = (if n < 10 then [char_of (48 + n)] else decimal (n div 10) @ [char_of (48 + n mod 10)])"

declare decimal.simps [simp del]

end
