(* ===== verification/Coding.thy ===== *)
theory Coding
  imports Prelude
begin

text \<open>
  The encodings of \<^verbatim>\<open>util/coding.h\<close> and \<^verbatim>\<open>util/coding.cc\<close>: fixed-width little-endian
  integers, base-128 varints, length-prefixed slices. A routine that writes at a
  buffer pointer returns the bytes it writes; a \<open>Put\<close> routine returns the
  extended string; a \<open>Get\<close> routine returns \<open>None\<close> where the code returns \<open>false\<close> or
  \<open>nullptr\<close>, and otherwise the value and the input that is left.
\<close>

section \<open>Fixed-width integers\<close>

text \<open>The object representation of an integer of \<open>n\<close> bytes on a little-endian machine,
  which \<open>memcpy\<close> reads and writes.\<close>

definition mem_store :: "nat \<Rightarrow> 'a::len word \<Rightarrow> byte list" where
  "mem_store n v = map (\<lambda>i. ucast (drop_bit (8 * i) v)) [0..<n]"

fun mem_load :: "nat \<Rightarrow> byte list \<Rightarrow> 'a::len word" where
  "mem_load 0 ptr = 0"
| "mem_load (Suc n) ptr =
     (case ptr of [] \<Rightarrow> 0 | b # ptr' \<Rightarrow> ucast b OR push_bit 8 (mem_load n ptr'))"

text \<open>Both branches of the code, on \<open>port::kLittleEndian\<close>.\<close>

definition EncodeFixed32_on :: "bool \<Rightarrow> u32 \<Rightarrow> byte list" where
  "EncodeFixed32_on little_endian value =
     (if little_endian then mem_store 4 value
      else [ucast (value AND 0xff), ucast (drop_bit 8 value AND 0xff),
            ucast (drop_bit 16 value AND 0xff), ucast (drop_bit 24 value AND 0xff)])"

definition EncodeFixed64_on :: "bool \<Rightarrow> u64 \<Rightarrow> byte list" where
  "EncodeFixed64_on little_endian value =
     (if little_endian then mem_store 8 value
      else [ucast (value AND 0xff), ucast (drop_bit 8 value AND 0xff),
            ucast (drop_bit 16 value AND 0xff), ucast (drop_bit 24 value AND 0xff),
            ucast (drop_bit 32 value AND 0xff), ucast (drop_bit 40 value AND 0xff),
            ucast (drop_bit 48 value AND 0xff), ucast (drop_bit 56 value AND 0xff)])"

definition DecodeFixed32_on :: "bool \<Rightarrow> byte list \<Rightarrow> u32" where
  "DecodeFixed32_on little_endian ptr =
     (if little_endian then mem_load 4 ptr
      else ucast (ptr ! 0) OR push_bit 8 (ucast (ptr ! 1))
           OR push_bit 16 (ucast (ptr ! 2)) OR push_bit 24 (ucast (ptr ! 3)))"

definition DecodeFixed64_on :: "bool \<Rightarrow> byte list \<Rightarrow> u64" where
  "DecodeFixed64_on little_endian ptr =
     (if little_endian then mem_load 8 ptr
      else (let lo = ucast (DecodeFixed32_on little_endian ptr);
                hi = ucast (DecodeFixed32_on little_endian (drop 4 ptr))
            in push_bit 32 hi OR lo))"

definition kLittleEndian :: bool where
  "kLittleEndian = True"

definition EncodeFixed32 :: "u32 \<Rightarrow> byte list" where
  "EncodeFixed32 = EncodeFixed32_on kLittleEndian"

definition EncodeFixed64 :: "u64 \<Rightarrow> byte list" where
  "EncodeFixed64 = EncodeFixed64_on kLittleEndian"

definition DecodeFixed32 :: "byte list \<Rightarrow> u32" where
  "DecodeFixed32 = DecodeFixed32_on kLittleEndian"

definition DecodeFixed64 :: "byte list \<Rightarrow> u64" where
  "DecodeFixed64 = DecodeFixed64_on kLittleEndian"

definition PutFixed32 :: "slice \<Rightarrow> u32 \<Rightarrow> slice" where
  "PutFixed32 dst value = dst @ EncodeFixed32 value"

definition PutFixed64 :: "slice \<Rightarrow> u64 \<Rightarrow> slice" where
  "PutFixed64 dst value = dst @ EncodeFixed64 value"

definition GetFixed32 :: "slice \<Rightarrow> (u32 \<times> slice) option" where
  "GetFixed32 input =
     (if length input < 4 then None else Some (DecodeFixed32 input, drop 4 input))"

definition GetFixed64 :: "slice \<Rightarrow> (u64 \<times> slice) option" where
  "GetFixed64 input =
     (if length input < 8 then None else Some (DecodeFixed64 input, drop 8 input))"

lemma length_mem_store [simp]: "length (mem_store n v) = n"
  by (simp add: mem_store_def)

lemma mem_store_Suc:
  "mem_store (Suc n) (v :: 'a::len word) = ucast v # mem_store n (drop_bit 8 v)"
proof -
  have "mem_store (Suc n) v = ucast v # map (\<lambda>i. ucast (drop_bit (8 * Suc i) v)) [0..<n]"
    by (simp add: mem_store_def upt_conv_Cons map_Suc_upt [symmetric] del: upt_Suc)
  then show ?thesis by (simp add: mem_store_def algebra_simps)
qed

lemma mem_load_store: "mem_load n (mem_store n v @ r) = take_bit (8 * n) (v :: 'a::len word)"
proof (induction n arbitrary: v)
  case 0
  then show ?case by simp
next
  case (Suc n)
  have "ucast (ucast v :: byte) OR push_bit 8 (take_bit (8 * n) (drop_bit 8 v)) = take_bit (8 * Suc n) v"
  proof (rule bit_word_eqI)
    fix m assume "m < LENGTH('a)"
    then show "bit (ucast (ucast v :: byte) OR push_bit 8 (take_bit (8 * n) (drop_bit 8 v))) m
        = bit (take_bit (8 * Suc n) v) m"
      by (cases "m < 8") (auto simp: bit_simps)
  qed
  with Suc show ?case by (simp add: mem_store_Suc)
qed

lemma EncodeFixed32_on_eq: "EncodeFixed32_on le v = mem_store 4 v"
  by (simp add: EncodeFixed32_on_def mem_store_def upt_rec word_cuts)
    (auto intro!: bit_word_eqI simp: bit_simps)

lemma EncodeFixed64_on_eq: "EncodeFixed64_on le v = mem_store 8 v"
  by (simp add: EncodeFixed64_on_def mem_store_def upt_rec word_cuts)
    (auto intro!: bit_word_eqI simp: bit_simps)

lemma mem_load_numeral [simp]:
  "mem_load (numeral k) (b # ptr) = ucast b OR push_bit 8 (mem_load (pred_numeral k) ptr)"
  by (simp add: numeral_eq_Suc)

lemma list_ge_4E:
  assumes "4 \<le> length xs"
  obtains a b c d ys where "xs = a # b # c # d # ys"
  using assms by (auto simp: numeral_eq_Suc Suc_le_length_iff)

lemma DecodeFixed32_on_eq:
  assumes "4 \<le> length ptr"
  shows "DecodeFixed32_on le ptr = mem_load 4 ptr"
  using assms by (elim list_ge_4E) (simp add: DecodeFixed32_on_def ac_simps)

lemma ucast_push_bit_byte:
  "n \<le> 24 \<Longrightarrow> ucast (push_bit n (ucast (b :: byte)) :: u32) = (push_bit n (ucast b) :: u64)"
  by (rule bit_word_eqI) (auto simp: bit_simps dest: bit_imp_le_length)

lemma ucast_ucast_byte: "ucast (ucast (b :: byte) :: u32) = (ucast b :: u64)"
  using ucast_push_bit_byte [of 0 b] by simp

lemma mem_load_8_split:
  assumes "8 \<le> length ptr"
  shows "(mem_load 8 ptr :: u64) =
    push_bit 32 (ucast (mem_load 4 (drop 4 ptr) :: u32)) OR ucast (mem_load 4 ptr :: u32)"
proof -
  have "4 \<le> length ptr" using assms by simp
  then obtain a b c d ys where "ptr = a # b # c # d # ys" by (rule list_ge_4E)
  moreover have "4 \<le> length ys" using assms calculation by simp
  then obtain e f g h zs where "ys = e # f # g # h # zs" by (rule list_ge_4E)
  ultimately show ?thesis
    by (simp add: unsigned_or_eq ucast_push_bit_byte ucast_ucast_byte ac_simps)
qed

lemma DecodeFixed64_on_eq:
  assumes "8 \<le> length ptr"
  shows "DecodeFixed64_on le ptr = mem_load 8 ptr"
  using assms mem_load_8_split [OF assms]
  by (simp add: DecodeFixed64_on_def DecodeFixed32_on_eq Let_def)

lemma length_EncodeFixed [simp]:
  "length (EncodeFixed32 v) = 4" "length (EncodeFixed64 w) = 8"
  by (simp_all add: EncodeFixed32_def EncodeFixed64_def EncodeFixed32_on_eq EncodeFixed64_on_eq)

lemma DecodeFixed32_Encode [codec_simps]: "DecodeFixed32 (EncodeFixed32 v @ rest) = v"
  by (simp add: DecodeFixed32_def EncodeFixed32_def EncodeFixed32_on_eq DecodeFixed32_on_eq
      mem_load_store take_bit_word_eq_self)

lemma DecodeFixed64_Encode [codec_simps]: "DecodeFixed64 (EncodeFixed64 v @ rest) = v"
  by (simp add: DecodeFixed64_def EncodeFixed64_def EncodeFixed64_on_eq DecodeFixed64_on_eq
      mem_load_store take_bit_word_eq_self)

lemma GetFixed_Encode [codec_simps]:
  "GetFixed32 (EncodeFixed32 v @ rest) = Some (v, rest)"
  "GetFixed64 (EncodeFixed64 w @ rest) = Some (w, rest)"
  by (simp_all add: GetFixed32_def GetFixed64_def codec_simps)

section \<open>Varints\<close>

definition EncodeVarint32 :: "u32 \<Rightarrow> byte list" where
  "EncodeVarint32 v =
     (if v < 2 ^ 7 then [ucast v]
      else if v < 2 ^ 14 then [ucast (v OR 128), ucast (drop_bit 7 v)]
      else if v < 2 ^ 21 then
        [ucast (v OR 128), ucast (drop_bit 7 v OR 128), ucast (drop_bit 14 v)]
      else if v < 2 ^ 28 then
        [ucast (v OR 128), ucast (drop_bit 7 v OR 128), ucast (drop_bit 14 v OR 128),
         ucast (drop_bit 21 v)]
      else
        [ucast (v OR 128), ucast (drop_bit 7 v OR 128), ucast (drop_bit 14 v OR 128),
         ucast (drop_bit 21 v OR 128), ucast (drop_bit 28 v)])"

lemma drop_bit_7_less: "128 \<le> (v :: u64) \<Longrightarrow> unat (drop_bit 7 v) < unat v"
  by (simp add: unat_drop_bit word_le_nat_alt)

function EncodeVarint64 :: "u64 \<Rightarrow> byte list" where
  "EncodeVarint64 v =
     (if 128 \<le> v then ucast ((v AND 127) OR 128) # EncodeVarint64 (drop_bit 7 v)
      else [ucast v])"
  by pat_completeness auto
termination by (relation "measure unat") (simp_all add: drop_bit_7_less)

function VarintLength_loop :: "u64 \<Rightarrow> nat \<Rightarrow> nat" where
  "VarintLength_loop v len =
     (if 128 \<le> v then VarintLength_loop (drop_bit 7 v) (len + 1) else len)"
  by pat_completeness auto
termination by (relation "measure (unat \<circ> fst)") (simp_all add: drop_bit_7_less)

definition VarintLength :: "u64 \<Rightarrow> nat" where
  "VarintLength v = VarintLength_loop v 1"

text \<open>
  \<open>GetVarint32PtrFallback\<close> and \<open>GetVarint64Ptr\<close> are the same loop at two widths and with
  two bounds on \<open>shift\<close>, 28 and 63.
\<close>

fun GetVarint_loop :: "nat \<Rightarrow> nat \<Rightarrow> 'a::len word \<Rightarrow> byte list \<Rightarrow> ('a word \<times> byte list) option" where
  "GetVarint_loop max_shift shift result [] = None"
| "GetVarint_loop max_shift shift result (b # p) =
     (if shift \<le> max_shift then
        (let byte = ucast b :: 'a word in
         if byte AND 128 \<noteq> 0
         then GetVarint_loop max_shift (shift + 7) (result OR push_bit shift (byte AND 127)) p
         else Some (result OR push_bit shift byte, p))
      else None)"

definition GetVarint32PtrFallback :: "byte list \<Rightarrow> (u32 \<times> byte list) option" where
  "GetVarint32PtrFallback p = GetVarint_loop 28 0 0 p"

definition GetVarint32Ptr :: "byte list \<Rightarrow> (u32 \<times> byte list) option" where
  "GetVarint32Ptr p =
     (case p of
        [] \<Rightarrow> GetVarint32PtrFallback p
      | b # p' \<Rightarrow>
          (let result = ucast b :: u32 in
           if result AND 128 = 0 then Some (result, p') else GetVarint32PtrFallback p))"

definition GetVarint64Ptr :: "byte list \<Rightarrow> (u64 \<times> byte list) option" where
  "GetVarint64Ptr p = GetVarint_loop 63 0 0 p"

definition GetVarint32 :: "slice \<Rightarrow> (u32 \<times> slice) option" where
  "GetVarint32 input = GetVarint32Ptr input"

definition GetVarint64 :: "slice \<Rightarrow> (u64 \<times> slice) option" where
  "GetVarint64 input = GetVarint64Ptr input"

definition PutVarint32 :: "slice \<Rightarrow> u32 \<Rightarrow> slice" where
  "PutVarint32 dst v = dst @ EncodeVarint32 v"

definition PutVarint64 :: "slice \<Rightarrow> u64 \<Rightarrow> slice" where
  "PutVarint64 dst v = dst @ EncodeVarint64 v"

definition PutVarint32Varint32 :: "slice \<Rightarrow> u32 \<Rightarrow> u32 \<Rightarrow> slice" where
  "PutVarint32Varint32 dst v1 v2 = dst @ (EncodeVarint32 v1 @ EncodeVarint32 v2)"

definition PutVarint32Varint32Varint32 :: "slice \<Rightarrow> u32 \<Rightarrow> u32 \<Rightarrow> u32 \<Rightarrow> slice" where
  "PutVarint32Varint32Varint32 dst v1 v2 v3 =
     dst @ (EncodeVarint32 v1 @ EncodeVarint32 v2 @ EncodeVarint32 v3)"

definition PutVarint64Varint64 :: "slice \<Rightarrow> u64 \<Rightarrow> u64 \<Rightarrow> slice" where
  "PutVarint64Varint64 dst v1 v2 = dst @ (EncodeVarint64 v1 @ EncodeVarint64 v2)"

definition PutVarint32Varint64 :: "slice \<Rightarrow> u32 \<Rightarrow> u64 \<Rightarrow> slice" where
  "PutVarint32Varint64 dst v1 v2 = dst @ (EncodeVarint32 v1 @ EncodeVarint64 v2)"

definition PutVarint32Varint32Varint64 :: "slice \<Rightarrow> u32 \<Rightarrow> u32 \<Rightarrow> u64 \<Rightarrow> slice" where
  "PutVarint32Varint32Varint64 dst v1 v2 v3 =
     dst @ (EncodeVarint32 v1 @ EncodeVarint32 v2 @ EncodeVarint64 v3)"

section \<open>Length-prefixed slices\<close>

definition PutLengthPrefixedSlice :: "slice \<Rightarrow> slice \<Rightarrow> slice" where
  "PutLengthPrefixedSlice dst value = PutVarint32 dst (of_nat (length value)) @ value"

definition PutLengthPrefixedSliceParts :: "slice \<Rightarrow> slice list \<Rightarrow> slice" where
  "PutLengthPrefixedSliceParts dst parts =
     (let total_bytes = fold (\<lambda>part total. total + length part) parts 0
      in fold (\<lambda>part d. d @ part) parts (PutVarint32 dst (of_nat total_bytes)))"

definition GetLengthPrefixedSlice :: "slice \<Rightarrow> (slice \<times> slice) option" where
  "GetLengthPrefixedSlice input =
     (case GetVarint32 input of
        None \<Rightarrow> None
      | Some (len, input') \<Rightarrow>
          if unat len \<le> length input' then Some (take (unat len) input', drop (unat len) input')
          else None)"

text \<open>The overload on a bare pointer, which trusts its input: \<open>None\<close> where the code
  would read past the buffer or from a null pointer.\<close>

definition GetLengthPrefixedSlice_ptr :: "byte list \<Rightarrow> slice option" where
  "GetLengthPrefixedSlice_ptr data =
     (case GetVarint32Ptr (take 5 data) of
        None \<Rightarrow> None
      | Some (len, p) \<Rightarrow>
          (let rest = p @ drop 5 data in
           if unat len \<le> length rest then Some (take (unat len) rest) else None))"

definition GetSliceUntil :: "slice \<Rightarrow> byte \<Rightarrow> slice \<times> slice" where
  "GetSliceUntil s delimiter =
     (let len = length (takeWhile (\<lambda>b. b \<noteq> delimiter) s)
      in (take len s, drop (len + (if len < length s then 1 else 0)) s))"

definition EndianTransform :: "u64 \<Rightarrow> nat \<Rightarrow> u64" where
  "EndianTransform input sz =
     fold (\<lambda>i ret_val. ret_val OR push_bit (8 * (sz - i - 1)) (ucast (mem_store 8 input ! i)))
       [0..<sz] 0"

section \<open>Lemmas on varints\<close>

declare EncodeVarint64.simps [simp del] VarintLength_loop.simps [simp del]

lemma VarintLength_loop_eq: "VarintLength_loop v len + 1 = len + length (EncodeVarint64 v)"
proof (induction v len rule: VarintLength_loop.induct)
  case (1 v len)
  show ?case
  proof (cases "128 \<le> v")
    case True
    with 1 have "VarintLength_loop (drop_bit 7 v) (len + 1) + 1
        = len + 1 + length (EncodeVarint64 (drop_bit 7 v))" by simp
    with True show ?thesis
      by (simp add: VarintLength_loop.simps [of v] EncodeVarint64.simps [of v])
  qed (simp add: VarintLength_loop.simps [of v] EncodeVarint64.simps [of v])
qed

lemma length_EncodeVarint64: "length (EncodeVarint64 v) = VarintLength v"
  using VarintLength_loop_eq [of v 1] by (simp add: VarintLength_def)

lemma EncodeVarint64_nonempty [simp]: "EncodeVarint64 v \<noteq> []"
  by (subst EncodeVarint64.simps) simp

lemma length_EncodeVarint64_le:
  "unat v < 2 ^ (7 * n) \<Longrightarrow> 0 < n \<Longrightarrow> length (EncodeVarint64 v) \<le> n"
proof (induction v arbitrary: n rule: EncodeVarint64.induct)
  case (1 v)
  show ?case
  proof (cases "128 \<le> v")
    case True
    then have "128 \<le> unat v" by (simp add: word_le_nat_alt)
    with "1.prems" obtain m where m: "n = Suc m" "0 < m"
      by (cases n; cases "n - 1") auto
    have "unat (drop_bit 7 v) < 2 ^ (7 * m)"
      using "1.prems"(1) m(1) by (simp add: unat_drop_bit power_add less_mult_imp_div_less mult.commute)
    with "1.IH" [OF True] m True show ?thesis
      by (simp add: EncodeVarint64.simps [of v])
  next
    case False
    with "1.prems" show ?thesis by (simp add: EncodeVarint64.simps [of v])
  qed
qed

lemma VarintLength_bounds: "1 \<le> VarintLength v" "VarintLength v \<le> 10"
proof -
  have "0 < length (EncodeVarint64 v)" by simp
  then show "1 \<le> VarintLength v" by (simp only: length_EncodeVarint64)
  have "unat v < 2 ^ 64" using unsigned_less [of v] by simp
  then have "unat v < 2 ^ (7 * 10)" by (rule less_trans) simp
  then show "VarintLength v \<le> 10"
    using length_EncodeVarint64_le [of v 10] by (simp add: length_EncodeVarint64)
qed

lemma varint_more_byte:
  fixes w :: u64
  assumes "8 \<le> LENGTH('a::len)"
  defines "b \<equiv> ucast ((w AND 127) OR 128) :: byte"
  shows "(ucast b :: 'a word) AND 128 \<noteq> 0" "(ucast b :: 'a word) AND 127 = ucast (take_bit 7 w)"
proof -
  show "(ucast b :: 'a word) AND 128 \<noteq> 0"
    using assms(1) by (simp add: and_128_eq_0_iff b_def bit_ucast_iff bit_or_iff bit_128_iff)
  show "(ucast b :: 'a word) AND 127 = ucast (take_bit 7 w)"
    unfolding and_127_eq b_def
    by (rule bit_word_eqI) (auto simp: bit_simps bit_128_iff simp del: bit_numeral_word_iff)
qed

lemma varint_last_byte:
  assumes "8 \<le> LENGTH('a::len)" "\<not> 128 \<le> (w :: u64)"
  shows "(ucast w :: 'a word) AND 128 = 0"
    "(ucast (ucast w :: byte) :: 'a word) = ucast w"
proof -
  have "unat w < 2 ^ 7" using assms(2) by (simp add: word_le_nat_alt)
  then have small: "bit w m \<Longrightarrow> m < 7" for m by (rule bit_less_power)
  show "(ucast w :: 'a word) AND 128 = 0"
    using small [of 7] by (auto simp: and_128_eq_0_iff bit_ucast_iff)
  show "(ucast (ucast w :: byte) :: 'a word) = ucast w"
    by (rule bit_word_eqI) (use small in \<open>fastforce simp: bit_simps\<close>)
qed

lemma push_bit_split7_ucast:
  "push_bit s (ucast (take_bit 7 (w :: u64))) OR push_bit (s + 7) (ucast (drop_bit 7 w))
   = (push_bit s (ucast w) :: 'a::len word)"
proof (rule bit_word_eqI)
  fix m assume "m < LENGTH('a)"
  then show "bit (push_bit s (ucast (take_bit 7 w)) OR push_bit (s + 7) (ucast (drop_bit 7 w)) :: 'a word) m
    = bit (push_bit s (ucast w) :: 'a word) m"
    by (cases "m < s + 7") (auto simp: bit_simps)
qed

lemma GetVarint_loop_Encode:
  fixes result :: "'a::len word"
  assumes "8 \<le> LENGTH('a)" "shift + 7 * (length (EncodeVarint64 w) - 1) \<le> max_shift"
  shows "GetVarint_loop max_shift shift result (EncodeVarint64 w @ rest)
    = Some (result OR push_bit shift (ucast w), rest)"
  using assms
proof (induction w arbitrary: shift result rule: EncodeVarint64.induct)
  case (1 w)
  show ?case
  proof (cases "128 \<le> w")
    case True
    let ?r = "result OR push_bit shift (ucast (take_bit 7 w))"
    have len: "length (EncodeVarint64 w) = Suc (length (EncodeVarint64 (drop_bit 7 w)))"
      using True by (simp add: EncodeVarint64.simps [of w])
    moreover have "0 < length (EncodeVarint64 (drop_bit 7 w))" by simp
    ultimately have "shift + 7 + 7 * (length (EncodeVarint64 (drop_bit 7 w)) - 1) \<le> max_shift"
      using "1.prems"(2) by linarith
    with "1.IH" [OF True "1.prems"(1), of "shift + 7" ?r]
    have "GetVarint_loop max_shift (shift + 7) ?r (EncodeVarint64 (drop_bit 7 w) @ rest)
      = Some (?r OR push_bit (shift + 7) (ucast (drop_bit 7 w)), rest)" by simp
    with True "1.prems" show ?thesis
      by (simp add: EncodeVarint64.simps [of w] varint_more_byte or.assoc push_bit_split7_ucast Let_def)
  next
    case False
    with "1.prems" show ?thesis
      by (simp add: EncodeVarint64.simps [of w] varint_last_byte Let_def)
  qed
qed

lemma varint32_thresholds:
  fixes v :: u32
  defines "w \<equiv> ucast v :: u64"
  shows "128 \<le> w \<longleftrightarrow> \<not> v < 2 ^ 7" "128 \<le> drop_bit 7 w \<longleftrightarrow> \<not> v < 2 ^ 14"
    "128 \<le> drop_bit 14 w \<longleftrightarrow> \<not> v < 2 ^ 21" "128 \<le> drop_bit 21 w \<longleftrightarrow> \<not> v < 2 ^ 28"
    "\<not> 128 \<le> drop_bit 28 w"
proof -
  have w: "unat w = unat v" unfolding w_def by (rule unat_ucast_up) simp
  have v: "unat v < 4294967296" using unsigned_less [of v] by simp
  show "128 \<le> w \<longleftrightarrow> \<not> v < 2 ^ 7"
    using w by (simp add: word_le_nat_alt word_less_nat_alt not_less)
  show "128 \<le> drop_bit 7 w \<longleftrightarrow> \<not> v < 2 ^ 14"
    using w unfolding word_le_nat_alt word_less_nat_alt unat_drop_bit by simp linarith
  show "128 \<le> drop_bit 14 w \<longleftrightarrow> \<not> v < 2 ^ 21"
    using w unfolding word_le_nat_alt word_less_nat_alt unat_drop_bit by simp linarith
  show "128 \<le> drop_bit 21 w \<longleftrightarrow> \<not> v < 2 ^ 28"
    using w unfolding word_le_nat_alt word_less_nat_alt unat_drop_bit by simp linarith
  show "\<not> 128 \<le> drop_bit 28 w"
    using w v unfolding word_le_nat_alt unat_drop_bit by simp
qed

lemma varint32_bytes:
  fixes v :: u32
  defines "w \<equiv> ucast v :: u64"
  shows "(ucast (drop_bit n w) :: byte) = ucast (drop_bit n v)"
    "(ucast ((drop_bit n w AND 127) OR 128) :: byte) = ucast (drop_bit n v OR 128)"
  unfolding w_def and_127_eq
  by (rule bit_word_eqI, auto simp: bit_simps dest: bit_imp_le_length)
    (rule bit_word_eqI, auto simp: bit_simps bit_128_iff dest: bit_imp_le_length
      simp del: bit_numeral_word_iff)

lemma EncodeVarint32_eq_64: "EncodeVarint32 v = EncodeVarint64 (ucast v)"
proof -
  let ?w = "ucast v :: u64"
  have step: "EncodeVarint64 (drop_bit n ?w) =
      (if 128 \<le> drop_bit n ?w
       then ucast (drop_bit n v OR 128) # EncodeVarint64 (drop_bit (n + 7) ?w)
       else [ucast (drop_bit n v)])" for n
    by (subst EncodeVarint64.simps) (simp add: varint32_bytes add.commute)
  show ?thesis
    using step [of 0] step [of 7] step [of 14] step [of 21] step [of 28]
    unfolding EncodeVarint32_def by (simp add: varint32_thresholds)
qed

lemma length_EncodeVarint32: "length (EncodeVarint32 v) = VarintLength (ucast v)"
  by (simp add: EncodeVarint32_eq_64 length_EncodeVarint64)

lemma length_EncodeVarint32_le: "length (EncodeVarint32 v) \<le> 5"
  by (simp add: EncodeVarint32_def)

lemma GetVarint32Ptr_eq_fallback: "GetVarint32Ptr p = GetVarint32PtrFallback p"
  by (cases p) (auto simp: GetVarint32Ptr_def GetVarint32PtrFallback_def Let_def)

lemma GetVarint32_Encode [codec_simps]: "GetVarint32 (EncodeVarint32 v @ rest) = Some (v, rest)"
proof -
  have "GetVarint_loop 28 0 (0 :: u32) (EncodeVarint32 v @ rest)
    = Some (0 OR push_bit 0 (ucast (ucast v :: u64)), rest)"
    unfolding EncodeVarint32_eq_64
    by (rule GetVarint_loop_Encode)
      (use length_EncodeVarint32_le [of v] in \<open>simp_all add: EncodeVarint32_eq_64\<close>)
  moreover have "ucast (ucast v :: u64) = v"
    by (rule bit_word_eqI) (simp add: bit_simps)
  ultimately show ?thesis
    by (simp add: GetVarint32_def GetVarint32Ptr_eq_fallback GetVarint32PtrFallback_def)
qed

lemma GetVarint64_Encode [codec_simps]: "GetVarint64 (EncodeVarint64 v @ rest) = Some (v, rest)"
proof -
  have "GetVarint_loop 63 0 (0 :: u64) (EncodeVarint64 v @ rest)
    = Some (0 OR push_bit 0 (ucast v), rest)"
    by (rule GetVarint_loop_Encode)
      (use VarintLength_bounds(2) [of v] in \<open>simp_all add: length_EncodeVarint64\<close>)
  then show ?thesis by (simp add: GetVarint64_def GetVarint64Ptr_def)
qed

lemma GetLengthPrefixedSlice_Put [codec_simps]:
  assumes "length value < 2 ^ 32"
  shows "GetLengthPrefixedSlice (EncodeVarint32 (of_nat (length value)) @ value @ rest)
    = Some (value, rest)"
proof -
  have "unat (of_nat (length value) :: u32) = length value"
    using assms by (simp add: unat_of_nat)
  then show ?thesis by (simp add: GetLengthPrefixedSlice_def codec_simps)
qed

lemma fold_append: "fold (\<lambda>x acc. acc @ x) xs acc = acc @ concat xs"
  by (induction xs arbitrary: acc) auto

lemma fold_length: "fold (\<lambda>x n. n + length x) xs n = n + length (concat xs)"
  by (induction xs arbitrary: n) auto

lemma PutLengthPrefixedSliceParts_eq:
  "PutLengthPrefixedSliceParts dst parts = PutLengthPrefixedSlice dst (concat parts)"
  by (simp add: PutLengthPrefixedSliceParts_def PutLengthPrefixedSlice_def fold_append fold_length)

text \<open>What the decoder consumes is a proper prefix of at most five or ten bytes.\<close>

lemma GetVarint_loop_suffix:
  "GetVarint_loop max_shift shift result p = Some (v, rest) \<Longrightarrow>
   \<exists>used. p = used @ rest \<and> used \<noteq> [] \<and> 7 * length used + shift \<le> max_shift + 7"
proof (induction max_shift shift result p rule: GetVarint_loop.induct)
  case (2 max_shift shift result b p)
  show ?case
  proof (cases "(ucast b :: 'a word) AND 128 \<noteq> 0")
    case True
    with 2 obtain used where "p = used @ rest" "used \<noteq> []"
      "7 * length used + (shift + 7) \<le> max_shift + 7"
      by (fastforce simp: Let_def split: if_splits)
    then show ?thesis by (intro exI [of _ "b # used"]) simp
  next
    case False
    with "2.prems" show ?thesis
      by (intro exI [of _ "[b]"]) (auto simp: Let_def split: if_splits)
  qed
qed simp

section \<open>Properties\<close>

text \<open>C1: a varint written with \<open>PutVarint32\<close> or \<open>PutVarint64\<close> is read back by the matching
  \<open>Get\<close> routine, which leaves exactly what follows it; it takes \<open>VarintLength\<close> bytes, at most
  five for 32 bits and at most ten for 64.\<close>

theorem varint_roundtrip:
  "GetVarint32 (PutVarint32 [] v @ rest) = Some (v, rest) \<and>
   GetVarint64 (PutVarint64 [] w @ rest) = Some (w, rest) \<and>
   length (PutVarint32 [] v) = VarintLength (ucast v) \<and> length (PutVarint32 [] v) \<le> 5 \<and>
   length (PutVarint64 [] w) = VarintLength w \<and> length (PutVarint64 [] w) \<le> 10"
  using length_EncodeVarint32_le [of v] VarintLength_bounds(2) [of w]
  by (simp add: PutVarint32_def PutVarint64_def codec_simps length_EncodeVarint32 length_EncodeVarint64)

text \<open>the unrolled \<open>EncodeVarint32\<close>, with its five branches, writes the same bytes as the
  loop of \<open>EncodeVarint64\<close> on the widened value, and the fast path of \<open>GetVarint32Ptr\<close>
  agrees with its fallback loop on every input.\<close>

theorem varint32_unrolled_eq_loop:
  "EncodeVarint32 v = EncodeVarint64 (ucast v) \<and> GetVarint32Ptr p = GetVarint32PtrFallback p"
  by (simp add: EncodeVarint32_eq_64 GetVarint32Ptr_eq_fallback)

text \<open>fixed-width integers are endian-neutral: what either branch of the encoder writes,
  either branch of the decoder reads back.\<close>

theorem fixed_endian_neutral:
  "DecodeFixed32_on le (EncodeFixed32_on le' v @ rest) = v \<and>
   DecodeFixed64_on le (EncodeFixed64_on le' w @ rest) = w \<and>
   EncodeFixed32_on le v = EncodeFixed32_on le' v \<and> EncodeFixed64_on le w = EncodeFixed64_on le' w"
  by (simp add: EncodeFixed32_on_eq EncodeFixed64_on_eq DecodeFixed32_on_eq DecodeFixed64_on_eq
      mem_load_store take_bit_word_eq_self)

text \<open>A length-prefixed slice, written whole or in parts, is read back with the rest of the
  input, when its length fits the 32-bit prefix.\<close>

theorem length_prefixed_roundtrip:
  assumes "length (concat parts) < 2 ^ 32"
  shows "GetLengthPrefixedSlice (PutLengthPrefixedSliceParts [] parts @ rest)
    = Some (concat parts, rest)"
  using assms
  by (simp add: PutLengthPrefixedSliceParts_eq PutLengthPrefixedSlice_def PutVarint32_def codec_simps)

theorem length_prefixed_roundtrip_witness:
  "length (concat [[1, 2], [3 :: byte]]) < 2 ^ 32 \<and>
   GetLengthPrefixedSlice (PutLengthPrefixedSliceParts [] [[1, 2], [3]] @ [9]) = Some ([1, 2, 3], [9])"
  using length_prefixed_roundtrip [of "[[1, 2], [3]]" "[9]"] by simp

lemma GetVarint32_suffix:
  assumes "GetVarint32 input = Some (v, rest)"
  shows "\<exists>used. input = used @ rest \<and> 1 \<le> length used \<and> length used \<le> 5"
proof -
  have "GetVarint_loop 28 0 0 input = Some (v, rest)"
    using assms by (simp add: GetVarint32_def GetVarint32Ptr_eq_fallback GetVarint32PtrFallback_def)
  then obtain used where "input = used @ rest" "used \<noteq> []" "7 * length used + 0 \<le> 28 + 7"
    using GetVarint_loop_suffix by blast
  then show ?thesis by (intro exI [of _ used]) (auto simp: Suc_le_eq)
qed

lemma GetVarint64_suffix:
  assumes "GetVarint64 input = Some (v, rest)"
  shows "\<exists>used. input = used @ rest \<and> 1 \<le> length used \<and> length used \<le> 10"
proof -
  have "GetVarint_loop 63 0 0 input = Some (v, rest)"
    using assms by (simp add: GetVarint64_def GetVarint64Ptr_def)
  then obtain used where "input = used @ rest" "used \<noteq> []" "7 * length used + 0 \<le> 63 + 7"
    using GetVarint_loop_suffix by blast
  then show ?thesis by (intro exI [of _ used]) (auto simp: Suc_le_eq)
qed

lemma GetLengthPrefixedSlice_shorter:
  assumes "GetLengthPrefixedSlice input = Some (v, rest)"
  shows "length rest < length input"
proof -
  obtain len p where p: "GetVarint32 input = Some (len, p)" "rest = drop (unat len) p"
    using assms by (auto simp: GetLengthPrefixedSlice_def split: option.splits if_splits)
  then show ?thesis using GetVarint32_suffix [OF p(1)] by auto
qed

text \<open>C2: on any input, corrupt or not, a varint read that succeeds consumes at least one byte
  and no more than five (32 bits) or ten (64 bits), and leaves the rest of the input untouched.\<close>

theorem varint_read_bounded:
  "(GetVarint32 input = Some (v, rest) \<longrightarrow>
     (\<exists>used. input = used @ rest \<and> 1 \<le> length used \<and> length used \<le> 5)) \<and>
   (GetVarint64 input = Some (w, rest) \<longrightarrow>
     (\<exists>used. input = used @ rest \<and> 1 \<le> length used \<and> length used \<le> 10))"
  using GetVarint32_suffix GetVarint64_suffix by blast

theorem varint_read_bounded_witness:
  "GetVarint32 [0xAC, 0x02, 7] = Some (300, [7]) \<and>
   (\<exists>used :: slice. [0xAC, 0x02, 7] = used @ [7] \<and> 1 \<le> length used \<and> length used \<le> 5)"
proof -
  have "GetVarint32 [0xAC, 0x02, 7] = Some (300, [7])" by code_simp
  then show ?thesis using varint_read_bounded [of "[0xAC, 0x02, 7]" 300 "[7]"] by blast
qed

end
