(* ===== verification/Status.thy ===== *)
theory Status
  imports Prelude
begin

text \<open>
  \<^verbatim>\<open>include/rocksdb/status.h\<close> and \<^verbatim>\<open>util/status.cc\<close>: the result every fallible operation
  returns. The message, a C string in the code (\<open>nullptr\<close> when there is none), is an
  optional \<open>string\<close>.
\<close>

datatype Code =
  kOk | kNotFound | kCorruption | kNotSupported | kInvalidArgument | kIOError
  | kMergeInProgress | kIncomplete | kShutdownInProgress | kTimedOut | kAborted | kBusy
  | kExpired | kTryAgain

datatype SubCode =
  kNone | kMutexTimeout | kLockTimeout | kLockLimit | kNoSpace | kDeadlock | kStaleFile
  | kMemoryLimit

record Status =
  st_code :: Code
  st_subcode :: SubCode
  st_state :: "string option"

definition Status_OK :: Status where
  "Status_OK = \<lparr>st_code = kOk, st_subcode = kNone, st_state = None\<rparr>"

definition Status_code :: "Code \<Rightarrow> SubCode \<Rightarrow> Status" where
  "Status_code c sc = \<lparr>st_code = c, st_subcode = sc, st_state = None\<rparr>"

definition Status_msg :: "Code \<Rightarrow> SubCode \<Rightarrow> string \<Rightarrow> string \<Rightarrow> Status" where
  "Status_msg c sc msg msg2 =
     \<lparr>st_code = c, st_subcode = sc,
      st_state = Some (msg @ (if msg2 \<noteq> [] then '': '' @ msg2 else []))\<rparr>"

definition NotFound :: "string \<Rightarrow> Status" where
  "NotFound msg = Status_msg kNotFound kNone msg []"

definition Corruption :: "string \<Rightarrow> Status" where
  "Corruption msg = Status_msg kCorruption kNone msg []"

definition NotSupported :: "string \<Rightarrow> Status" where
  "NotSupported msg = Status_msg kNotSupported kNone msg []"

definition InvalidArgument :: "string \<Rightarrow> Status" where
  "InvalidArgument msg = Status_msg kInvalidArgument kNone msg []"

definition MergeInProgress :: "string \<Rightarrow> Status" where
  "MergeInProgress msg = Status_msg kMergeInProgress kNone msg []"

definition Incomplete :: "string \<Rightarrow> Status" where
  "Incomplete msg = Status_msg kIncomplete kNone msg []"

definition MemoryLimit :: Status where
  "MemoryLimit = Status_code kAborted kMemoryLimit"

definition ok :: "Status \<Rightarrow> bool" where
  "ok s \<longleftrightarrow> st_code s = kOk"

definition IsNotFound :: "Status \<Rightarrow> bool" where
  "IsNotFound s \<longleftrightarrow> st_code s = kNotFound"

definition IsCorruption :: "Status \<Rightarrow> bool" where
  "IsCorruption s \<longleftrightarrow> st_code s = kCorruption"

definition IsMemoryLimit :: "Status \<Rightarrow> bool" where
  "IsMemoryLimit s \<longleftrightarrow> st_code s = kAborted \<and> st_subcode s = kMemoryLimit"

lemma ok_simps [simp]:
  "ok Status_OK" "\<not> ok (Corruption m)" "\<not> ok (NotFound m)" "\<not> ok (NotSupported m)"
  "\<not> ok (InvalidArgument m)" "\<not> ok (MergeInProgress m)" "\<not> ok (Incomplete m)" "\<not> ok MemoryLimit"
  by (simp_all add: ok_def Status_OK_def Corruption_def NotFound_def NotSupported_def
      InvalidArgument_def MergeInProgress_def Incomplete_def MemoryLimit_def Status_msg_def
      Status_code_def)

lemma IsCorruption_simps [simp]: "IsCorruption (Corruption m)" "\<not> IsCorruption Status_OK"
  by (simp_all add: IsCorruption_def Corruption_def Status_OK_def Status_msg_def)

end
