(* ===== verification/Slice.thy ===== *)
theory Slice
  imports Prelude
begin

text \<open>
  \<^verbatim>\<open>include/rocksdb/slice.h\<close> and \<^verbatim>\<open>util/slice.cc\<close>: comparison of byte strings, the
  hexadecimal printer and parser, and the built-in prefix extractors.
\<close>

section \<open>Comparison\<close>

text \<open>\<open>memcmp\<close> over two buffers of one length: the sign of the first difference,
  bytes taken unsigned.\<close>

fun memcmp :: "byte list \<Rightarrow> byte list \<Rightarrow> int" where
  "memcmp (a # as) (b # bs) = (if a < b then -1 else if b < a then 1 else memcmp as bs)"
| "memcmp _ _ = 0"

definition Slice_compare :: "slice \<Rightarrow> slice \<Rightarrow> int" where
  "Slice_compare a b =
     (let min_len = (if length a < length b then length a else length b);
          r = memcmp (take min_len a) (take min_len b)
      in if r = 0 then (if length a < length b then -1 else if length a > length b then 1 else r)
         else r)"

definition Slice_eq :: "slice \<Rightarrow> slice \<Rightarrow> bool" where
  "Slice_eq x y \<longleftrightarrow> length x = length y \<and> memcmp x (take (length x) y) = 0"

definition starts_with :: "slice \<Rightarrow> slice \<Rightarrow> bool" where
  "starts_with s x \<longleftrightarrow> length x \<le> length s \<and> memcmp (take (length x) s) x = 0"

definition ends_with :: "slice \<Rightarrow> slice \<Rightarrow> bool" where
  "ends_with s x \<longleftrightarrow> length x \<le> length s \<and> memcmp (drop (length s - length x) s) x = 0"

fun difference_offset_loop :: "slice \<Rightarrow> slice \<Rightarrow> nat \<Rightarrow> nat" where
  "difference_offset_loop (a # as) (b # bs) off =
     (if a \<noteq> b then off else difference_offset_loop as bs (off + 1))"
| "difference_offset_loop _ _ off = off"

definition difference_offset :: "slice \<Rightarrow> slice \<Rightarrow> nat" where
  "difference_offset a b =
     (let len = (if length a < length b then length a else length b)
      in difference_offset_loop (take len a) (take len b) 0)"

definition remove_prefix :: "slice \<Rightarrow> nat \<Rightarrow> slice" where
  "remove_prefix s n = drop n s"

definition remove_suffix :: "slice \<Rightarrow> nat \<Rightarrow> slice" where
  "remove_suffix s n = take (length s - n) s"

lemma memcmp_eq_0_iff: "length a = length b \<Longrightarrow> memcmp a b = 0 \<longleftrightarrow> a = b"
  by (induction a b rule: memcmp.induct) auto

lemma Slice_eq_iff: "Slice_eq x y \<longleftrightarrow> x = y"
  by (auto simp: Slice_eq_def memcmp_eq_0_iff)

lemma starts_with_iff: "starts_with s x \<longleftrightarrow> prefix x s"
proof
  assume "starts_with s x"
  then have "take (length x) s = x" using memcmp_eq_0_iff [of "take (length x) s" x] by (simp add: starts_with_def)
  then show "prefix x s" by (metis take_is_prefix)
next
  assume "prefix x s"
  then show "starts_with s x" by (auto simp: starts_with_def prefix_def memcmp_eq_0_iff)
qed

lemma ends_with_iff: "ends_with s x \<longleftrightarrow> suffix x s"
proof
  assume "ends_with s x"
  then have "drop (length s - length x) s = x" using memcmp_eq_0_iff [of "drop (length s - length x) s" x] by (simp add: ends_with_def)
  then show "suffix x s" by (metis suffix_drop)
next
  assume "suffix x s"
  then show "ends_with s x" by (auto simp: ends_with_def suffix_def memcmp_eq_0_iff)
qed

lemma Slice_compare_Nil [simp]:
  "Slice_compare [] b = (if b = [] then 0 else -1)"
  "Slice_compare a [] = (if a = [] then 0 else 1)"
  by (simp_all add: Slice_compare_def)

lemma Slice_compare_Cons [simp]:
  "Slice_compare (a # as) (b # bs) =
     (if a < b then -1 else if b < a then 1 else Slice_compare as bs)"
  by (auto simp: Slice_compare_def Let_def)

text \<open>The three-way comparison is the lexicographic order on unsigned bytes.\<close>

lemma Slice_compare_lex:
  "Slice_compare a b = (if a < b then -1 else if b < a then 1 else 0)"
proof (induction a arbitrary: b)
  case Nil
  then show ?case by (cases b) auto
next
  case (Cons x a)
  then show ?case by (cases b) auto
qed

lemma Slice_compare_less_0: "Slice_compare a b < 0 \<longleftrightarrow> a < b"
  and Slice_compare_eq_0: "Slice_compare a b = 0 \<longleftrightarrow> a = b"
  and Slice_compare_gr_0: "0 < Slice_compare a b \<longleftrightarrow> b < a"
  by (auto simp: Slice_compare_lex)

lemma difference_offset_loop_eq:
  "length a = length b \<Longrightarrow>
   difference_offset_loop a b off = off + length (longest_common_prefix a b)"
  by (induction a b off rule: difference_offset_loop.induct) auto

lemma longest_common_prefix_take:
  "longest_common_prefix (take (min (length a) (length b)) a) (take (min (length a) (length b)) b)
   = longest_common_prefix a b"
  by (induction a b rule: longest_common_prefix.induct) auto

lemma difference_offset_eq: "difference_offset a b = length (longest_common_prefix a b)"
  using longest_common_prefix_take [of a b]
  by (simp add: difference_offset_def difference_offset_loop_eq Let_def min_def split: if_splits)

section \<open>Hexadecimal\<close>

definition toHex :: "byte \<Rightarrow> byte" where
  "toHex v = (if v \<le> 9 then 48 + v else 65 + v - 10)"

text \<open>\<open>char\<close> is signed: a byte above 127 compares as a negative number.\<close>

definition fromHex :: "byte \<Rightarrow> int" where
  "fromHex b =
     (let c0 = sint b;
          c = (if 97 \<le> c0 \<and> c0 \<le> 102 then c0 - 32 else c0)
      in if c < 48 \<or> (c > 57 \<and> (c < 65 \<or> c > 70)) then -1
         else if c \<le> 57 then c - 48 else c - 65 + 10)"

definition Slice_ToString :: "bool \<Rightarrow> slice \<Rightarrow> slice" where
  "Slice_ToString hex s =
     (if hex then concat (map (\<lambda>c. [toHex (drop_bit 4 c), toHex (c AND 0xf)]) s) else s)"

fun DecodeHex_loop :: "slice \<Rightarrow> slice \<Rightarrow> slice option" where
  "DecodeHex_loop (a # b # rest) result =
     (let h1 = fromHex a in
      if h1 < 0 then None
      else let h2 = fromHex b in
      if h2 < 0 then None
      else DecodeHex_loop rest (result @ [word_of_int (push_bit 4 h1 OR h2)]))"
| "DecodeHex_loop _ result = Some result"

definition DecodeHex :: "slice \<Rightarrow> slice option" where
  "DecodeHex s = (if length s mod 2 \<noteq> 0 then None else DecodeHex_loop s [])"

lemma less_16_cases:
  assumes "unat (v :: byte) < 16"
  shows "v \<in> set (map of_nat [0..<16])"
proof -
  have "v = of_nat (unat v)" by simp
  with assms show ?thesis by (metis atLeastLessThan_iff image_eqI image_set le0 set_upt)
qed

lemma fromHex_toHex: "unat v < 16 \<Longrightarrow> fromHex (toHex v) = uint v"
  by (drule less_16_cases) (auto simp: toHex_def fromHex_def upt_rec)

lemma nibbles: "unat (drop_bit 4 (c :: byte)) < 16" "unat (c AND 15) < 16"
    "word_of_int (push_bit 4 (uint (drop_bit 4 c)) OR uint (c AND 15)) = c"
proof -
  have "unat c < 256" using unsigned_less [of c] by simp
  then show "unat (drop_bit 4 c) < 16" by (simp add: unat_drop_bit less_mult_imp_div_less)
  have and15: "c AND 15 = take_bit 4 c" using take_bit_eq_mask [of 4 c] by (simp add: mask_numeral)
  show "unat (c AND 15) < 16"
    unfolding and15 by (simp add: unsigned_take_bit_eq take_bit_nat_less_exp [of 4, simplified])
  show "word_of_int (push_bit 4 (uint (drop_bit 4 c)) OR uint (c AND 15)) = c"
    unfolding and15 by (rule bit_word_eqI) (auto simp: bit_simps)
qed

lemma DecodeHex_loop_ToString:
  "DecodeHex_loop (Slice_ToString True s) result = Some (result @ s)"
  by (induction s arbitrary: result)
    (auto simp: Slice_ToString_def fromHex_toHex nibbles Let_def)

lemma length_Slice_ToString_hex: "length (Slice_ToString True s) = 2 * length s"
  by (induction s) (auto simp: Slice_ToString_def)

lemma DecodeHex_ToString: "DecodeHex (Slice_ToString True s) = Some s"
  by (simp add: DecodeHex_def length_Slice_ToString_hex DecodeHex_loop_ToString)

section \<open>Prefix extractors\<close>

text \<open>\<open>FixedPrefixTransform\<close>, \<open>CappedPrefixTransform\<close> and \<open>NoopTransform\<close>, one definition
  per overridden method; the extractor's length is the first argument.\<close>

definition FixedPrefix_InDomain :: "nat \<Rightarrow> slice \<Rightarrow> bool" where
  "FixedPrefix_InDomain prefix_len src \<longleftrightarrow> prefix_len \<le> length src"

definition FixedPrefix_Transform :: "nat \<Rightarrow> slice \<Rightarrow> slice" where
  "FixedPrefix_Transform prefix_len src = take prefix_len src"

definition FixedPrefix_InRange :: "nat \<Rightarrow> slice \<Rightarrow> bool" where
  "FixedPrefix_InRange prefix_len dst \<longleftrightarrow> length dst = prefix_len"

definition FixedPrefix_SameResultWhenAppended :: "nat \<Rightarrow> slice \<Rightarrow> bool" where
  "FixedPrefix_SameResultWhenAppended prefix_len p \<longleftrightarrow> FixedPrefix_InDomain prefix_len p"

definition CappedPrefix_InDomain :: "nat \<Rightarrow> slice \<Rightarrow> bool" where
  "CappedPrefix_InDomain cap_len src \<longleftrightarrow> True"

definition CappedPrefix_Transform :: "nat \<Rightarrow> slice \<Rightarrow> slice" where
  "CappedPrefix_Transform cap_len src = take (min cap_len (length src)) src"

definition CappedPrefix_InRange :: "nat \<Rightarrow> slice \<Rightarrow> bool" where
  "CappedPrefix_InRange cap_len dst \<longleftrightarrow> length dst \<le> cap_len"

definition CappedPrefix_SameResultWhenAppended :: "nat \<Rightarrow> slice \<Rightarrow> bool" where
  "CappedPrefix_SameResultWhenAppended cap_len p \<longleftrightarrow> cap_len \<le> length p"

definition Noop_InDomain :: "slice \<Rightarrow> bool" where
  "Noop_InDomain src \<longleftrightarrow> True"

definition Noop_Transform :: "slice \<Rightarrow> slice" where
  "Noop_Transform src = src"

definition Noop_InRange :: "slice \<Rightarrow> bool" where
  "Noop_InRange dst \<longleftrightarrow> True"

definition Noop_SameResultWhenAppended :: "slice \<Rightarrow> bool" where
  "Noop_SameResultWhenAppended p \<longleftrightarrow> False"

text \<open>The contract of \<^verbatim>\<open>include/rocksdb/slice_transform.h\<close>.\<close>

locale slice_transform =
  fixes Transform :: "slice \<Rightarrow> slice"
    and InDomain :: "slice \<Rightarrow> bool"
    and InRange :: "slice \<Rightarrow> bool"
    and SameResultWhenAppended :: "slice \<Rightarrow> bool"
  assumes Transform_InRange: "InDomain s \<Longrightarrow> InRange (Transform s)"
    and Transform_prefix: "InDomain s \<Longrightarrow> prefix (Transform s) s"
    and same_result: "SameResultWhenAppended p \<Longrightarrow> prefix p s \<Longrightarrow>
      InDomain s \<and> Transform s = Transform p"
begin

text \<open>Why it is safe to seek with a prefix filter: every key below a prefix that satisfies
  \<open>SameResultWhenAppended\<close> has the filter entry of that prefix.\<close>

lemma keys_below_share_prefix:
  "SameResultWhenAppended p \<Longrightarrow> (\<And>s. s \<in> S \<Longrightarrow> prefix p s) \<Longrightarrow> Transform ` S \<subseteq> {Transform p}"
  by (metis image_subsetI insertI1 same_result)

end

lemma take_prefix_of:
  "n \<le> length p \<Longrightarrow> prefix p s \<Longrightarrow> n \<le> length s \<and> take n s = take n p"
  by (auto simp: prefix_def)

interpretation fixed_prefix: slice_transform
  "FixedPrefix_Transform n" "FixedPrefix_InDomain n" "FixedPrefix_InRange n"
  "FixedPrefix_SameResultWhenAppended n" for n
proof
  show "FixedPrefix_InDomain n s \<and> FixedPrefix_Transform n s = FixedPrefix_Transform n p"
    if "FixedPrefix_SameResultWhenAppended n p" "prefix p s" for p s
    using take_prefix_of [OF _ that(2), of n] that(1)
    by (simp add: FixedPrefix_Transform_def FixedPrefix_InDomain_def
        FixedPrefix_SameResultWhenAppended_def)
qed (simp_all add: FixedPrefix_Transform_def FixedPrefix_InDomain_def FixedPrefix_InRange_def
    take_is_prefix)

interpretation capped_prefix: slice_transform
  "CappedPrefix_Transform n" "CappedPrefix_InDomain n" "CappedPrefix_InRange n"
  "CappedPrefix_SameResultWhenAppended n" for n
proof
  show "CappedPrefix_InDomain n s \<and> CappedPrefix_Transform n s = CappedPrefix_Transform n p"
    if "CappedPrefix_SameResultWhenAppended n p" "prefix p s" for p s
    using take_prefix_of [OF _ that(2), of n] that(1)
    by (simp add: CappedPrefix_Transform_def CappedPrefix_InDomain_def
        CappedPrefix_SameResultWhenAppended_def min_absorb1)
qed (simp_all add: CappedPrefix_Transform_def CappedPrefix_InDomain_def CappedPrefix_InRange_def
    take_is_prefix)

interpretation noop_transform: slice_transform
  Noop_Transform Noop_InDomain Noop_InRange Noop_SameResultWhenAppended
  by unfold_locales
    (simp_all add: Noop_Transform_def Noop_InDomain_def Noop_InRange_def
      Noop_SameResultWhenAppended_def)

section \<open>Properties\<close>

text \<open>The hexadecimal form of a slice, which \<open>ToString(true)\<close> prints with two digits per
  byte, decodes to the slice.\<close>

theorem hex_roundtrip:
  "DecodeHex (Slice_ToString True s) = Some s \<and> length (Slice_ToString True s) = 2 * length s"
  by (simp add: DecodeHex_ToString length_Slice_ToString_hex)

end
