(* ===== verification/Comparator.thy ===== *)
theory Comparator
  imports Slice
begin

text \<open>
  \<^verbatim>\<open>include/rocksdb/comparator.h\<close> and \<^verbatim>\<open>util/comparator.cc\<close>. The interface
  \<open>Comparator\<close> is three locales: the order itself, and one for each of the two
  key-shortening methods with the contract its comment gives. The model of
  \<open>BytewiseComparatorImpl\<close> interprets all three; \<open>ReverseBytewiseComparatorImpl\<close>,
  which overrides \<open>Compare\<close> only, does not satisfy the last.
\<close>

section \<open>The interface\<close>

locale comparator =
  fixes Compare :: "slice \<Rightarrow> slice \<Rightarrow> int"
  assumes compare_refl [simp]: "Compare a a = 0"
    and compare_flip: "Compare a b < 0 \<longleftrightarrow> 0 < Compare b a"
    and compare_le_trans: "Compare a b \<le> 0 \<Longrightarrow> Compare b c \<le> 0 \<Longrightarrow> Compare a c \<le> 0"
begin

lemma compare_eq_sym: "Compare a b = 0 \<longleftrightarrow> Compare b a = 0"
  using compare_flip [of a b] compare_flip [of b a] by linarith

lemma compare_le_flip: "Compare a b \<le> 0 \<longleftrightarrow> 0 \<le> Compare b a"
  using compare_flip [of b a] by linarith

lemma compare_less_le_trans: "Compare a b < 0 \<Longrightarrow> Compare b c \<le> 0 \<Longrightarrow> Compare a c < 0"
  using compare_le_trans [of b c a] compare_flip [of a b] compare_le_flip [of c a]
  by linarith

lemma compare_le_less_trans: "Compare a b \<le> 0 \<Longrightarrow> Compare b c < 0 \<Longrightarrow> Compare a c < 0"
  using compare_le_trans [of c a b] compare_flip [of b c] compare_le_flip [of c a]
  by linarith

lemma compare_less_trans: "Compare a b < 0 \<Longrightarrow> Compare b c < 0 \<Longrightarrow> Compare a c < 0"
  using compare_less_le_trans [of a b c] by linarith

lemma compare_eq_left: "Compare a b = 0 \<Longrightarrow> sgn (Compare a c) = sgn (Compare b c)"
  using compare_less_le_trans [of c a b] compare_less_le_trans [of c b a]
    compare_le_less_trans [of a b c] compare_le_less_trans [of b a c]
    compare_eq_sym [of a b] compare_flip [of c a] compare_flip [of c b]
  by (cases "Compare a c" "0 :: int" rule: linorder_cases;
      cases "Compare b c" "0 :: int" rule: linorder_cases) auto

lemma compare_eq_right: "Compare b c = 0 \<Longrightarrow> sgn (Compare a b) = sgn (Compare a c)"
  using compare_eq_left [of b c a] compare_flip [of a b] compare_flip [of b a]
    compare_flip [of a c] compare_flip [of c a]
  by (auto simp: sgn_if split: if_splits)

lemma sorted_less_nth:
  "sorted_wrt (\<lambda>a b. Compare a b < 0) xs \<Longrightarrow> i < j \<Longrightarrow> j < length xs \<Longrightarrow> Compare (xs ! i) (xs ! j) < 0"
  by (rule sorted_wrt_nth_less)

end

locale comparator_separator = comparator +
  fixes FindShortestSeparator :: "slice \<Rightarrow> slice \<Rightarrow> slice"
  assumes separator: "Compare start limit < 0 \<Longrightarrow>
    Compare start (FindShortestSeparator start limit) \<le> 0 \<and>
    Compare (FindShortestSeparator start limit) limit < 0"
    and separator_eq: "Compare start limit = 0 \<Longrightarrow>
      Compare start (FindShortestSeparator start limit) = 0"

locale comparator_successor = comparator +
  fixes FindShortSuccessor :: "slice \<Rightarrow> slice"
  assumes successor: "Compare key (FindShortSuccessor key) \<le> 0"

section \<open>The byte-wise comparators\<close>

definition Bytewise_Compare :: "slice \<Rightarrow> slice \<Rightarrow> int" where
  "Bytewise_Compare a b = Slice_compare a b"

definition Bytewise_Equal :: "slice \<Rightarrow> slice \<Rightarrow> bool" where
  "Bytewise_Equal a b = Slice_eq a b"

function diff_index_loop :: "slice \<Rightarrow> slice \<Rightarrow> nat \<Rightarrow> nat \<Rightarrow> nat" where
  "diff_index_loop start limit min_length diff_index =
     (if diff_index < min_length \<and> start ! diff_index = limit ! diff_index
      then diff_index_loop start limit min_length (diff_index + 1) else diff_index)"
  by pat_completeness auto
termination by (relation "measure (\<lambda>(s, l, m, i). m - i)") auto

function increment_loop :: "slice \<Rightarrow> nat \<Rightarrow> slice" where
  "increment_loop start diff_index =
     (if diff_index < length start then
        (if start ! diff_index < 0xff
         then take (diff_index + 1) (start[diff_index := start ! diff_index + 1])
         else increment_loop start (diff_index + 1))
      else start)"
  by pat_completeness auto
termination by (relation "measure (\<lambda>(s, i). length s - i)") auto

definition Bytewise_FindShortestSeparator :: "slice \<Rightarrow> slice \<Rightarrow> slice" where
  "Bytewise_FindShortestSeparator start limit =
     (let min_length = min (length start) (length limit);
          diff_index = diff_index_loop start limit min_length 0
      in if min_length \<le> diff_index then start
         else
           let start_byte = start ! diff_index; limit_byte = limit ! diff_index in
           if limit_byte \<le> start_byte then start
           else if diff_index < length limit - 1 \<or> unat start_byte + 1 < unat limit_byte
           then take (diff_index + 1) (start[diff_index := start ! diff_index + 1])
           else increment_loop start (diff_index + 1))"

function successor_loop :: "slice \<Rightarrow> nat \<Rightarrow> slice" where
  "successor_loop key i =
     (if i < length key then
        (let byte = key ! i in
         if byte \<noteq> 0xff then take (i + 1) (key[i := byte + 1])
         else successor_loop key (i + 1))
      else key)"
  by pat_completeness auto
termination by (relation "measure (\<lambda>(s, i). length s - i)") auto

definition Bytewise_FindShortSuccessor :: "slice \<Rightarrow> slice" where
  "Bytewise_FindShortSuccessor key = successor_loop key 0"

definition ReverseBytewise_Compare :: "slice \<Rightarrow> slice \<Rightarrow> int" where
  "ReverseBytewise_Compare a b = - Slice_compare a b"

declare diff_index_loop.simps [simp del] increment_loop.simps [simp del]
  successor_loop.simps [simp del]

section \<open>Lexicographic facts\<close>

lemma append_less_iff [simp]: "p @ a < p @ b \<longleftrightarrow> a < (b :: 'a::linorder list)"
  by (induction p) auto

lemma append_le_iff [simp]: "p @ a \<le> p @ b \<longleftrightarrow> a \<le> (b :: 'a::linorder list)"
  by (induction p) auto

lemma byte_succ_greater: "(b :: byte) < 255 \<Longrightarrow> b < b + 1"
  by (simp add: word_less_nat_alt unat_word_ariths)

lemma byte_less_255_iff: "(b :: byte) < 255 \<longleftrightarrow> b \<noteq> 255"
proof -
  have "unat b < 256" using unsigned_less [of b] by simp
  then show ?thesis by (auto simp: word_less_nat_alt word_unat_eq_iff)
qed

lemma less_byte_succ:
  assumes "(s :: byte) < l"
  shows "s < s + 1" "unat (s + 1) = unat s + 1" "s + 1 \<le> l"
proof -
  have l: "unat l < 256" using unsigned_less [of l] by simp
  with assms have "unat s < 255" by (simp add: word_less_nat_alt)
  then show eq: "unat (s + 1) = unat s + 1" by (simp add: unat_word_ariths)
  show "s < s + 1" "s + 1 \<le> l"
    using eq assms by (simp_all add: word_less_nat_alt word_le_nat_alt)
qed

lemma take_update_snoc: "i < length xs \<Longrightarrow> take (Suc i) (xs[i := v]) = take i xs @ [v]"
  by (simp add: take_Suc_conv_app_nth)

text \<open>Both loops that look for a byte to increment either leave the key alone or
  cut it after the byte they increment.\<close>

lemma increment_loop_spec:
  "increment_loop s i = s \<or>
   (\<exists>q x r. s = q @ x # r \<and> i \<le> length q \<and> x < 255 \<and> increment_loop s i = q @ [x + 1])"
proof (induction s i rule: increment_loop.induct)
  case (1 s i)
  show ?case
  proof (cases "i < length s \<and> s ! i < 255")
    case True
    then have "increment_loop s i = take i s @ [s ! i + 1]"
      by (simp add: increment_loop.simps [of s i] take_update_snoc)
    moreover have "s = take i s @ s ! i # drop (Suc i) s"
      using True by (simp add: id_take_nth_drop)
    ultimately show ?thesis using True
      by (intro disjI2 exI [of _ "take i s"] exI [of _ "s ! i"] exI [of _ "drop (Suc i) s"]) auto
  next
    case False
    with 1 show ?thesis
      by (auto simp: increment_loop.simps [of s i] dest: Suc_leD)
  qed
qed

lemma successor_loop_eq: "successor_loop s i = increment_loop s i"
  by (induction s i rule: increment_loop.induct)
    (subst successor_loop.simps, subst increment_loop.simps,
      simp add: byte_less_255_iff Let_def)

lemma cut_incremented_ge: "x < (255 :: byte) \<Longrightarrow> q @ x # r < q @ [x + 1]"
  by (simp add: byte_succ_greater)

lemma increment_loop_ge: "s \<le> increment_loop s i"
  using increment_loop_spec [of s i] by (metis cut_incremented_ge order.refl less_imp_le)

lemma increment_loop_length: "length (increment_loop s i) \<le> length s"
  using increment_loop_spec [of s i] by auto

lemma diff_index_loop_spec:
  assumes "i \<le> m" "m \<le> length s" "m \<le> length l" "take i s = take i l"
  defines "d \<equiv> diff_index_loop s l m i"
  shows "d \<le> m \<and> take d s = take d l \<and> (d < m \<longrightarrow> s ! d \<noteq> l ! d)"
  using assms(1-4) unfolding d_def
proof (induction s l m i rule: diff_index_loop.induct)
  case (1 s l m i)
  show ?case
  proof (cases "i < m \<and> s ! i = l ! i")
    case True
    then have "take (i + 1) s = take (i + 1) l"
      using "1.prems" by (simp add: take_Suc_conv_app_nth)
    with 1 True show ?thesis by (simp add: diff_index_loop.simps [of s l m i])
  next
    case False
    with "1.prems" show ?thesis by (auto simp: diff_index_loop.simps [of s l m i])
  qed
qed

lemma Bytewise_separator_unfold:
  assumes "d = diff_index_loop start limit (min (length start) (length limit)) 0"
  shows "Bytewise_FindShortestSeparator start limit =
    (if min (length start) (length limit) \<le> d then start
     else if limit ! d \<le> start ! d then start
     else if d < length limit - 1 \<or> unat (start ! d) + 1 < unat (limit ! d)
     then take (d + 1) (start[d := start ! d + 1]) else increment_loop start (d + 1))"
  by (simp only: Bytewise_FindShortestSeparator_def Let_def assms)

text \<open>The separator is the key itself, or lies strictly between the key and the limit.\<close>

lemma Bytewise_separator_bounds:
  assumes "start < limit"
  shows "start \<le> Bytewise_FindShortestSeparator start limit"
    "Bytewise_FindShortestSeparator start limit < limit"
    "length (Bytewise_FindShortestSeparator start limit) \<le> length start"
proof -
  let ?r = "Bytewise_FindShortestSeparator start limit"
  let ?m = "min (length start) (length limit)"
  define d where "d = diff_index_loop start limit ?m 0"
  have d: "d \<le> ?m" "take d start = take d limit" "d < ?m \<Longrightarrow> start ! d \<noteq> limit ! d"
    using diff_index_loop_spec [of 0 ?m start limit] unfolding d_def by auto
  note r_eq = Bytewise_separator_unfold [OF d_def]
  have "start \<le> ?r \<and> ?r < limit \<and> length ?r \<le> length start"
  proof (cases "d < ?m")
    case False
    then have "?m \<le> d" by (simp only: not_less)
    then have "?r = start" by (simp only: r_eq if_True)
    with assms show ?thesis by simp
  next
    case True
    define p s st l lt where "p = take d start" and "s = start ! d" and "st = drop (Suc d) start"
      and "l = limit ! d" and "lt = drop (Suc d) limit"
    have start: "start = p @ s # st" and limit: "limit = p @ l # lt" and len: "length p = d"
      using True d(2) id_take_nth_drop [of d start] id_take_nth_drop [of d limit]
      by (simp_all add: p_def s_def st_def l_def lt_def)
    from assms d(3) [OF True] have "s < l"
      unfolding s_def [symmetric] l_def [symmetric] by (simp add: start limit)
    note succ = less_byte_succ [OF this]
    show ?thesis
    proof (cases "lt \<noteq> [] \<or> unat s + 1 < unat l")
      case long: True
      have "d < length limit - 1 \<or> unat (start ! d) + 1 < unat (limit ! d)"
        using long by (auto simp: lt_def s_def l_def)
      then have r: "?r = p @ [s + 1]"
        using True \<open>s < l\<close> unfolding r_eq
        by (simp add: take_update_snoc p_def s_def l_def flip: not_less)
      have "[s + 1] < l # lt"
        using succ long by (cases "s + 1 = l") (auto simp: neq_Nil_conv order.strict_iff_order)
      then show ?thesis using succ unfolding r by (simp add: start limit)
    next
      case short: False
      have "\<not> (d < length limit - 1 \<or> unat (start ! d) + 1 < unat (limit ! d))"
        using short by (auto simp: lt_def s_def l_def)
      then have r: "?r = increment_loop start (d + 1)"
        using True \<open>s < l\<close> unfolding r_eq by (simp add: s_def l_def flip: not_less)
      have "increment_loop start (d + 1) < limit"
      proof (cases "increment_loop start (d + 1) = start")
        case False
        then obtain q x r' where q: "start = q @ x # r'" "d + 1 \<le> length q"
          "increment_loop start (d + 1) = q @ [x + 1]"
          using increment_loop_spec [of start "d + 1"] by auto
        have "take (d + 1) q = take (d + 1) start" using q(1,2) by simp
        also have "\<dots> = p @ [s]" using start len by simp
        finally have "q = p @ s # drop (d + 1) q"
          by (metis append_take_drop_id append_Cons append_Nil append_assoc)
        then obtain q' where "q = p @ s # q'" ..
        with q(3) \<open>s < l\<close> show ?thesis by (simp add: limit)
      qed (use assms in simp)
      then show ?thesis
        using increment_loop_ge increment_loop_length by (simp add: r)
    qed
  qed
  then show "start \<le> ?r" "?r < limit" "length ?r \<le> length start" by auto
qed

text \<open>A key that is not below its limit is never shortened: either one is
  a prefix of the other or the first byte that differs is the larger one. This is the case the reversed order relies on.\<close>

lemma Bytewise_separator_id:
  assumes "limit \<le> start"
  shows "Bytewise_FindShortestSeparator start limit = start"
proof -
  let ?m = "min (length start) (length limit)"
  define d where "d = diff_index_loop start limit ?m 0"
  have d: "d \<le> ?m" "take d start = take d limit" "d < ?m \<Longrightarrow> start ! d \<noteq> limit ! d"
    using diff_index_loop_spec [of 0 ?m start limit] unfolding d_def by auto
  have "limit ! d \<le> start ! d" if "d < ?m"
  proof -
    have "start = take d start @ start ! d # drop (Suc d) start"
      "limit = take d start @ limit ! d # drop (Suc d) limit"
      using that d(2) id_take_nth_drop [of d start] id_take_nth_drop [of d limit] by auto
    with assms have "limit ! d # drop (Suc d) limit \<le> start ! d # drop (Suc d) start"
      by (metis append_le_iff)
    then show ?thesis by auto
  qed
  then show ?thesis
    unfolding Bytewise_separator_unfold [OF d_def]
    by (cases "?m \<le> d") (simp_all only: not_le if_True if_False simp_thms if_cancel)
qed

section \<open>The implementations against the interface\<close>

interpretation bytewise: comparator Bytewise_Compare
  by unfold_locales (auto simp: Bytewise_Compare_def Slice_compare_lex split: if_splits)

interpretation bytewise: comparator_separator Bytewise_Compare Bytewise_FindShortestSeparator
proof
  fix start limit
  assume "Bytewise_Compare start limit < 0"
  then have "start < limit" by (simp add: Bytewise_Compare_def Slice_compare_less_0)
  note b = Bytewise_separator_bounds [OF this]
  show "Bytewise_Compare start (Bytewise_FindShortestSeparator start limit) \<le> 0 \<and>
        Bytewise_Compare (Bytewise_FindShortestSeparator start limit) limit < 0"
    using b(1,2) by (simp add: Bytewise_Compare_def Slice_compare_lex)
next
  fix start limit
  assume "Bytewise_Compare start limit = 0"
  then show "Bytewise_Compare start (Bytewise_FindShortestSeparator start limit) = 0"
    using Bytewise_separator_id [of limit start]
    by (simp add: Bytewise_Compare_def Slice_compare_eq_0)
qed

interpretation bytewise: comparator_successor Bytewise_Compare Bytewise_FindShortSuccessor
proof
  fix key
  have "\<not> Bytewise_FindShortSuccessor key < key"
    using increment_loop_ge [of key 0]
    by (simp only: Bytewise_FindShortSuccessor_def successor_loop_eq not_less)
  then show "Bytewise_Compare key (Bytewise_FindShortSuccessor key) \<le> 0"
    by (simp add: Bytewise_Compare_def Slice_compare_lex)
qed

interpretation reverse_bytewise: comparator ReverseBytewise_Compare
  by unfold_locales (auto simp: ReverseBytewise_Compare_def Slice_compare_lex split: if_splits)

interpretation reverse_bytewise: comparator_separator
  ReverseBytewise_Compare Bytewise_FindShortestSeparator
proof
  fix start limit
  assume *: "ReverseBytewise_Compare start limit < 0"
  then have "limit < start" by (simp add: ReverseBytewise_Compare_def Slice_compare_gr_0)
  then show "ReverseBytewise_Compare start (Bytewise_FindShortestSeparator start limit) \<le> 0 \<and>
        ReverseBytewise_Compare (Bytewise_FindShortestSeparator start limit) limit < 0"
    using * by (simp add: Bytewise_separator_id)
next
  fix start limit
  assume "ReverseBytewise_Compare start limit = 0"
  then show "ReverseBytewise_Compare start (Bytewise_FindShortestSeparator start limit) = 0"
    using Bytewise_separator_id [of limit start]
    by (simp add: ReverseBytewise_Compare_def Slice_compare_eq_0)
qed

section \<open>Properties\<close>

text \<open>C3: \<open>BytewiseComparator\<close> honours the contract of the interface: its separator of two keys
  in order is at least the first, below the second and no longer than the first, and its
  successor of a key is at least the key and no longer.\<close>

theorem bytewise_shortening:
  assumes "Bytewise_Compare start limit < 0"
  shows "Bytewise_Compare start (Bytewise_FindShortestSeparator start limit) \<le> 0 \<and>
    Bytewise_Compare (Bytewise_FindShortestSeparator start limit) limit < 0 \<and>
    length (Bytewise_FindShortestSeparator start limit) \<le> length start \<and>
    Bytewise_Compare key (Bytewise_FindShortSuccessor key) \<le> 0 \<and>
    length (Bytewise_FindShortSuccessor key) \<le> length key"
proof -
  have "start < limit" using assms by (simp add: Bytewise_Compare_def Slice_compare_less_0)
  then show ?thesis
    using bytewise.separator [OF assms] bytewise.successor [of key]
      Bytewise_separator_bounds(3) increment_loop_length [of key 0]
    by (simp add: Bytewise_FindShortSuccessor_def successor_loop_eq)
qed

theorem bytewise_shortening_witness:
  "Bytewise_Compare [1, 1, 65, 65] [1, 2] < 0 \<and>
   Bytewise_FindShortestSeparator [1, 1, 65, 65] [1, 2] = [1, 1, 66] \<and>
   Bytewise_Compare [1, 1, 65, 65] (Bytewise_FindShortestSeparator [1, 1, 65, 65] [1, 2]) \<le> 0"
proof -
  have h: "Bytewise_Compare [1, 1, 65, 65] [1, 2] < 0" by code_simp
  have "Bytewise_FindShortestSeparator [1, 1, 65, 65] [1, 2] = [1, 1, 66]" by code_simp
  then show ?thesis using h bytewise_shortening [OF h, of "[]"] by simp
qed

text \<open>C4: \<open>ReverseBytewiseComparator\<close> inherits \<open>FindShortSuccessor\<close> from the byte-wise comparator
  and so breaks the contract: whenever the inherited method changes a key at all, the result
  comes strictly before the key in the reversed order.\<close>

theorem reverse_successor_violates_contract:
  "Bytewise_FindShortSuccessor key \<noteq> key \<longrightarrow>
   0 < ReverseBytewise_Compare key (Bytewise_FindShortSuccessor key)"
proof
  assume "Bytewise_FindShortSuccessor key \<noteq> key"
  then have "increment_loop key 0 \<noteq> key"
    by (simp add: Bytewise_FindShortSuccessor_def successor_loop_eq)
  with increment_loop_ge [of key 0] have "key < increment_loop key 0" by simp
  then show "0 < ReverseBytewise_Compare key (Bytewise_FindShortSuccessor key)"
    by (simp add: ReverseBytewise_Compare_def Slice_compare_less_0 Bytewise_FindShortSuccessor_def
        successor_loop_eq)
qed

theorem reverse_successor_violates_contract_witness:
  "Bytewise_FindShortSuccessor [97, 98] = [98] \<and>
   0 < ReverseBytewise_Compare [97, 98] (Bytewise_FindShortSuccessor [97, 98])"
proof -
  have h: "Bytewise_FindShortSuccessor [97, 98] = [98]" by code_simp
  then show ?thesis using reverse_successor_violates_contract [of "[97, 98]"] by simp
qed

end
