(* ===== verification/DbFormat.thy ===== *)
theory DbFormat
  imports Coding Comparator
begin

text \<open>
  \<^verbatim>\<open>db/dbformat.h\<close> and \<^verbatim>\<open>db/dbformat.cc\<close>: internal keys. An internal key is the user key
  followed by eight bytes that pack a 56-bit sequence number and a value type; the
  database sorts by user key and, within a user key, newest first.
\<close>

section \<open>Value types and sequence numbers\<close>

text \<open>The enumeration has \<open>unsigned char\<close> as its underlying type and is cast from bytes
  read from disk, so it is a byte with named values.\<close>

type_synonym ValueType = byte
type_synonym SequenceNumber = u64

definition kTypeDeletion :: ValueType where "kTypeDeletion = 0x0"
definition kTypeValue :: ValueType where "kTypeValue = 0x1"
definition kTypeMerge :: ValueType where "kTypeMerge = 0x2"
definition kTypeLogData :: ValueType where "kTypeLogData = 0x3"
definition kTypeColumnFamilyDeletion :: ValueType where "kTypeColumnFamilyDeletion = 0x4"
definition kTypeColumnFamilyValue :: ValueType where "kTypeColumnFamilyValue = 0x5"
definition kTypeColumnFamilyMerge :: ValueType where "kTypeColumnFamilyMerge = 0x6"
definition kTypeSingleDeletion :: ValueType where "kTypeSingleDeletion = 0x7"
definition kTypeColumnFamilySingleDeletion :: ValueType where
  "kTypeColumnFamilySingleDeletion = 0x8"
definition kTypeBeginPrepareXID :: ValueType where "kTypeBeginPrepareXID = 0x9"
definition kTypeEndPrepareXID :: ValueType where "kTypeEndPrepareXID = 0xA"
definition kTypeCommitXID :: ValueType where "kTypeCommitXID = 0xB"
definition kTypeRollbackXID :: ValueType where "kTypeRollbackXID = 0xC"
definition kTypeNoop :: ValueType where "kTypeNoop = 0xD"
definition kTypeColumnFamilyRangeDeletion :: ValueType where
  "kTypeColumnFamilyRangeDeletion = 0xE"
definition kTypeRangeDeletion :: ValueType where "kTypeRangeDeletion = 0xF"

lemmas value_type_defs =
  kTypeDeletion_def kTypeValue_def kTypeMerge_def kTypeLogData_def
  kTypeColumnFamilyDeletion_def kTypeColumnFamilyValue_def kTypeColumnFamilyMerge_def
  kTypeSingleDeletion_def kTypeColumnFamilySingleDeletion_def kTypeBeginPrepareXID_def
  kTypeEndPrepareXID_def kTypeCommitXID_def kTypeRollbackXID_def kTypeNoop_def
  kTypeColumnFamilyRangeDeletion_def kTypeRangeDeletion_def

definition kValueTypeForSeek :: ValueType where
  "kValueTypeForSeek = kTypeSingleDeletion"

definition kValueTypeForSeekForPrev :: ValueType where
  "kValueTypeForSeekForPrev = kTypeDeletion"

definition IsValueType :: "ValueType \<Rightarrow> bool" where
  "IsValueType t \<longleftrightarrow> t \<le> kTypeMerge \<or> t = kTypeSingleDeletion"

definition IsExtendedValueType :: "ValueType \<Rightarrow> bool" where
  "IsExtendedValueType t \<longleftrightarrow> IsValueType t \<or> t = kTypeRangeDeletion"

definition kMaxSequenceNumber :: SequenceNumber where
  "kMaxSequenceNumber = push_bit 56 1 - 1"

definition PackSequenceAndType :: "u64 \<Rightarrow> ValueType \<Rightarrow> u64" where
  "PackSequenceAndType seq t = push_bit 8 seq OR ucast t"

definition UnPackSequenceAndType :: "u64 \<Rightarrow> u64 \<times> ValueType" where
  "UnPackSequenceAndType packed = (drop_bit 8 packed, ucast (packed AND 0xff))"

lemma kMaxSequenceNumber_eq: "kMaxSequenceNumber = mask 56"
  by (simp add: kMaxSequenceNumber_def mask_eq_exp_minus_1)

lemma le_kMaxSequenceNumber_iff: "s \<le> kMaxSequenceNumber \<longleftrightarrow> unat s < 2 ^ 56"
  by (simp add: kMaxSequenceNumber_def word_le_nat_alt) linarith

lemma UnPack_Pack:
  assumes "s \<le> kMaxSequenceNumber"
  shows "UnPackSequenceAndType (PackSequenceAndType s t) = (s, t)"
proof -
  have bits: "bit s m \<Longrightarrow> m < 56" for m
    using assms bit_less_power [of s 56 m] by (simp add: le_kMaxSequenceNumber_iff)
  have "drop_bit 8 (push_bit 8 s OR ucast t) = s"
    by (rule bit_word_eqI) (auto simp: bit_simps dest: bits bit_imp_le_length)
  moreover have "ucast ((push_bit 8 s OR ucast t) AND 255) = t"
    unfolding and_255_eq by (rule bit_word_eqI) (auto simp: bit_simps)
  ultimately show ?thesis by (simp add: UnPackSequenceAndType_def PackSequenceAndType_def)
qed

lemma drop_bit_Pack: "s \<le> kMaxSequenceNumber \<Longrightarrow> drop_bit 8 (PackSequenceAndType s t) = s"
  and ucast_Pack: "s \<le> kMaxSequenceNumber \<Longrightarrow> ucast (PackSequenceAndType s t AND 255) = t"
  using UnPack_Pack [of s t] by (simp_all add: UnPackSequenceAndType_def)

lemma unat_Pack:
  assumes "s \<le> kMaxSequenceNumber"
  shows "unat (PackSequenceAndType s t) = 256 * unat s + unat t"
proof -
  have "unat (drop_bit 8 (PackSequenceAndType s t)) = unat s"
    using drop_bit_Pack [OF assms] by simp
  then have hi: "unat (PackSequenceAndType s t) div 256 = unat s" by (simp add: unat_drop_bit)
  have "PackSequenceAndType s t AND 255 = ucast t"
    unfolding and_255_eq PackSequenceAndType_def
    by (rule bit_word_eqI) (auto simp: bit_simps dest: bit_imp_le_length)
  then have "unat (take_bit 8 (PackSequenceAndType s t)) = unat t"
    by (simp add: and_255_eq unat_ucast_up)
  then have "unat (PackSequenceAndType s t) mod 256 = unat t"
    by (simp only: unat_take_bit) simp
  with hi show ?thesis by (metis div_mult_mod_eq mult.commute)
qed

text \<open>The packed number orders by sequence number first and by type second.\<close>

lemma Pack_less_iff:
  assumes "s \<le> kMaxSequenceNumber" "s' \<le> kMaxSequenceNumber"
  shows "PackSequenceAndType s t < PackSequenceAndType s' t' \<longleftrightarrow> s < s' \<or> s = s' \<and> t < t'"
proof -
  have "unat t < 256" "unat t' < 256" using unsigned_less [of t] unsigned_less [of t'] by simp_all
  then show ?thesis
    using assms by (auto simp: word_less_nat_alt unat_Pack word_unat_eq_iff)
qed

section \<open>Internal keys\<close>

record ParsedInternalKey =
  user_key :: slice
  seqno :: SequenceNumber
  key_type :: ValueType

definition InternalKeyEncodingLength :: "ParsedInternalKey \<Rightarrow> nat" where
  "InternalKeyEncodingLength key = length (user_key key) + 8"

definition AppendInternalKey :: "slice \<Rightarrow> ParsedInternalKey \<Rightarrow> slice" where
  "AppendInternalKey result key =
     PutFixed64 (result @ user_key key) (PackSequenceAndType (seqno key) (key_type key))"

definition AppendInternalKeyFooter :: "slice \<Rightarrow> SequenceNumber \<Rightarrow> ValueType \<Rightarrow> slice" where
  "AppendInternalKeyFooter result s t = PutFixed64 result (PackSequenceAndType s t)"

definition ExtractUserKey :: "slice \<Rightarrow> slice" where
  "ExtractUserKey internal_key = take (length internal_key - 8) internal_key"

text \<open>The eight bytes at the end of an internal key, as every reader decodes them.\<close>

definition key_footer :: "slice \<Rightarrow> u64" where
  "key_footer internal_key = DecodeFixed64 (drop (length internal_key - 8) internal_key)"

definition ExtractValueType :: "slice \<Rightarrow> ValueType" where
  "ExtractValueType internal_key = ucast (key_footer internal_key AND 0xff)"

definition GetInternalKeySeqno :: "slice \<Rightarrow> u64" where
  "GetInternalKeySeqno internal_key = drop_bit 8 (key_footer internal_key)"

definition ParseInternalKey :: "slice \<Rightarrow> ParsedInternalKey option" where
  "ParseInternalKey internal_key =
     (let n = length internal_key in
      if n < 8 then None
      else
        let num = key_footer internal_key;
            c = ucast (num AND 0xff);
            result = \<lparr>user_key = take (n - 8) internal_key, seqno = drop_bit 8 num, key_type = c\<rparr>
        in if IsExtendedValueType (key_type result) then Some result else None)"

definition UpdateInternalKey :: "slice \<Rightarrow> u64 \<Rightarrow> ValueType \<Rightarrow> slice" where
  "UpdateInternalKey ikey seq t =
     (let ikey_sz = length ikey; newval = push_bit 8 seq OR ucast t
      in take (ikey_sz - 8) ikey @ EncodeFixed64 newval)"

text \<open>\<open>InternalKey\<close> wraps such a string; \<open>[]\<close> is the invalid key.\<close>

definition InternalKey :: "slice \<Rightarrow> SequenceNumber \<Rightarrow> ValueType \<Rightarrow> slice" where
  "InternalKey ukey s t = AppendInternalKey [] \<lparr>user_key = ukey, seqno = s, key_type = t\<rparr>"

definition SetMaxPossibleForUserKey :: "slice \<Rightarrow> slice \<Rightarrow> slice" where
  "SetMaxPossibleForUserKey rep ukey =
     AppendInternalKey rep
       \<lparr>user_key = ukey, seqno = kMaxSequenceNumber, key_type = kValueTypeForSeek\<rparr>"

definition SetMinPossibleForUserKey :: "slice \<Rightarrow> slice \<Rightarrow> slice" where
  "SetMinPossibleForUserKey rep ukey =
     AppendInternalKey rep \<lparr>user_key = ukey, seqno = 0, key_type = 0\<rparr>"

definition InternalKey_Valid :: "slice \<Rightarrow> bool" where
  "InternalKey_Valid rep \<longleftrightarrow> ParseInternalKey rep \<noteq> None"

record LookupKey =
  lk_start :: "byte list"   \<comment> \<open>the bytes from \<open>start_\<close> to \<open>kstart_\<close>\<close>
  lk_kstart :: "byte list"  \<comment> \<open>the bytes from \<open>kstart_\<close> to \<open>end_\<close>\<close>

definition LookupKey_make :: "slice \<Rightarrow> SequenceNumber \<Rightarrow> LookupKey" where
  "LookupKey_make ukey s =
     (let usize = length ukey
      in \<lparr>lk_start = EncodeVarint32 (of_nat (usize + 8)),
          lk_kstart = ukey @ EncodeFixed64 (PackSequenceAndType s kValueTypeForSeek)\<rparr>)"

definition memtable_key :: "LookupKey \<Rightarrow> slice" where
  "memtable_key k = lk_start k @ lk_kstart k"

definition internal_key :: "LookupKey \<Rightarrow> slice" where
  "internal_key k = lk_kstart k"

definition lookup_user_key :: "LookupKey \<Rightarrow> slice" where
  "lookup_user_key k = take (length (lk_kstart k) - 8) (lk_kstart k)"

lemma AppendInternalKey_eq:
  "AppendInternalKey r k =
     r @ user_key k @ EncodeFixed64 (PackSequenceAndType (seqno k) (key_type k))"
  by (simp add: AppendInternalKey_def PutFixed64_def)

lemma footer_parts [simp]:
  "ExtractUserKey (u @ EncodeFixed64 w) = u"
  "key_footer (u @ EncodeFixed64 w) = w"
  using DecodeFixed64_Encode [of w "[]"] by (simp_all add: ExtractUserKey_def key_footer_def)

lemma ParseInternalKey_footer:
  "ParseInternalKey (u @ EncodeFixed64 w) =
     (let c = ucast (w AND 0xff) in
      if IsExtendedValueType c
      then Some \<lparr>user_key = u, seqno = drop_bit 8 w, key_type = c\<rparr> else None)"
  by (simp add: ParseInternalKey_def Let_def)

lemma ParseInternalKey_Append [codec_simps]:
  assumes "seqno k \<le> kMaxSequenceNumber" "IsExtendedValueType (key_type k)"
  shows "ParseInternalKey (AppendInternalKey [] k) = Some k"
  using assms
  by (simp add: AppendInternalKey_eq ParseInternalKey_footer Let_def ucast_Pack drop_bit_Pack)

section \<open>The internal key comparator\<close>

definition InternalKey_Compare :: "(slice \<Rightarrow> slice \<Rightarrow> int) \<Rightarrow> slice \<Rightarrow> slice \<Rightarrow> int" where
  "InternalKey_Compare user_compare akey bkey =
     (let r = user_compare (ExtractUserKey akey) (ExtractUserKey bkey)
      in if r = 0 then
           (let anum = key_footer akey; bnum = key_footer bkey
            in if anum > bnum then -1 else if anum < bnum then 1 else r)
         else r)"

definition InternalKey_Compare_parsed ::
  "(slice \<Rightarrow> slice \<Rightarrow> int) \<Rightarrow> ParsedInternalKey \<Rightarrow> ParsedInternalKey \<Rightarrow> int" where
  "InternalKey_Compare_parsed user_compare a b =
     (let r = user_compare (user_key a) (user_key b)
      in if r = 0 then
           (if seqno a > seqno b then -1 else if seqno a < seqno b then 1
            else if key_type a > key_type b then -1 else if key_type a < key_type b then 1 else r)
         else r)"


definition InternalKey_FindShortSuccessor ::
  "(slice \<Rightarrow> slice \<Rightarrow> int) \<Rightarrow> (slice \<Rightarrow> slice) \<Rightarrow> slice \<Rightarrow> slice" where
  "InternalKey_FindShortSuccessor user_compare user_successor key =
     (let ukey = ExtractUserKey key;
          tmp = user_successor ukey
      in if length tmp \<le> length ukey \<and> user_compare ukey tmp < 0
         then PutFixed64 tmp (PackSequenceAndType kMaxSequenceNumber kValueTypeForSeek)
         else key)"

context comparator
begin

lemma internal_comparator: "comparator (InternalKey_Compare Compare)"
proof
  fix a b c
  show "InternalKey_Compare Compare a a = 0" by (simp add: InternalKey_Compare_def)
  show "InternalKey_Compare Compare a b < 0 \<longleftrightarrow> 0 < InternalKey_Compare Compare b a"
    using compare_flip compare_eq_sym [of "ExtractUserKey a" "ExtractUserKey b"]
    by (auto simp: InternalKey_Compare_def Let_def)
  assume "InternalKey_Compare Compare a b \<le> 0" "InternalKey_Compare Compare b c \<le> 0"
  then show "InternalKey_Compare Compare a c \<le> 0"
    using compare_le_trans [of "ExtractUserKey a" "ExtractUserKey b" "ExtractUserKey c"]
      compare_less_le_trans [of "ExtractUserKey a" "ExtractUserKey b" "ExtractUserKey c"]
      compare_le_less_trans [of "ExtractUserKey a" "ExtractUserKey b" "ExtractUserKey c"]
    by (auto simp: InternalKey_Compare_def Let_def split: if_splits)
qed

lemma InternalKey_Compare_encoded:
  assumes "seqno a \<le> kMaxSequenceNumber" "seqno b \<le> kMaxSequenceNumber"
  shows "InternalKey_Compare Compare (AppendInternalKey [] a) (AppendInternalKey [] b)
    = InternalKey_Compare_parsed Compare a b"
  using assms
  by (auto simp: InternalKey_Compare_def InternalKey_Compare_parsed_def AppendInternalKey_eq
      Pack_less_iff Let_def)

end


context comparator_successor
begin

lemma internal_successor:
  "InternalKey_Compare Compare key
     (InternalKey_FindShortSuccessor Compare FindShortSuccessor key) \<le> 0"
  using comparator.compare_refl [OF internal_comparator]
  by (simp add: InternalKey_FindShortSuccessor_def InternalKey_Compare_def PutFixed64_def Let_def)

end

interpretation ikey: comparator "InternalKey_Compare Bytewise_Compare"
  by (rule bytewise.internal_comparator)

interpretation ikey_successor: comparator_successor "InternalKey_Compare Bytewise_Compare"
  "InternalKey_FindShortSuccessor Bytewise_Compare Bytewise_FindShortSuccessor"
  by unfold_locales (rule bytewise.internal_successor)

section \<open>Properties\<close>

text \<open>C5: an internal key parses back to the user key, sequence number and type it was made
  from, for every 56-bit sequence number and every type that is stored.\<close>

theorem internal_key_roundtrip:
  assumes "seqno k \<le> kMaxSequenceNumber" "IsExtendedValueType (key_type k)"
  shows "ParseInternalKey (AppendInternalKey [] k) = Some k \<and>
    length (AppendInternalKey [] k) = InternalKeyEncodingLength k \<and>
    ExtractUserKey (AppendInternalKey [] k) = user_key k \<and>
    GetInternalKeySeqno (AppendInternalKey [] k) = seqno k \<and>
    ExtractValueType (AppendInternalKey [] k) = key_type k \<and>
    UnPackSequenceAndType (PackSequenceAndType (seqno k) (key_type k)) = (seqno k, key_type k)"
  using assms ParseInternalKey_Append [OF assms]
  by (simp add: AppendInternalKey_eq InternalKeyEncodingLength_def GetInternalKeySeqno_def
      ExtractValueType_def UnPack_Pack ucast_Pack drop_bit_Pack)

theorem internal_key_roundtrip_witness:
  "(5 :: u64) \<le> kMaxSequenceNumber \<and> IsExtendedValueType kTypeMerge \<and>
   ParseInternalKey (AppendInternalKey [] \<lparr>user_key = [7], seqno = 5, key_type = kTypeMerge\<rparr>)
     = Some \<lparr>user_key = [7], seqno = 5, key_type = kTypeMerge\<rparr>"
proof -
  have h: "(5 :: u64) \<le> kMaxSequenceNumber" "IsExtendedValueType kTypeMerge" by code_simp+
  then show ?thesis
    using internal_key_roundtrip [of "\<lparr>user_key = [7], seqno = 5, key_type = kTypeMerge\<rparr>"] by simp
qed

text \<open>C6: over any user comparator that is a total order, \<open>InternalKeyComparator\<close> is a total
  order too, and comparing the encoded keys is comparing the parsed ones: by user key, then by
  decreasing sequence number, then by decreasing type.\<close>

theorem internal_comparator_total_order:
  assumes "comparator ucmp" "seqno a \<le> kMaxSequenceNumber" "seqno b \<le> kMaxSequenceNumber"
  shows "comparator (InternalKey_Compare ucmp) \<and>
    InternalKey_Compare ucmp (AppendInternalKey [] a) (AppendInternalKey [] b)
      = InternalKey_Compare_parsed ucmp a b"
  using comparator.internal_comparator [OF assms(1)]
    comparator.InternalKey_Compare_encoded [OF assms] by simp

theorem internal_comparator_total_order_witness:
  "comparator Bytewise_Compare \<and>
   InternalKey_Compare Bytewise_Compare
     (AppendInternalKey [] \<lparr>user_key = [7], seqno = 9, key_type = 1\<rparr>)
     (AppendInternalKey [] \<lparr>user_key = [7], seqno = 5, key_type = 1\<rparr>) = -1"
proof -
  let ?a = "\<lparr>user_key = [7], seqno = 9, key_type = 1\<rparr>"
  let ?b = "\<lparr>user_key = [7], seqno = 5, key_type = 1\<rparr>"
  have "seqno ?a \<le> kMaxSequenceNumber" "seqno ?b \<le> kMaxSequenceNumber"
    "InternalKey_Compare_parsed Bytewise_Compare ?a ?b = -1" by code_simp+
  then show ?thesis
    using internal_comparator_total_order [OF bytewise.comparator_axioms, of ?a ?b]
      bytewise.comparator_axioms by simp
qed



text \<open>C8: the key that \<open>LookupKey\<close> builds for a snapshot separates the versions of its user key:
  a stored version (of a type that data blocks hold) is at or after the lookup key exactly when
  its sequence number is visible in the snapshot.\<close>

theorem lookup_key_position:
  assumes "s \<le> kMaxSequenceNumber" "s' \<le> kMaxSequenceNumber" "IsValueType t"
  shows "(InternalKey_Compare Bytewise_Compare (internal_key (LookupKey_make u s)) (InternalKey u s' t) \<le> 0
      \<longleftrightarrow> s' \<le> s) \<and> lookup_user_key (LookupKey_make u s) = u"
proof -
  have "t \<le> kValueTypeForSeek"
    using assms(3)
    by (auto simp: IsValueType_def kValueTypeForSeek_def value_type_defs intro: order.trans)
  then show ?thesis
    using assms(1,2)
    by (auto simp: InternalKey_Compare_def internal_key_def LookupKey_make_def InternalKey_def
        lookup_user_key_def AppendInternalKey_eq Pack_less_iff Let_def not_less)
qed

theorem lookup_key_position_witness:
  "(5 :: u64) \<le> kMaxSequenceNumber \<and> IsValueType kTypeValue \<and>
   InternalKey_Compare Bytewise_Compare (internal_key (LookupKey_make [7] 5)) (InternalKey [7] 4 kTypeValue) \<le> 0"
proof -
  have h: "(5 :: u64) \<le> kMaxSequenceNumber" "(4 :: u64) \<le> kMaxSequenceNumber" "IsValueType kTypeValue"
    by code_simp+
  then show ?thesis using lookup_key_position [OF h, of "[7]"] by simp
qed

end
