(* ===== verification/IterKey.thy ===== *)
theory IterKey
  imports DbFormat
begin

text \<open>
  \<^verbatim>\<open>class IterKey\<close> of \<^verbatim>\<open>db/dbformat.h\<close>: the key an iterator is at, either copied into a
  buffer the object owns or pinned in memory that belongs to a block. \<open>buf\<close> is the
  contents of \<open>buf_\<close>, its length is \<open>buf_size_\<close>; \<open>key_\<close> is where the key is.
\<close>

datatype key_ptr = KeyInBuf | KeyExternal slice

record IterKey =
  buf :: "byte list"
  key_at :: key_ptr
  key_size :: nat
  is_user_key :: bool

text \<open>Memory fresh from \<open>new char[n]\<close>, and the inline array \<open>space_\<close>.\<close>

definition fresh :: "nat \<Rightarrow> byte list" where
  "fresh n = replicate n 0"

definition space_size :: nat where
  "space_size = 32"

definition IterKey_init :: IterKey where
  "IterKey_init =
     \<lparr>buf = fresh space_size, key_at = KeyInBuf, key_size = 0, is_user_key = True\<rparr>"

definition key_data :: "IterKey \<Rightarrow> slice" where
  "key_data k =
     take (key_size k) (case key_at k of KeyInBuf \<Rightarrow> buf k | KeyExternal s \<Rightarrow> s)"

definition IsUserKey :: "IterKey \<Rightarrow> bool" where
  "IsUserKey k = is_user_key k"

definition IsKeyPinned :: "IterKey \<Rightarrow> bool" where
  "IsKeyPinned k \<longleftrightarrow> key_at k \<noteq> KeyInBuf"

definition GetInternalKey :: "IterKey \<Rightarrow> slice" where
  "GetInternalKey k = key_data k"

definition GetUserKey :: "IterKey \<Rightarrow> slice" where
  "GetUserKey k =
     (if IsUserKey k then key_data k else take (key_size k - 8) (key_data k))"

definition IterKey_Clear :: "IterKey \<Rightarrow> IterKey" where
  "IterKey_Clear k = k\<lparr>key_size := 0\<rparr>"

definition ResetBuffer :: "IterKey \<Rightarrow> IterKey" where
  "ResetBuffer k = k\<lparr>buf := fresh space_size, key_size := 0\<rparr>"

definition EnlargeBufferIfNeeded :: "IterKey \<Rightarrow> nat \<Rightarrow> IterKey" where
  "EnlargeBufferIfNeeded k n =
     (if n > length (buf k) then (ResetBuffer k)\<lparr>buf := fresh n\<rparr> else k)"

definition TrimAppend :: "IterKey \<Rightarrow> nat \<Rightarrow> slice \<Rightarrow> IterKey" where
  "TrimAppend k shared_len non_shared =
     (let total_size = shared_len + length non_shared;
          k1 = (case key_at k of
                  KeyExternal s \<Rightarrow>
                    (let k' = EnlargeBufferIfNeeded k total_size
                     in k'\<lparr>buf := write_at (buf k') 0 (take shared_len s)\<rparr>)
                | KeyInBuf \<Rightarrow>
                    (if total_size > length (buf k)
                     then k\<lparr>buf := write_at (fresh total_size) 0 (take shared_len (buf k))\<rparr>
                     else k))
      in k1\<lparr>buf := write_at (buf k1) shared_len non_shared, key_at := KeyInBuf,
            key_size := total_size\<rparr>)"

definition SetKeyImpl :: "IterKey \<Rightarrow> slice \<Rightarrow> bool \<Rightarrow> IterKey" where
  "SetKeyImpl k key copy =
     (let k1 = (if copy then
                  (let k' = EnlargeBufferIfNeeded k (length key)
                   in k'\<lparr>buf := write_at (buf k') 0 key, key_at := KeyInBuf\<rparr>)
                else k\<lparr>key_at := KeyExternal key\<rparr>)
      in k1\<lparr>key_size := length key\<rparr>)"

definition SetUserKey :: "IterKey \<Rightarrow> slice \<Rightarrow> bool \<Rightarrow> IterKey" where
  "SetUserKey k key copy = SetKeyImpl (k\<lparr>is_user_key := True\<rparr>) key copy"

definition SetInternalKey :: "IterKey \<Rightarrow> slice \<Rightarrow> bool \<Rightarrow> IterKey" where
  "SetInternalKey k key copy = SetKeyImpl (k\<lparr>is_user_key := False\<rparr>) key copy"

definition Reserve :: "IterKey \<Rightarrow> nat \<Rightarrow> IterKey" where
  "Reserve k n = (EnlargeBufferIfNeeded k n)\<lparr>key_size := n\<rparr>"

definition OwnKey :: "IterKey \<Rightarrow> IterKey" where
  "OwnKey k =
     (let key = key_data k; k1 = Reserve k (key_size k)
      in k1\<lparr>buf := write_at (buf k1) 0 key, key_at := KeyInBuf\<rparr>)"

definition IterKey_UpdateInternalKey :: "IterKey \<Rightarrow> u64 \<Rightarrow> ValueType \<Rightarrow> IterKey" where
  "IterKey_UpdateInternalKey k seq t =
     (let newval = push_bit 8 seq OR ucast t
      in k\<lparr>buf := write_at (buf k) (key_size k - 8) (EncodeFixed64 newval)\<rparr>)"

definition SetInternalKey_parts ::
  "IterKey \<Rightarrow> slice \<Rightarrow> slice \<Rightarrow> SequenceNumber \<Rightarrow> ValueType \<Rightarrow> IterKey" where
  "SetInternalKey_parts k key_prefix ukey s value_type =
     (let psize = length key_prefix;
          usize = length ukey;
          k1 = EnlargeBufferIfNeeded k (psize + usize + 8);
          b1 = (if psize > 0 then write_at (buf k1) 0 key_prefix else buf k1);
          b2 = write_at b1 psize ukey;
          b3 = write_at b2 (usize + psize) (EncodeFixed64 (PackSequenceAndType s value_type))
      in k1\<lparr>buf := b3, key_at := KeyInBuf, key_size := psize + usize + 8, is_user_key := False\<rparr>)"

definition EncodeLengthPrefixedKey :: "IterKey \<Rightarrow> slice \<Rightarrow> IterKey" where
  "EncodeLengthPrefixedKey k key =
     (let sz = length key;
          k1 = EnlargeBufferIfNeeded k (sz + VarintLength (of_nat sz));
          prefix_bytes = EncodeVarint32 (of_nat sz);
          b1 = write_at (buf k1) 0 prefix_bytes;
          b2 = write_at b1 (length prefix_bytes) key
      in k1\<lparr>buf := b2, key_at := KeyInBuf, is_user_key := True\<rparr>)"

section \<open>The invariant and the effect of every operation\<close>

text \<open>The key lies inside the memory it points to, and the buffer is never smaller than
  the inline array.\<close>

definition IterKey_inv :: "IterKey \<Rightarrow> bool" where
  "IterKey_inv k \<longleftrightarrow> space_size \<le> length (buf k) \<and>
     key_size k \<le> (case key_at k of KeyInBuf \<Rightarrow> length (buf k) | KeyExternal s \<Rightarrow> length s)"

lemma length_fresh [simp]: "length (fresh n) = n"
  by (simp add: fresh_def)

lemma Enlarge_simps [simp]:
  "key_at (EnlargeBufferIfNeeded k n) = key_at k"
  "is_user_key (EnlargeBufferIfNeeded k n) = is_user_key k"
  "length (buf (EnlargeBufferIfNeeded k n)) = max n (length (buf k))"
  by (simp_all add: EnlargeBufferIfNeeded_def ResetBuffer_def)

lemma IterKey_init_inv [inv_intros]: "IterKey_inv IterKey_init"
  by (simp add: IterKey_inv_def IterKey_init_def)

lemma SetKeyImpl_effect:
  assumes "IterKey_inv k"
  shows "IterKey_inv (SetKeyImpl k key copy)" "key_data (SetKeyImpl k key copy) = key"
    "is_user_key (SetKeyImpl k key copy) = is_user_key k"
    "IsKeyPinned (SetKeyImpl k key copy) = (\<not> copy)"
  using assms
  by (auto simp: IterKey_inv_def SetKeyImpl_def key_data_def length_write_at IsKeyPinned_def Let_def)

lemma TrimAppend_effect:
  assumes "IterKey_inv k" "shared_len \<le> key_size k"
  shows "IterKey_inv (TrimAppend k shared_len ns)"
    "key_data (TrimAppend k shared_len ns) = take shared_len (key_data k) @ ns"
    "is_user_key (TrimAppend k shared_len ns) = is_user_key k"
    "\<not> IsKeyPinned (TrimAppend k shared_len ns)"
proof -
  show "IterKey_inv (TrimAppend k shared_len ns)"
    using assms
    by (auto simp: IterKey_inv_def TrimAppend_def length_write_at Let_def split: key_ptr.splits)
  show "key_data (TrimAppend k shared_len ns) = take shared_len (key_data k) @ ns"
    using assms
    by (auto simp: IterKey_inv_def TrimAppend_def key_data_def length_write_at Let_def min_def
        split: key_ptr.splits)
  show "is_user_key (TrimAppend k shared_len ns) = is_user_key k"
    by (auto simp: TrimAppend_def Let_def split: key_ptr.splits)
  show "\<not> IsKeyPinned (TrimAppend k shared_len ns)"
    by (auto simp: TrimAppend_def IsKeyPinned_def Let_def split: key_ptr.splits)
qed

lemma OwnKey_effect:
  assumes "IterKey_inv k" "IsKeyPinned k"
  shows "IterKey_inv (OwnKey k)" "key_data (OwnKey k) = key_data k" "\<not> IsKeyPinned (OwnKey k)"
  using assms
  by (auto simp: IterKey_inv_def OwnKey_def Reserve_def key_data_def IsKeyPinned_def
      length_write_at Let_def split: key_ptr.splits)

lemma SetInternalKey_parts_effect:
  assumes "IterKey_inv k"
  shows "IterKey_inv (SetInternalKey_parts k p u s t)"
    "key_data (SetInternalKey_parts k p u s t)
      = p @ u @ EncodeFixed64 (PackSequenceAndType s t)"
    "\<not> is_user_key (SetInternalKey_parts k p u s t)"
  using assms
  by (auto simp: IterKey_inv_def SetInternalKey_parts_def key_data_def length_write_at Let_def
      add.commute)

lemma IterKey_UpdateInternalKey_effect:
  assumes "IterKey_inv k" "\<not> IsKeyPinned k" "8 \<le> key_size k"
  shows "IterKey_inv (IterKey_UpdateInternalKey k s t)"
    "key_data (IterKey_UpdateInternalKey k s t) = UpdateInternalKey (key_data k) s t"
  using assms
  by (auto simp: IterKey_inv_def IterKey_UpdateInternalKey_def UpdateInternalKey_def key_data_def
      IsKeyPinned_def write_at_def Let_def min_def split: key_ptr.splits)

text \<open>\<open>EncodeLengthPrefixedKey\<close> writes the length and the key at \<open>buf_\<close> but does not
  set \<open>key_size_\<close>: the bytes are there, the size is the one of the key before (or 0 when the
  buffer was reallocated).\<close>

lemma EncodeLengthPrefixedKey_effect:
  assumes "IterKey_inv k" "length key < 2 ^ 32"
  defines "k' \<equiv> EncodeLengthPrefixedKey k key" and "bytes \<equiv> PutLengthPrefixedSlice [] key"
  shows "take (length bytes) (buf k') = bytes" "length bytes \<le> length (buf k')"
    "key_size k' = key_size k \<or> key_size k' = 0"
proof -
  have "unat (of_nat (length key) :: u32) = length key"
    using assms(2) by (simp add: unat_of_nat)
  moreover have "unat (of_nat (length key) :: u64) = length key"
    using assms(2) by (simp add: unat_of_nat)
  ultimately have "(ucast (of_nat (length key) :: u32) :: u64) = of_nat (length key)"
    by (simp add: word_unat_eq_iff unat_ucast_up)
  then have len: "length (EncodeVarint32 (of_nat (length key)))
      = VarintLength (of_nat (length key))"
    by (simp add: length_EncodeVarint32)
  show "take (length bytes) (buf k') = bytes" "length bytes \<le> length (buf k')"
    by (simp_all add: k'_def bytes_def EncodeLengthPrefixedKey_def PutLengthPrefixedSlice_def
        PutVarint32_def len length_write_at Let_def add.commute)
  show "key_size k' = key_size k \<or> key_size k' = 0"
    by (simp add: k'_def EncodeLengthPrefixedKey_def EnlargeBufferIfNeeded_def ResetBuffer_def Let_def)
qed

end
