(* ===== verification/Hash.thy ===== *)
theory Hash
  imports Coding
begin

text \<open>
  The 32-bit hash of \<^verbatim>\<open>util/hash.cc\<close> and the two seeds of \<^verbatim>\<open>util/hash.h\<close>.
  The remaining one to three bytes are added as \<^verbatim>\<open>signed char\<close>, which is a sign extension.
\<close>

definition hash_m :: u32 where
  "hash_m = 0xc6a4a793"

fun Hash_words :: "byte list \<Rightarrow> u32 \<Rightarrow> byte list \<times> u32" where
  "Hash_words (b0 # b1 # b2 # b3 # rest) h =
     (let h1 = (h + DecodeFixed32 [b0, b1, b2, b3]) * hash_m
      in Hash_words rest (h1 XOR drop_bit 16 h1))"
| "Hash_words rest h = (rest, h)"

definition Hash_finish :: "u32 \<Rightarrow> u32" where
  "Hash_finish h = (let h1 = h * hash_m in h1 XOR drop_bit 24 h1)"

fun Hash_tail :: "byte list \<Rightarrow> u32 \<Rightarrow> u32" where
  "Hash_tail [d0, d1, d2] h =
     Hash_finish (h + push_bit 16 (scast d2) + push_bit 8 (scast d1) + scast d0)"
| "Hash_tail [d0, d1] h = Hash_finish (h + push_bit 8 (scast d1) + scast d0)"
| "Hash_tail [d0] h = Hash_finish (h + scast d0)"
| "Hash_tail _ h = h"

definition Hash :: "slice \<Rightarrow> u32 \<Rightarrow> u32" where
  "Hash data seed =
     (let h = ucast (ucast seed XOR (of_nat (length data) * ucast hash_m) :: u64);
          (rest, h1) = Hash_words data h
      in Hash_tail rest h1)"

definition BloomHash :: "slice \<Rightarrow> u32" where
  "BloomHash key = Hash key 0xbc9f1d34"

definition GetSliceHash :: "slice \<Rightarrow> u32" where
  "GetSliceHash s = Hash s 397"

lemma Hash_words_rest: "length (fst (Hash_words d h)) = length d mod 4"
  by (induction d h rule: Hash_words.induct) (simp_all add: Let_def)

text \<open>A trailing byte of 0x80 or more is subtracted rather than added.\<close>

lemma Hash_signed_tail:
  "Hash [0x62] 0xbc9f1d34 = 0xef1345c4"
  "Hash [0xc3, 0x97] 0xbc9f1d34 = 0x0f2ba540"
  "Hash [0xe2, 0x99, 0xa5] 0xbc9f1d34 = 0x530174ee"
  "Hash [0xe1, 0x80, 0xb9, 0x32] 0xbc9f1d34 = 0xed21633a"
  by code_simp+

end
