(* ===== verification/Bloom.thy ===== *)
theory Bloom
  imports Hash Slice
begin

text \<open>
  Bloom filters: \<^verbatim>\<open>util/bloom.cc\<close> (the full-filter builder and reader and the block-based
  policy) and \<^verbatim>\<open>util/dynamic_bloom.{h,cc}\<close> (the filter of the memtable). The three share one
  argument, the locale \<open>probed_filter\<close>: adding sets the bits that matching tests and clears none.
\<close>

section \<open>Bits of a byte array\<close>

definition CACHE_LINE_SIZE :: u32 where
  "CACHE_LINE_SIZE = 64"

definition set_bit_at :: "byte list \<Rightarrow> nat \<Rightarrow> byte list" where
  "set_bit_at data bitpos =
     data[bitpos div 8 := data ! (bitpos div 8) OR push_bit (bitpos mod 8) 1]"

definition test_bit_at :: "byte list \<Rightarrow> nat \<Rightarrow> bool" where
  "test_bit_at data bitpos \<longleftrightarrow> data ! (bitpos div 8) AND push_bit (bitpos mod 8) 1 \<noteq> 0"

text \<open>\<open>(h >> 17) | (h << 15)\<close>, the increment of the double hashing.\<close>

definition rotate_delta :: "u32 \<Rightarrow> u32" where
  "rotate_delta h = drop_bit 17 h OR push_bit 15 h"

section \<open>The full filter\<close>

record FullFilterBitsBuilder =
  bits_per_key :: nat
  num_probes :: nat
  hash_entries :: "u32 list"

definition Full_AddKey :: "slice \<Rightarrow> FullFilterBitsBuilder \<Rightarrow> FullFilterBitsBuilder" where
  "Full_AddKey key b =
     (let hash = BloomHash key
      in if hash_entries b = [] \<or> hash \<noteq> last (hash_entries b)
         then b\<lparr>hash_entries := hash_entries b @ [hash]\<rparr> else b)"

definition GetTotalBitsForLocality :: "u32 \<Rightarrow> u32" where
  "GetTotalBitsForLocality total_bits =
     (let num_lines = (total_bits + CACHE_LINE_SIZE * 8 - 1) div (CACHE_LINE_SIZE * 8);
          num_lines = (if num_lines mod 2 = 0 then num_lines + 1 else num_lines)
      in num_lines * (CACHE_LINE_SIZE * 8))"

definition ReserveSpace :: "nat \<Rightarrow> u32 \<Rightarrow> byte list \<times> u32 \<times> u32" where
  "ReserveSpace bpk num_entry =
     (let (total_bits, num_lines) =
        (if num_entry \<noteq> 0
         then let total_bits = GetTotalBitsForLocality (num_entry * of_nat bpk)
              in (total_bits, total_bits div (CACHE_LINE_SIZE * 8))
         else (0, 0));
          sz = total_bits div 8 + 5
      in (replicate (unat sz) 0, total_bits, num_lines))"

fun Full_AddHash_loop :: "nat \<Rightarrow> u32 \<Rightarrow> u32 \<Rightarrow> u32 \<Rightarrow> byte list \<Rightarrow> byte list" where
  "Full_AddHash_loop 0 b delta h data = data"
| "Full_AddHash_loop (Suc i) b delta h data =
     (let bitpos = b + h mod (CACHE_LINE_SIZE * 8)
      in Full_AddHash_loop i b delta (h + delta) (set_bit_at data (unat bitpos)))"

definition Full_AddHash :: "nat \<Rightarrow> u32 \<Rightarrow> u32 \<Rightarrow> byte list \<Rightarrow> byte list" where
  "Full_AddHash probes num_lines h data =
     Full_AddHash_loop probes ((h mod num_lines) * (CACHE_LINE_SIZE * 8)) (rotate_delta h) h data"

definition Full_Finish :: "FullFilterBitsBuilder \<Rightarrow> slice \<times> FullFilterBitsBuilder" where
  "Full_Finish b =
     (let (data, total_bits, num_lines) =
            ReserveSpace (bits_per_key b) (of_nat (length (hash_entries b)));
          data = (if total_bits \<noteq> 0 \<and> num_lines \<noteq> 0
                  then fold (Full_AddHash (num_probes b) num_lines) (hash_entries b) data
                  else data);
          data = data[unat (total_bits div 8) := of_nat (num_probes b)];
          data = write_at data (unat (total_bits div 8 + 1)) (EncodeFixed32 num_lines)
      in (take (unat (total_bits div 8 + 5)) data, b\<lparr>hash_entries := []\<rparr>))"

record FullFilterBitsReader =
  filter_data :: slice
  data_len :: u32
  rd_num_probes :: u64
  rd_num_lines :: u32

text \<open>The number of probes is read from a \<^verbatim>\<open>char\<close> into a \<^verbatim>\<open>size_t\<close>: a sign extension.\<close>

definition GetFilterMeta :: "slice \<Rightarrow> u64 \<times> u32" where
  "GetFilterMeta contents =
     (let len = of_nat (length contents) :: u32
      in if len \<le> 5 then (0, 0)
         else (scast (contents ! unat (len - 5)), DecodeFixed32 (drop (unat (len - 4)) contents)))"

definition FullFilterBitsReader_make :: "slice \<Rightarrow> FullFilterBitsReader" where
  "FullFilterBitsReader_make contents =
     (let len = of_nat (length contents) :: u32;
          (probes, lines) = GetFilterMeta contents
      in if lines \<noteq> 0 \<and> (len - 5) mod lines \<noteq> 0
         then \<lparr>filter_data = contents, data_len = len, rd_num_probes = 0, rd_num_lines = 0\<rparr>
         else \<lparr>filter_data = contents, data_len = len, rd_num_probes = probes,
               rd_num_lines = lines\<rparr>)"

fun HashMayMatch_loop :: "nat \<Rightarrow> u32 \<Rightarrow> u32 \<Rightarrow> u32 \<Rightarrow> u32 \<Rightarrow> byte list \<Rightarrow> bool" where
  "HashMayMatch_loop 0 line_bits b delta h data = True"
| "HashMayMatch_loop (Suc i) line_bits b delta h data =
     (let bitpos = b + h mod line_bits
      in if \<not> test_bit_at data (unat bitpos) then False
         else HashMayMatch_loop i line_bits b delta (h + delta) data)"

text \<open>
  The loop counter is 32 bits wide and the bound a \<^verbatim>\<open>size_t\<close>. With a bound of \<open>2 ^ 32\<close> or more the
  loop ends only at a zero bit; as the hash values repeat after \<open>2 ^ 32\<close> steps, it never ends (\<open>None\<close>)
  if the first \<open>2 ^ 32\<close> probes find none.
\<close>

definition HashMayMatch :: "u32 \<Rightarrow> slice \<Rightarrow> u64 \<Rightarrow> u32 \<Rightarrow> bool option" where
  "HashMayMatch hash contents probes num_lines =
     (let len = of_nat (length contents) :: u32
      in if len \<le> 5 then Some False
         else let cache_line_size = (len - 5) div num_lines;
                  b = (hash mod num_lines) * (cache_line_size * 8);
                  loop = (\<lambda>n. HashMayMatch_loop n (cache_line_size * 8) b (rotate_delta hash) hash
                                contents)
              in if probes < 2 ^ 32 then Some (loop (unat probes))
                 else if loop (2 ^ 32) then None else Some False)"

definition Full_MayMatch :: "FullFilterBitsReader \<Rightarrow> slice \<Rightarrow> bool option" where
  "Full_MayMatch r entry =
     (if data_len r \<le> 5 then Some False
      else if rd_num_probes r = 0 \<or> rd_num_lines r = 0 then Some True
      else HashMayMatch (BloomHash entry) (take (unat (data_len r)) (filter_data r))
             (rd_num_probes r) (rd_num_lines r))"

section \<open>The block-based policy\<close>

text \<open>\<open>h % bits\<close> with a \<^verbatim>\<open>size_t\<close> modulus; evaluated on machine words where the modulus fits.\<close>

definition hash_mod :: "u32 \<Rightarrow> nat \<Rightarrow> nat" where
  "hash_mod h bits = unat h mod bits"

lemma hash_mod_code [code]:
  "hash_mod h bits =
     (if unat (of_nat bits :: u32) = bits then unat (h mod of_nat bits) else unat h mod bits)"
  by (simp add: hash_mod_def unat_mod_distrib)

fun Policy_set_loop :: "nat \<Rightarrow> nat \<Rightarrow> u32 \<Rightarrow> u32 \<Rightarrow> byte list \<Rightarrow> byte list" where
  "Policy_set_loop 0 bits delta h arr = arr"
| "Policy_set_loop (Suc j) bits delta h arr =
     Policy_set_loop j bits delta (h + delta) (set_bit_at arr (hash_mod h bits))"

fun Policy_test_loop :: "nat \<Rightarrow> nat \<Rightarrow> u32 \<Rightarrow> u32 \<Rightarrow> byte list \<Rightarrow> bool" where
  "Policy_test_loop 0 bits delta h arr = True"
| "Policy_test_loop (Suc j) bits delta h arr =
     (if \<not> test_bit_at arr (hash_mod h bits) then False
      else Policy_test_loop j bits delta (h + delta) arr)"

record BloomFilterPolicy =
  pol_bits_per_key :: nat
  pol_num_probes :: nat

text \<open>\<open>product\<close> is the truncated floating-point product \<open>bits_per_key * 0.69\<close>.\<close>

definition Policy_initialize :: "nat \<Rightarrow> nat \<Rightarrow> BloomFilterPolicy" where
  "Policy_initialize bpk product =
     (let n = product; n = (if n < 1 then 1 else n); n = (if n > 30 then 30 else n)
      in \<lparr>pol_bits_per_key = bpk, pol_num_probes = n\<rparr>)"

definition Policy_add :: "nat \<Rightarrow> nat \<Rightarrow> slice \<Rightarrow> byte list \<Rightarrow> byte list" where
  "Policy_add probes bits key arr =
     (let h = BloomHash key in Policy_set_loop probes bits (rotate_delta h) h arr)"

definition CreateFilter :: "BloomFilterPolicy \<Rightarrow> slice list \<Rightarrow> byte list \<Rightarrow> byte list" where
  "CreateFilter p keys dst =
     (let bits = length keys * pol_bits_per_key p;
          bits = (if bits < 64 then 64 else bits);
          bytes = (bits + 7) div 8;
          bits = bytes * 8;
          arr = replicate bytes 0 @ [of_nat (pol_num_probes p)]
      in dst @ fold (Policy_add (pol_num_probes p) bits) keys arr)"

definition Policy_KeyMayMatch :: "slice \<Rightarrow> slice \<Rightarrow> bool" where
  "Policy_KeyMayMatch key bloom_filter =
     (let len = length bloom_filter
      in if len < 2 then False
         else let bits = (len - 1) * 8; k = scast (bloom_filter ! (len - 1)) :: u64
              in if k > 30 then True
                 else let h = BloomHash key
                      in Policy_test_loop (unat k) bits (rotate_delta h) h bloom_filter)"

definition GetFilterBitsBuilder :: "BloomFilterPolicy \<Rightarrow> bool \<Rightarrow> FullFilterBitsBuilder option" where
  "GetFilterBitsBuilder p use_block_based_builder =
     (if use_block_based_builder then None
      else Some \<lparr>bits_per_key = pol_bits_per_key p, num_probes = pol_num_probes p,
                 hash_entries = []\<rparr>)"

section \<open>The memtable's filter\<close>

record DynamicBloom =
  kTotalBits :: u32
  kNumBlocks :: u32
  kNumProbes :: u32
  hash_func :: "slice \<Rightarrow> u32"
  bloom_data :: "byte list"

text \<open>The array starts at the first cache line boundary of the allocation.\<close>

definition SetTotalBits :: "u32 \<Rightarrow> u32 \<Rightarrow> DynamicBloom \<Rightarrow> DynamicBloom" where
  "SetTotalBits total_bits locality d =
     (let bits = (if locality > 0 then GetTotalBitsForLocality total_bits
                  else (total_bits + 7) div 8 * 8);
          blocks = (if locality > 0 then bits div (CACHE_LINE_SIZE * 8) else 0)
      in d\<lparr>kTotalBits := bits, kNumBlocks := blocks,
            bloom_data := replicate (unat (bits div 8)) 0\<rparr>)"

definition DynamicBloom_make :: "u32 \<Rightarrow> (slice \<Rightarrow> u32) option \<Rightarrow> DynamicBloom" where
  "DynamicBloom_make probes hf =
     \<lparr>kTotalBits = 0, kNumBlocks = 0, kNumProbes = probes,
      hash_func = (case hf of None \<Rightarrow> BloomHash | Some f \<Rightarrow> f), bloom_data = []\<rparr>"

definition block_start :: "u32 \<Rightarrow> u32 \<Rightarrow> u32" where
  "block_start blocks h =
     ((drop_bit 11 h OR push_bit 21 h) mod blocks) * (CACHE_LINE_SIZE * 8)"

text \<open>Rotate \<open>h\<close> so that the same bytes are not reused.\<close>

definition rotate_h :: "u32 \<Rightarrow> u32" where
  "rotate_h h = h div (CACHE_LINE_SIZE * 8)
                + (h mod (CACHE_LINE_SIZE * 8)) * (0x20000000 div CACHE_LINE_SIZE)"

fun Dyn_add_blocked :: "nat \<Rightarrow> u32 \<Rightarrow> u32 \<Rightarrow> u32 \<Rightarrow> byte list \<Rightarrow> byte list" where
  "Dyn_add_blocked 0 b delta h data = data"
| "Dyn_add_blocked (Suc i) b delta h data =
     Dyn_add_blocked i b delta (rotate_h h + delta)
       (set_bit_at data (unat (b + h mod (CACHE_LINE_SIZE * 8))))"

fun Dyn_add_plain :: "nat \<Rightarrow> u32 \<Rightarrow> u32 \<Rightarrow> u32 \<Rightarrow> byte list \<Rightarrow> byte list" where
  "Dyn_add_plain 0 bits delta h data = data"
| "Dyn_add_plain (Suc i) bits delta h data =
     Dyn_add_plain i bits delta (h + delta) (set_bit_at data (unat (h mod bits)))"

definition Dyn_AddHash :: "u32 \<Rightarrow> DynamicBloom \<Rightarrow> DynamicBloom" where
  "Dyn_AddHash h d =
     d\<lparr>bloom_data :=
        (if kNumBlocks d \<noteq> 0
         then Dyn_add_blocked (unat (kNumProbes d)) (block_start (kNumBlocks d) h) (rotate_delta h) h
                (bloom_data d)
         else Dyn_add_plain (unat (kNumProbes d)) (kTotalBits d) (rotate_delta h) h
                (bloom_data d))\<rparr>"

fun Dyn_test_blocked :: "nat \<Rightarrow> u32 \<Rightarrow> u32 \<Rightarrow> u32 \<Rightarrow> byte list \<Rightarrow> bool" where
  "Dyn_test_blocked 0 b delta h data = True"
| "Dyn_test_blocked (Suc i) b delta h data =
     (if \<not> test_bit_at data (unat (b + h mod (CACHE_LINE_SIZE * 8))) then False
      else Dyn_test_blocked i b delta (rotate_h h + delta) data)"

fun Dyn_test_plain :: "nat \<Rightarrow> u32 \<Rightarrow> u32 \<Rightarrow> u32 \<Rightarrow> byte list \<Rightarrow> bool" where
  "Dyn_test_plain 0 bits delta h data = True"
| "Dyn_test_plain (Suc i) bits delta h data =
     (if \<not> test_bit_at data (unat (h mod bits)) then False
      else Dyn_test_plain i bits delta (h + delta) data)"

definition MayContainHash :: "DynamicBloom \<Rightarrow> u32 \<Rightarrow> bool" where
  "MayContainHash d h =
     (if kNumBlocks d \<noteq> 0
      then Dyn_test_blocked (unat (kNumProbes d)) (block_start (kNumBlocks d) h) (rotate_delta h) h
             (bloom_data d)
      else Dyn_test_plain (unat (kNumProbes d)) (kTotalBits d) (rotate_delta h) h (bloom_data d))"

definition Dyn_Add :: "slice \<Rightarrow> DynamicBloom \<Rightarrow> DynamicBloom" where
  "Dyn_Add key d = Dyn_AddHash (hash_func d key) d"

definition MayContain :: "DynamicBloom \<Rightarrow> slice \<Rightarrow> bool" where
  "MayContain d key = MayContainHash d (hash_func d key)"

section \<open>Setting and testing bits\<close>

lemma length_set_bit_at [simp]: "length (set_bit_at data p) = length data"
  by (simp add: set_bit_at_def)

lemma test_bit_at_iff: "test_bit_at data p \<longleftrightarrow> bit (data ! (p div 8)) (p mod 8)"
  by (simp add: test_bit_at_def push_bit_of_1 and_exp_eq_0_iff_not_bit)

lemma test_set_bit_at:
  assumes "p div 8 < length data"
  shows "test_bit_at (set_bit_at data p) q \<longleftrightarrow> q = p \<or> test_bit_at data q"
proof (cases "q div 8 = p div 8")
  case True
  have "q = p \<longleftrightarrow> q mod 8 = p mod 8"
    using True by (metis div_mult_mod_eq)
  moreover have "p mod 8 < 8"
    by simp
  ultimately show ?thesis
    using True assms
    by (auto simp: test_bit_at_iff set_bit_at_def bit_or_iff bit_push_bit_iff bit_1_iff bit_exp_iff
        simp del: push_bit_of_1)
next
  case False
  then show ?thesis
    by (auto simp: test_bit_at_def set_bit_at_def)
qed

text \<open>Every loop above is a fold over the list of the bit positions it visits.\<close>

fun probe_positions :: "nat \<Rightarrow> (u32 \<Rightarrow> nat) \<Rightarrow> (u32 \<Rightarrow> u32) \<Rightarrow> u32 \<Rightarrow> nat list" where
  "probe_positions 0 pos nxt h = []"
| "probe_positions (Suc n) pos nxt h = pos h # probe_positions n pos nxt (nxt h)"

definition set_bits_at :: "nat list \<Rightarrow> byte list \<Rightarrow> byte list" where
  "set_bits_at ps data = fold (\<lambda>p d. set_bit_at d p) ps data"

lemma set_bits_at_simps [simp]:
  "set_bits_at [] data = data"
  "set_bits_at (p # ps) data = set_bits_at ps (set_bit_at data p)"
  by (simp_all add: set_bits_at_def)

lemma length_set_bits_at [simp]: "length (set_bits_at ps data) = length data"
  by (induction ps arbitrary: data) simp_all

lemma test_set_bits_at:
  "\<forall>p \<in> set ps. p div 8 < length data \<Longrightarrow>
   test_bit_at (set_bits_at ps data) q \<longleftrightarrow> q \<in> set ps \<or> test_bit_at data q"
  by (induction ps arbitrary: data) (auto simp: test_set_bit_at)

lemma nth_set_bits_at:
  "\<forall>p \<in> set ps. p div 8 \<noteq> i \<Longrightarrow> set_bits_at ps data ! i = data ! i"
  by (induction ps arbitrary: data) (auto simp: set_bit_at_def)

lemma probe_positions_bound:
  "(\<And>h. pos h < m) \<Longrightarrow> p \<in> set (probe_positions n pos nxt h) \<Longrightarrow> p < m"
  by (induction n arbitrary: h) auto

named_theorems probe_simps

lemma Full_AddHash_loop_eq [probe_simps]:
  "Full_AddHash_loop n b delta h data =
   set_bits_at (probe_positions n (\<lambda>h. unat (b + h mod (CACHE_LINE_SIZE * 8))) (\<lambda>h. h + delta) h) data"
  by (induction n arbitrary: h data) (simp_all add: Let_def)

lemma HashMayMatch_loop_eq [probe_simps]:
  "HashMayMatch_loop n lb b delta h data \<longleftrightarrow>
   list_all (test_bit_at data) (probe_positions n (\<lambda>h. unat (b + h mod lb)) (\<lambda>h. h + delta) h)"
  by (induction n arbitrary: h) (simp_all add: Let_def)

lemma Policy_set_loop_eq [probe_simps]:
  "Policy_set_loop n bits delta h data =
   set_bits_at (probe_positions n (\<lambda>h. hash_mod h bits) (\<lambda>h. h + delta) h) data"
  by (induction n arbitrary: h data) simp_all

lemma Policy_test_loop_eq [probe_simps]:
  "Policy_test_loop n bits delta h data \<longleftrightarrow>
   list_all (test_bit_at data) (probe_positions n (\<lambda>h. hash_mod h bits) (\<lambda>h. h + delta) h)"
  by (induction n arbitrary: h) simp_all

lemma Dyn_add_blocked_eq [probe_simps]:
  "Dyn_add_blocked n b delta h data =
   set_bits_at (probe_positions n (\<lambda>h. unat (b + h mod (CACHE_LINE_SIZE * 8)))
                  (\<lambda>h. rotate_h h + delta) h) data"
  by (induction n arbitrary: h data) simp_all

lemma Dyn_test_blocked_eq [probe_simps]:
  "Dyn_test_blocked n b delta h data \<longleftrightarrow>
   list_all (test_bit_at data) (probe_positions n (\<lambda>h. unat (b + h mod (CACHE_LINE_SIZE * 8)))
                  (\<lambda>h. rotate_h h + delta) h)"
  by (induction n arbitrary: h) simp_all

lemma Dyn_add_plain_eq [probe_simps]:
  "Dyn_add_plain n bits delta h data =
   set_bits_at (probe_positions n (\<lambda>h. unat (h mod bits)) (\<lambda>h. h + delta) h) data"
  by (induction n arbitrary: h data) simp_all

lemma Dyn_test_plain_eq [probe_simps]:
  "Dyn_test_plain n bits delta h data \<longleftrightarrow>
   list_all (test_bit_at data) (probe_positions n (\<lambda>h. unat (h mod bits)) (\<lambda>h. h + delta) h)"
  by (induction n arbitrary: h) simp_all

section \<open>The contract of a probed filter\<close>

text \<open>
  \<open>probes h\<close> are the bit positions of an entry \<open>h\<close> and \<open>room\<close> the number of bytes of the bit
  array; what follows the array (the metadata of the filter) is left alone.
\<close>

locale probed_filter =
  fixes probes :: "'h \<Rightarrow> nat list"
    and room :: nat
  assumes probes_in_room: "p \<in> set (probes h) \<Longrightarrow> p div 8 < room"
begin

lemma length_fold_add [simp]:
  "length (fold (\<lambda>h. set_bits_at (probes h)) hs data) = length data"
  by (induction hs arbitrary: data) simp_all

lemma fold_add_test:
  "room \<le> length data \<Longrightarrow>
   test_bit_at (fold (\<lambda>h. set_bits_at (probes h)) hs data) q \<longleftrightarrow>
   (\<exists>h \<in> set hs. q \<in> set (probes h)) \<or> test_bit_at data q"
proof (induction hs arbitrary: data)
  case (Cons h hs)
  have "test_bit_at (set_bits_at (probes h) data) q \<longleftrightarrow> q \<in> set (probes h) \<or> test_bit_at data q"
    by (rule test_set_bits_at) (use probes_in_room Cons.prems in \<open>auto intro: less_le_trans\<close>)
  then show ?case
    using Cons by auto
qed simp

lemma added_matches:
  "room \<le> length data \<Longrightarrow> h \<in> set hs \<Longrightarrow>
   list_all (test_bit_at (fold (\<lambda>h. set_bits_at (probes h)) hs data)) (probes h)"
  by (auto simp: list_all_iff fold_add_test)

lemma fold_add_tail:
  "room \<le> i \<Longrightarrow> fold (\<lambda>h. set_bits_at (probes h)) hs data ! i = data ! i"
proof (induction hs arbitrary: data)
  case (Cons h hs)
  have "set_bits_at (probes h) data ! i = data ! i"
    by (rule nth_set_bits_at) (use probes_in_room Cons.prems in fastforce)
  then show ?case
    using Cons by simp
qed simp

end

section \<open>The three filters keep the contract\<close>

definition full_probes :: "nat \<Rightarrow> u32 \<Rightarrow> u32 \<Rightarrow> nat list" where
  "full_probes n num_lines h =
     probe_positions n (\<lambda>x. unat ((h mod num_lines) * (CACHE_LINE_SIZE * 8) + x mod (CACHE_LINE_SIZE * 8)))
       (\<lambda>x. x + rotate_delta h) h"

lemma GetTotalBits_lines:
  obtains m where "0 < m" "m * 512 < 2 ^ 32" "unat (GetTotalBitsForLocality t) = m * 512"
    "GetTotalBitsForLocality t div (CACHE_LINE_SIZE * 8) = of_nat m"
proof -
  let ?n = "(t + CACHE_LINE_SIZE * 8 - 1) div (CACHE_LINE_SIZE * 8)"
  let ?l = "if ?n mod 2 = 0 then ?n + 1 else ?n"
  have n: "unat ?n < 2 ^ 23"
  proof -
    have "unat (t + CACHE_LINE_SIZE * 8 - 1) < 2 ^ 32"
      using unsigned_less [of "t + CACHE_LINE_SIZE * 8 - 1"] by simp
    then show ?thesis
      by (simp add: CACHE_LINE_SIZE_def unat_div_distrib less_mult_imp_div_less)
  qed
  have par: "k + 1 < 2 ^ 23" if "k < 2 ^ 23" "k mod 2 = 0" for k :: nat
    using that by (simp, presburger)
  have "unat ?n mod 2 = 0 \<Longrightarrow> unat ?n + 1 < 2 ^ 23"
    by (rule par [OF n])
  moreover have "?n mod 2 = 0 \<longleftrightarrow> unat ?n mod 2 = 0"
    by (simp add: word_unat_eq_iff unat_mod_distrib)
  ultimately have l: "unat ?l < 2 ^ 23" "0 < unat ?l"
    using n by (auto simp: unat_word_ariths)
  define m where "m = unat ?l"
  have m: "m * 512 < 2 ^ 32" "0 < m"
    using l by (simp_all add: m_def)
  have tot: "GetTotalBitsForLocality t = of_nat m * 512"
    by (simp add: GetTotalBitsForLocality_def Let_def CACHE_LINE_SIZE_def m_def)
  have u: "unat (GetTotalBitsForLocality t) = m * 512"
    unfolding tot using m(1) by (simp add: unat_word_ariths unat_of_nat)
  have lines: "GetTotalBitsForLocality t div (CACHE_LINE_SIZE * 8) = of_nat m"
    using u m by (simp add: word_unat_eq_iff unat_div_distrib CACHE_LINE_SIZE_def unat_of_nat)
  show thesis by (rule that [OF m(2,1) u lines])
qed

lemma line_position_bound:
  assumes "0 < m" "m * 512 < 2 ^ 32"
  shows "unat ((h mod of_nat m) * (CACHE_LINE_SIZE * 8) + x mod (CACHE_LINE_SIZE * 8)) < m * 512"
proof -
  have h: "unat (h mod of_nat m) = unat h mod m"
    using assms by (simp add: unat_mod_distrib unat_of_nat)
  have le: "unat h mod m * 512 + unat x mod 512 < m * 512"
  proof -
    have "unat h mod m < m" using assms by simp
    then have "Suc (unat h mod m) * 512 \<le> m * 512" by (intro mult_le_mono1) simp
    then show ?thesis using mod_less_divisor [of 512 "unat x"] by simp
  qed
  have "unat ((h mod of_nat m) * (CACHE_LINE_SIZE * 8) + x mod (CACHE_LINE_SIZE * 8))
        \<le> unat h mod m * 512 + unat x mod 512"
    using le assms(2) unfolding CACHE_LINE_SIZE_def
    by (simp only: unat_word_ariths(1,2) h) (simp add: unat_mod_distrib)
  with le show ?thesis by linarith
qed

interpretation full: probed_filter
  "full_probes n (GetTotalBitsForLocality t div (CACHE_LINE_SIZE * 8))"
  "unat (GetTotalBitsForLocality t div 8)" for n t
proof
  fix p h
  assume p: "p \<in> set (full_probes n (GetTotalBitsForLocality t div (CACHE_LINE_SIZE * 8)) h)"
  obtain m where m: "0 < m" "m * 512 < 2 ^ 32" "unat (GetTotalBitsForLocality t) = m * 512"
    "GetTotalBitsForLocality t div (CACHE_LINE_SIZE * 8) = of_nat m"
    by (rule GetTotalBits_lines)
  have "p < m * 512"
    using p unfolding full_probes_def m(4)
    by (rule probe_positions_bound [rotated]) (rule line_position_bound [OF m(1,2)])
  then show "p div 8 < unat (GetTotalBitsForLocality t div 8)"
    using m(3) by (simp add: unat_div_distrib less_mult_imp_div_less)
qed

lemma Full_AddHash_eq:
  "Full_AddHash n L = (\<lambda>h. set_bits_at (full_probes n L h))"
  by (simp add: fun_eq_iff Full_AddHash_def full_probes_def probe_simps)

section \<open>The full filter has no false negatives\<close>

lemma Full_AddKey_entries:
  "set (hash_entries (Full_AddKey k b)) = insert (BloomHash k) (set (hash_entries b))"
  "length (hash_entries (Full_AddKey k b)) \<le> Suc (length (hash_entries b))"
  "num_probes (Full_AddKey k b) = num_probes b"
  "bits_per_key (Full_AddKey k b) = bits_per_key b"
  by (auto simp: Full_AddKey_def Let_def)

lemma Full_AddKeys_entries:
  "set (hash_entries (fold Full_AddKey keys b)) = BloomHash ` set keys \<union> set (hash_entries b)"
  "length (hash_entries (fold Full_AddKey keys b)) \<le> length keys + length (hash_entries b)"
  "num_probes (fold Full_AddKey keys b) = num_probes b"
  "bits_per_key (fold Full_AddKey keys b) = bits_per_key b"
proof (induction keys arbitrary: b)
  case (Cons k keys)
  { case 1 show ?case using Cons(1) by (auto simp: Full_AddKey_entries) }
  { case 2 show ?case
      using Cons(2) [of "Full_AddKey k b"] Full_AddKey_entries(2) [of k b] by simp }
  { case 3 show ?case using Cons(3) by (simp add: Full_AddKey_entries) }
  { case 4 show ?case using Cons(4) by (simp add: Full_AddKey_entries) }
qed simp_all

text \<open>The layout of the block: bit array, probe count, line count.\<close>

lemma Full_Finish_layout:
  assumes "hash_entries b \<noteq> []" "length (hash_entries b) < 2 ^ 32"
  obtains m D where "0 < m" "m * 512 < 2 ^ 32" "length D = m * 64"
    "fst (Full_Finish b) = D @ [of_nat (num_probes b)] @ EncodeFixed32 (of_nat m)"
    "\<forall>h \<in> set (hash_entries b).
       list_all (\<lambda>p. p div 8 < m * 64 \<and> test_bit_at D p) (full_probes (num_probes b) (of_nat m) h)"
proof -
  let ?t = "of_nat (length (hash_entries b)) * of_nat (bits_per_key b) :: u32"
  obtain m where m: "0 < m" "m * 512 < 2 ^ 32" "unat (GetTotalBitsForLocality ?t) = m * 512"
    "GetTotalBitsForLocality ?t div (CACHE_LINE_SIZE * 8) = of_nat m"
    by (rule GetTotalBits_lines)
  have ne: "(of_nat (length (hash_entries b)) :: u32) \<noteq> 0"
    using assms by (simp add: word_unat_eq_iff unat_of_nat)
  have room: "unat (GetTotalBitsForLocality ?t div 8) = m * 64"
    using m(3) by (simp add: unat_div_distrib)
  have sz: "unat (GetTotalBitsForLocality ?t div 8 + 5) = m * 64 + 5"
    "unat (GetTotalBitsForLocality ?t div 8 + 1) = m * 64 + 1"
    using m(2) by (simp_all only: unat_word_ariths(1) room) simp_all
  have nz: "GetTotalBitsForLocality ?t \<noteq> 0" "(of_nat m :: u32) \<noteq> 0"
    using m by (auto simp: word_unat_eq_iff unat_of_nat)
  let ?d0 = "replicate (m * 64 + 5) 0 :: byte list"
  define F where "F = fold (\<lambda>h. set_bits_at (full_probes (num_probes b) (of_nat m) h)) (hash_entries b) ?d0"
  have lenF: "length F = m * 64 + 5"
    unfolding F_def m(4) [symmetric] by simp
  define D where "D = take (m * 64) F"
  have "fst (Full_Finish b) = D @ [of_nat (num_probes b)] @ EncodeFixed32 (of_nat m)"
    using ne nz lenF
    by (simp add: Full_Finish_def ReserveSpace_def Let_def m(4) room sz Full_AddHash_eq
        F_def [symmetric] D_def write_at_def take_Suc_conv_app_nth upd_conv_take_nth_drop)
  moreover have "list_all (\<lambda>p. p div 8 < m * 64 \<and> test_bit_at D p) (full_probes (num_probes b) (of_nat m) h)"
    if "h \<in> set (hash_entries b)" for h
  proof -
    have "list_all (test_bit_at F) (full_probes (num_probes b) (of_nat m) h)"
      unfolding F_def m(4) [symmetric] by (rule full.added_matches) (use that room in auto)
    then show ?thesis
      using full.probes_in_room [of _ "num_probes b" ?t h]
      by (auto simp: list_all_iff m(4) room D_def test_bit_at_def)
  qed
  ultimately show thesis
    using m lenF by (intro that [of m D]) (auto simp: D_def)
qed

lemma scast_small_byte:
  "n \<le> 127 \<Longrightarrow> (scast (of_nat n :: byte) :: u64) = of_nat n"
  by (simp add: signed_of_nat signed_take_bit_int_eq_self)

lemma unat_scast_byte:
  "unat (scast (k :: byte) :: u64) = (if unat k < 128 then unat k else 2 ^ 64 - 256 + unat k)"
proof -
  obtain n where n: "unat k = n" "uint k = int n" "n < 256"
  proof
    show "unat k = unat k" ..
    show "uint k = int (unat k)" by simp
    show "unat k < 256" using unsigned_less [of k] by simp
  qed
  have b: "bit (int n) 7 \<longleftrightarrow> \<not> n < 128"
  proof -
    have "int n div 128 = (if n < 128 then 0 else 1)"
      using n(3) by (auto intro: int_div_pos_eq [where r = "int n - 128"])
    then show ?thesis by (simp add: bit_iff_odd)
  qed
  have "sint k = take_bit 8 (int n) - 2 ^ 8 * of_bool (bit (int n) 7)"
    by (simp only: sint_uint signed_take_bit_eq_take_bit_minus n(2)) simp
  also have "take_bit 8 (int n) = int n"
    using n(3) by (simp only: take_bit_int_eq_self_iff) simp
  finally have s: "sint k = int n - (if n < 128 then 0 else 256)"
    by (simp only: b) simp
  have "uint (scast k :: u64) = (int n - (if n < 128 then 0 else 256)) mod 2 ^ 64"
    by (simp only: scast_eq uint_word_of_int s) simp
  also have "\<dots> = (if n < 128 then int n else 2 ^ 64 - 256 + int n)"
  proof (cases "n < 128")
    case False
    have "(int n - 256) mod 2 ^ 64 = (int n - 256 + 2 ^ 64) mod 2 ^ 64"
      by (rule mod_add_self2 [symmetric])
    also have "\<dots> = int n - 256 + 2 ^ 64"
      using n(3) by (intro mod_pos_pos_trivial) simp_all
    finally show ?thesis using False by simp
  qed simp
  finally show ?thesis
    by (simp add: unat_eq_nat_uint n nat_add_distrib)
qed

lemma test_bit_at_append:
  "p div 8 < length D \<Longrightarrow> test_bit_at (D @ E) p = test_bit_at D p"
  by (simp add: test_bit_at_def nth_append)

text \<open>Reading a block of that layout probes the bit array as the builder did.\<close>

lemma Full_MayMatch_layout:
  assumes m: "0 < m" "m * 512 < 2 ^ 32" and D: "length D = m * 64" and n: "n \<le> 127"
    and bits: "list_all (\<lambda>p. p div 8 < m * 64 \<and> test_bit_at D p) (full_probes n (of_nat m) (BloomHash key))"
  shows "Full_MayMatch (FullFilterBitsReader_make (D @ [of_nat n] @ EncodeFixed32 (of_nat m))) key = Some True"
proof -
  define c where "c = D @ [of_nat n] @ EncodeFixed32 (of_nat m)"
  have c: "length c = m * 64 + 5" "c ! (m * 64) = of_nat n"
    "DecodeFixed32 (drop (m * 64 + 1) c) = of_nat m"
    "\<And>p. p div 8 < m * 64 \<Longrightarrow> test_bit_at c p = test_bit_at D p"
    using D DecodeFixed32_Encode [of "of_nat m" "[]"]
    by (simp_all add: c_def nth_append test_bit_at_append)
  define len where "len = (of_nat (length c) :: u32)"
  have "unat len = (m * 64 + 5) mod 2 ^ 32"
    by (simp only: len_def unat_of_nat c) simp
  then have ulen: "unat len = m * 64 + 5"
    using m by simp
  have len5: "\<not> len \<le> 5" "unat (len - 5) = m * 64" "unat (len - 4) = m * 64 + 1"
    using m ulen by (simp_all add: word_le_nat_alt unat_sub)
  have meta: "GetFilterMeta c = (of_nat n, of_nat m)"
    using len5 c(2,3) n
    by (simp add: GetFilterMeta_def Let_def len_def [symmetric] scast_small_byte)
  have cls: "(len - 5) div of_nat m = 64" "(len - 5) mod of_nat m = 0"
    using m len5 by (simp_all add: word_unat_eq_iff unat_div_distrib unat_mod_distrib unat_of_nat)
  have small: "(of_nat n :: u64) < 2 ^ 32" "unat (of_nat n :: u64) = n"
    using n by (simp_all add: word_less_nat_alt unat_of_nat)
  have "HashMayMatch (BloomHash key) c (of_nat n) (of_nat m) = Some True"
    using bits c(4) len5(1) small
    by (auto simp: HashMayMatch_def Let_def cls len_def [symmetric] HashMayMatch_loop_eq full_probes_def
        CACHE_LINE_SIZE_def list_all_iff)
  moreover have "take (unat len) c = c"
    using ulen c(1) by simp
  ultimately show ?thesis
    using len5(1) unfolding c_def [symmetric]
    by (simp add: Full_MayMatch_def FullFilterBitsReader_make_def Let_def len_def [symmetric] meta cls)
qed

lemma Full_added_matches:
  assumes "hash_entries b = []" "num_probes b \<le> 127" "length keys < 2 ^ 32" "key \<in> set keys"
  shows "Full_MayMatch (FullFilterBitsReader_make (fst (Full_Finish (fold Full_AddKey keys b)))) key
         = Some True"
proof -
  let ?b = "fold Full_AddKey keys b"
  have h: "BloomHash key \<in> set (hash_entries ?b)"
    using assms(4) by (simp add: Full_AddKeys_entries(1))
  then have ne: "hash_entries ?b \<noteq> []"
    by (metis empty_iff list.set(1))
  have len: "length (hash_entries ?b) < 2 ^ 32"
    using Full_AddKeys_entries(2) [of keys b] assms(1,3) by simp
  obtain m D where m: "0 < m" "m * 512 < 2 ^ 32" "length D = m * 64"
    and fin: "fst (Full_Finish ?b) = D @ [of_nat (num_probes ?b)] @ EncodeFixed32 (of_nat m)"
    and bits: "\<forall>h \<in> set (hash_entries ?b).
       list_all (\<lambda>p. p div 8 < m * 64 \<and> test_bit_at D p) (full_probes (num_probes ?b) (of_nat m) h)"
    by (rule Full_Finish_layout [OF ne len])
  show ?thesis
    unfolding fin Full_AddKeys_entries(3)
    by (rule Full_MayMatch_layout [OF m]) (use assms(2) bits h in \<open>auto simp: Full_AddKeys_entries(3)\<close>)
qed

text \<open>
  C10: A filter whose probe count was read from a byte with the top bit set is probed without
  end by a key all of whose probes hit.
\<close>

theorem corrupt_probe_count_diverges:
  "Full_MayMatch (FullFilterBitsReader_make (replicate 64 0xff @ [k] @ EncodeFixed32 1)) key
   = (if k < 0x80 then Some True else None)"
proof -
  define c :: slice where "c = replicate 64 0xff @ [k] @ EncodeFixed32 1"
  have c: "length c = 69" "c ! 64 = k" "DecodeFixed32 (drop 65 c) = 1"
    using DecodeFixed32_Encode [of 1 "[]"] by (simp_all add: c_def nth_append)
  have ones: "test_bit_at c p" if "p < 512" for p
  proof -
    have "c ! (p div 8) = (0xff :: byte)" using that less_mult_imp_div_less [of p 64 8] by (simp add: c_def nth_append)
    moreover have "(mask 8 :: byte) = 0xff" by (simp add: mask_eq_exp_minus_1)
    moreover have "bit (mask 8 :: byte) (p mod 8)" by (simp only: bit_mask_iff) simp
    ultimately show ?thesis by (simp only: test_bit_at_iff)
  qed
  have all: "HashMayMatch_loop n 512 0 delta h c" for n delta h
  proof (induction n arbitrary: h)
    case (Suc n)
    have "unat (h mod 512) < 512"
      by (simp add: unat_mod_distrib)
    then show ?case using Suc ones by simp
  qed simp
  have big: "(scast k :: u64) < 2 ^ 32 \<longleftrightarrow> k < 0x80"
    by (simp add: word_less_nat_alt unat_scast_byte)
  have "scast k = (0 :: u64) \<longleftrightarrow> k = 0"
    by (auto simp: word_unat_eq_iff unat_scast_byte)
  then show ?thesis
    unfolding c_def [symmetric] using big
    by (cases "k = 0") (simp_all add: Full_MayMatch_def FullFilterBitsReader_make_def GetFilterMeta_def
        HashMayMatch_def Let_def c all)
qed

section \<open>The block-based policy\<close>

definition policy_probes :: "nat \<Rightarrow> nat \<Rightarrow> slice \<Rightarrow> nat list" where
  "policy_probes n bits key =
     probe_positions n (\<lambda>h. hash_mod h bits) (\<lambda>h. h + rotate_delta (BloomHash key)) (BloomHash key)"

interpretation policy: probed_filter "policy_probes n (Suc k * 8)" "Suc k" for n k
proof
  fix p key
  assume "p \<in> set (policy_probes n (Suc k * 8) key)"
  then have "p < Suc k * 8"
    unfolding policy_probes_def by (rule probe_positions_bound [rotated]) (simp add: hash_mod_def)
  then show "p div 8 < Suc k"
    by (rule less_mult_imp_div_less)
qed

lemma Policy_add_eq: "Policy_add n bits = (\<lambda>key. set_bits_at (policy_probes n bits key))"
  by (simp add: fun_eq_iff Policy_add_def policy_probes_def probe_simps Let_def)

lemma CreateFilter_append: "CreateFilter p keys dst = dst @ CreateFilter p keys []"
  by (simp add: CreateFilter_def Let_def)

lemma Policy_KeyMayMatch_CreateFilter:
  assumes "pol_num_probes p \<le> 30" "key \<in> set keys"
  shows "Policy_KeyMayMatch key (CreateFilter p keys [])"
    and "CreateFilter p keys [] \<noteq> []"
proof -
  define bits where "bits = (let b = length keys * pol_bits_per_key p in if b < 64 then 64 else b)"
  define n where "n = pol_num_probes p"
  obtain k where k: "(bits + 7) div 8 = Suc k" "8 \<le> Suc k"
  proof -
    have "64 \<le> bits" by (simp add: bits_def Let_def)
    then have "8 \<le> (bits + 7) div 8" by simp
    then show thesis by (intro that [of "(bits + 7) div 8 - 1"]) simp_all
  qed
  define F where "F = fold (\<lambda>key. set_bits_at (policy_probes n (Suc k * 8) key)) keys
                        (replicate (Suc k) 0 @ [of_nat n])"
  have F: "CreateFilter p keys [] = F"
    using k(1) by (simp only: CreateFilter_def Let_def append_Nil Policy_add_eq F_def n_def bits_def)
  have len: "length F = Suc (Suc k)"
    by (simp only: F_def policy.length_fold_add) simp
  have "F ! Suc k = (replicate (Suc k) 0 @ [of_nat n]) ! Suc k"
    unfolding F_def by (rule policy.fold_add_tail) simp
  then have probes: "F ! Suc k = of_nat n"
    by (simp add: nth_append)
  have k64: "(scast (of_nat n :: byte) :: u64) = of_nat n" "\<not> (of_nat n :: u64) > 30" "unat (of_nat n :: u64) = n"
    using assms(1) by (simp_all add: n_def scast_small_byte word_less_nat_alt unat_of_nat)
  have "list_all (test_bit_at F) (policy_probes n (Suc k * 8) key)"
    unfolding F_def by (rule policy.added_matches) (use assms(2) in simp_all)
  then show "Policy_KeyMayMatch key (CreateFilter p keys [])"
    using len probes k64
    by (simp add: F Policy_KeyMayMatch_def Let_def Policy_test_loop_eq policy_probes_def)
  show "CreateFilter p keys [] \<noteq> []"
    using len F by auto
qed

lemma Policy_initialize_probes: "pol_num_probes (Policy_initialize bpk product) \<in> {1..30}"
  by (simp add: Policy_initialize_def Let_def)

section \<open>The memtable's filter\<close>

definition dyn_probes :: "DynamicBloom \<Rightarrow> u32 \<Rightarrow> nat list" where
  "dyn_probes d h =
     (if kNumBlocks d \<noteq> 0
      then probe_positions (unat (kNumProbes d))
             (\<lambda>x. unat (block_start (kNumBlocks d) h + x mod (CACHE_LINE_SIZE * 8)))
             (\<lambda>x. rotate_h x + rotate_delta h) h
      else probe_positions (unat (kNumProbes d)) (\<lambda>x. unat (x mod kTotalBits d))
             (\<lambda>x. x + rotate_delta h) h)"

definition Dyn_inv :: "DynamicBloom \<Rightarrow> bool" where
  "Dyn_inv d \<longleftrightarrow> 0 < kTotalBits d \<and> kTotalBits d mod 8 = 0
     \<and> unat (kTotalBits d div 8) \<le> length (bloom_data d)
     \<and> (kNumBlocks d \<noteq> 0 \<longrightarrow> unat (kTotalBits d) = unat (kNumBlocks d) * 512)"

lemma SetTotalBits_inv:
  assumes "locality > 0 \<or> 0 < total_bits \<and> total_bits \<le> - 8"
  shows "Dyn_inv (SetTotalBits total_bits locality d)"
proof (cases "locality > 0")
  case True
  obtain m where m: "0 < m" "m * 512 < 2 ^ 32" "unat (GetTotalBitsForLocality total_bits) = m * 512"
    "GetTotalBitsForLocality total_bits div (CACHE_LINE_SIZE * 8) = of_nat m"
    by (rule GetTotalBits_lines)
  then show ?thesis
    using True by (simp add: Dyn_inv_def SetTotalBits_def Let_def word_less_nat_alt word_unat_eq_iff
        unat_mod_distrib unat_of_nat)
next
  case False
  have t: "unat total_bits \<le> 2 ^ 32 - 8" "0 < unat total_bits"
    using assms False by (simp_all add: word_le_nat_alt word_less_nat_alt)
  have "unat ((total_bits + 7) div 8 * 8) = (unat total_bits + 7) div 8 * 8"
    using t by (simp add: unat_word_ariths unat_div_distrib)
  then show ?thesis
    using False t by (simp add: Dyn_inv_def SetTotalBits_def Let_def word_less_nat_alt word_unat_eq_iff
        unat_mod_distrib)
qed

lemma dyn_probed:
  assumes "Dyn_inv d"
  shows "probed_filter (dyn_probes d) (unat (kTotalBits d div 8))"
proof
  fix p h
  assume p: "p \<in> set (dyn_probes d h)"
  have "p < unat (kTotalBits d)"
  proof (cases "kNumBlocks d = 0")
    case True
    have b: "unat (x mod kTotalBits d) < unat (kTotalBits d)" for x
      using assms by (simp add: Dyn_inv_def unat_mod_distrib word_less_nat_alt)
    show ?thesis
      using p True unfolding dyn_probes_def
      by (simp only: if_False simp_thms) (rule probe_positions_bound [rotated], assumption, rule b)
  next
    case False
    have m: "0 < unat (kNumBlocks d)" "unat (kNumBlocks d) * 512 < 2 ^ 32"
      using False assms unat_lt [of "kTotalBits d"] by (auto simp: Dyn_inv_def unat_gt_0)
    have b: "unat (block_start (kNumBlocks d) h + x mod (CACHE_LINE_SIZE * 8)) < unat (kNumBlocks d) * 512" for x
      using line_position_bound [OF m, of "drop_bit 11 h OR push_bit 21 h" x]
      by (simp add: block_start_def)
    show ?thesis
      using p False assms unfolding dyn_probes_def Dyn_inv_def
      by (simp only: if_True simp_thms) (rule probe_positions_bound [rotated], assumption, rule b)
  qed
  moreover have "unat (kTotalBits d) = unat (kTotalBits d) div 8 * 8"
  proof -
    have "unat (kTotalBits d) mod 8 = 0"
      using assms unat_mod_distrib [of "kTotalBits d" 8] by (simp add: Dyn_inv_def)
    then show ?thesis
      using div_mult_mod_eq [of "unat (kTotalBits d)" 8] by simp
  qed
  ultimately show "p div 8 < unat (kTotalBits d div 8)"
    using less_mult_imp_div_less [of p "unat (kTotalBits d) div 8" 8]
    by (simp only: unat_div_distrib) simp
qed

lemma Dyn_AddHash_eq: "Dyn_AddHash h d = d\<lparr>bloom_data := set_bits_at (dyn_probes d h) (bloom_data d)\<rparr>"
  by (simp add: Dyn_AddHash_def dyn_probes_def probe_simps)

lemma MayContainHash_eq: "MayContainHash d h \<longleftrightarrow> list_all (test_bit_at (bloom_data d)) (dyn_probes d h)"
  by (simp add: MayContainHash_def dyn_probes_def probe_simps)

lemma dyn_probes_data [simp]: "dyn_probes (d\<lparr>bloom_data := x\<rparr>) = dyn_probes d"
  by (simp add: fun_eq_iff dyn_probes_def)

lemma fold_Dyn_Add:
  "fold Dyn_Add keys d =
   d\<lparr>bloom_data := fold (\<lambda>h. set_bits_at (dyn_probes d h)) (map (hash_func d) keys) (bloom_data d)\<rparr>"
  by (induction keys arbitrary: d) (simp_all add: Dyn_Add_def Dyn_AddHash_eq)

lemma Dyn_added_matches:
  assumes "Dyn_inv d" "key \<in> set keys"
  shows "MayContain (fold Dyn_Add keys d) key"
proof -
  have "list_all (test_bit_at (fold (\<lambda>h. set_bits_at (dyn_probes d h)) (map (hash_func d) keys) (bloom_data d)))
          (dyn_probes d (hash_func d key))"
    by (rule probed_filter.added_matches [OF dyn_probed [OF assms(1)]])
      (use assms in \<open>auto simp: Dyn_inv_def\<close>)
  then show ?thesis
    by (simp add: MayContain_def MayContainHash_eq fold_Dyn_Add)
qed

text \<open>
  C9: A key added to the memtable's Bloom filter is found by it, with and without cache line
  locality, when the filter was sized by \<open>SetTotalBits\<close>.
\<close>

theorem dynamic_bloom_no_false_negatives:
  assumes "locality > 0 \<or> 0 < total_bits \<and> total_bits \<le> - 8" "key \<in> set keys"
  shows "MayContain (fold Dyn_Add keys (SetTotalBits total_bits locality (DynamicBloom_make probes hf))) key"
  by (rule Dyn_added_matches [OF SetTotalBits_inv [OF assms(1)] assms(2)])

theorem dynamic_bloom_no_false_negatives_witness:
  "MayContain (fold Dyn_Add [[1], [2]] (SetTotalBits 64 0 (DynamicBloom_make 6 None))) [2]
   \<and> \<not> MayContain (fold Dyn_Add [[1]] (SetTotalBits 64 0 (DynamicBloom_make 6 None))) [2]"
proof
  show "MayContain (fold Dyn_Add [[1], [2]] (SetTotalBits 64 0 (DynamicBloom_make 6 None))) [2]"
    by (rule dynamic_bloom_no_false_negatives) simp_all
  show "\<not> MayContain (fold Dyn_Add [[1]] (SetTotalBits 64 0 (DynamicBloom_make 6 None))) [2]"
    by code_simp
qed

end
