(* ===== verification/FilterBlock.thy ===== *)
theory FilterBlock
  imports Bloom
begin

text \<open>
  Filter blocks: \<^verbatim>\<open>table/full_filter_block.cc\<close> (one filter for a table) and
  \<^verbatim>\<open>table/block_based_filter_block.cc\<close> (a filter for every 2KB of data). Both are written
  against an interface, \<^verbatim>\<open>FilterBitsBuilder\<close>/\<^verbatim>\<open>FilterBitsReader\<close> and \<^verbatim>\<open>FilterPolicy\<close>, which are the
  locales \<open>filter_bits\<close> and \<open>filter_policy\<close> here; the Bloom filters of \<open>Bloom\<close> implement them.
\<close>

record SliceTransform =
  InDomain :: "slice \<Rightarrow> bool"
  Transform :: "slice \<Rightarrow> slice"

section \<open>One filter per table\<close>

record 'b FullFilterBlockBuilder =
  ff_prefix_extractor :: "SliceTransform option"
  ff_whole_key_filtering :: bool
  num_added :: u32
  filter_bits_builder :: 'b

definition FullFilterBlockBuilder_make ::
    "SliceTransform option \<Rightarrow> bool \<Rightarrow> 'b \<Rightarrow> 'b FullFilterBlockBuilder" where
  "FullFilterBlockBuilder_make prefix_extractor whole_key_filtering fbb =
     \<lparr>ff_prefix_extractor = prefix_extractor, ff_whole_key_filtering = whole_key_filtering,
      num_added = 0, filter_bits_builder = fbb\<rparr>"

definition FF_AddKey ::
    "(slice \<Rightarrow> 'b \<Rightarrow> 'b) \<Rightarrow> slice \<Rightarrow> 'b FullFilterBlockBuilder \<Rightarrow> 'b FullFilterBlockBuilder" where
  "FF_AddKey bits_AddKey key b =
     b\<lparr>filter_bits_builder := bits_AddKey key (filter_bits_builder b), num_added := num_added b + 1\<rparr>"

definition FF_AddPrefix ::
    "(slice \<Rightarrow> 'b \<Rightarrow> 'b) \<Rightarrow> SliceTransform \<Rightarrow> slice \<Rightarrow> 'b FullFilterBlockBuilder
     \<Rightarrow> 'b FullFilterBlockBuilder" where
  "FF_AddPrefix bits_AddKey tr key b = FF_AddKey bits_AddKey (Transform tr key) b"

definition FF_Add ::
    "(slice \<Rightarrow> 'b \<Rightarrow> 'b) \<Rightarrow> slice \<Rightarrow> 'b FullFilterBlockBuilder \<Rightarrow> 'b FullFilterBlockBuilder" where
  "FF_Add bits_AddKey key b =
     (let b = (if ff_whole_key_filtering b then FF_AddKey bits_AddKey key b else b)
      in case ff_prefix_extractor b of
           Some tr \<Rightarrow> if InDomain tr key then FF_AddPrefix bits_AddKey tr key b else b
         | None \<Rightarrow> b)"

definition FF_Finish ::
    "('b \<Rightarrow> slice \<times> 'b) \<Rightarrow> 'b FullFilterBlockBuilder \<Rightarrow> slice \<times> 'b FullFilterBlockBuilder" where
  "FF_Finish bits_Finish b =
     (if num_added b \<noteq> 0
      then let (contents, fbb) = bits_Finish (filter_bits_builder b)
           in (contents, b\<lparr>num_added := 0, filter_bits_builder := fbb\<rparr>)
      else ([], b))"

record 'r FullFilterBlockReader =
  fr_prefix_extractor :: "SliceTransform option"
  fr_whole_key_filtering :: bool
  fr_contents :: slice
  filter_bits_reader :: 'r

definition FR_MayMatch :: "('r \<Rightarrow> slice \<Rightarrow> bool option) \<Rightarrow> 'r FullFilterBlockReader \<Rightarrow> slice \<Rightarrow> bool option" where
  "FR_MayMatch bits_MayMatch r entry =
     (if length (fr_contents r) \<noteq> 0 then bits_MayMatch (filter_bits_reader r) entry else Some True)"

definition FR_KeyMayMatch :: "('r \<Rightarrow> slice \<Rightarrow> bool option) \<Rightarrow> 'r FullFilterBlockReader \<Rightarrow> slice \<Rightarrow> bool option" where
  "FR_KeyMayMatch bits_MayMatch r key =
     (if \<not> fr_whole_key_filtering r then Some True else FR_MayMatch bits_MayMatch r key)"

definition FR_PrefixMayMatch :: "('r \<Rightarrow> slice \<Rightarrow> bool option) \<Rightarrow> 'r FullFilterBlockReader \<Rightarrow> slice \<Rightarrow> bool option" where
  "FR_PrefixMayMatch bits_MayMatch r prefx =
     (if fr_prefix_extractor r = None then Some True else FR_MayMatch bits_MayMatch r prefx)"

section \<open>A filter for every 2KB\<close>

definition kFilterBaseLg :: nat where
  "kFilterBaseLg = 11"

definition kFilterBase :: u64 where
  "kFilterBase = push_bit kFilterBaseLg 1"

record BlockBasedFilterBlockBuilder =
  bb_prefix_extractor :: "SliceTransform option"
  bb_whole_key_filtering :: bool
  prev_prefix_start :: nat
  prev_prefix_size :: nat
  entries :: "byte list"
  start :: "nat list"
  result :: "byte list"
  filter_offsets :: "u32 list"

definition BlockBasedFilterBlockBuilder_make ::
    "SliceTransform option \<Rightarrow> bool \<Rightarrow> BlockBasedFilterBlockBuilder" where
  "BlockBasedFilterBlockBuilder_make prefix_extractor whole_key_filtering =
     \<lparr>bb_prefix_extractor = prefix_extractor, bb_whole_key_filtering = whole_key_filtering,
      prev_prefix_start = 0, prev_prefix_size = 0, entries = [], start = [], result = [],
      filter_offsets = []\<rparr>"

definition BB_AddKey :: "slice \<Rightarrow> BlockBasedFilterBlockBuilder \<Rightarrow> BlockBasedFilterBlockBuilder" where
  "BB_AddKey key b =
     b\<lparr>start := start b @ [length (entries b)], entries := entries b @ key\<rparr>"

definition BB_AddPrefix ::
    "SliceTransform \<Rightarrow> slice \<Rightarrow> BlockBasedFilterBlockBuilder \<Rightarrow> BlockBasedFilterBlockBuilder" where
  "BB_AddPrefix tr key b =
     (let prev = (if prev_prefix_size b > 0
                  then take (prev_prefix_size b) (drop (prev_prefix_start b) (entries b)) else []);
          prefx = Transform tr key
      in if length prev = 0 \<or> prefx \<noteq> prev
         then b\<lparr>start := start b @ [length (entries b)], prev_prefix_start := length (entries b),
                prev_prefix_size := length prefx, entries := entries b @ prefx\<rparr>
         else b)"

definition BB_Add :: "slice \<Rightarrow> BlockBasedFilterBlockBuilder \<Rightarrow> BlockBasedFilterBlockBuilder" where
  "BB_Add key b =
     (let b = (case bb_prefix_extractor b of
                 Some tr \<Rightarrow> if InDomain tr key then BB_AddPrefix tr key b else b
               | None \<Rightarrow> b)
      in if bb_whole_key_filtering b then BB_AddKey key b else b)"

fun tmp_entries_loop :: "byte list \<Rightarrow> nat list \<Rightarrow> slice list" where
  "tmp_entries_loop es (s0 # s1 # ss) = take (s1 - s0) (drop s0 es) # tmp_entries_loop es (s1 # ss)"
| "tmp_entries_loop es _ = []"

definition GenerateFilter ::
    "(slice list \<Rightarrow> slice \<Rightarrow> slice) \<Rightarrow> BlockBasedFilterBlockBuilder \<Rightarrow> BlockBasedFilterBlockBuilder" where
  "GenerateFilter policy_CreateFilter b =
     (if start b = []
      then b\<lparr>filter_offsets := filter_offsets b @ [of_nat (length (result b))]\<rparr>
      else let tmp_entries = tmp_entries_loop (entries b) (start b @ [length (entries b)])
           in b\<lparr>filter_offsets := filter_offsets b @ [of_nat (length (result b))],
                result := policy_CreateFilter tmp_entries (result b),
                entries := [], start := [], prev_prefix_start := 0, prev_prefix_size := 0\<rparr>)"

lemma GenerateFilter_offsets:
  "length (filter_offsets (GenerateFilter create b)) = Suc (length (filter_offsets b))"
  by (simp add: GenerateFilter_def Let_def)

function StartBlock_loop ::
    "(slice list \<Rightarrow> slice \<Rightarrow> slice) \<Rightarrow> u64 \<Rightarrow> BlockBasedFilterBlockBuilder \<Rightarrow> BlockBasedFilterBlockBuilder" where
  "StartBlock_loop create filter_index b =
     (if unat filter_index > length (filter_offsets b)
      then StartBlock_loop create filter_index (GenerateFilter create b) else b)"
  by pat_completeness auto

termination StartBlock_loop
  by (relation "measure (\<lambda>(c, i, b). unat i - length (filter_offsets b))")
    (auto simp: GenerateFilter_offsets)

declare StartBlock_loop.simps [simp del]

definition StartBlock ::
    "(slice list \<Rightarrow> slice \<Rightarrow> slice) \<Rightarrow> u64 \<Rightarrow> BlockBasedFilterBlockBuilder \<Rightarrow> BlockBasedFilterBlockBuilder" where
  "StartBlock create block_offset b = StartBlock_loop create (block_offset div kFilterBase) b"

definition BB_Finish :: "(slice list \<Rightarrow> slice \<Rightarrow> slice) \<Rightarrow> BlockBasedFilterBlockBuilder \<Rightarrow> slice" where
  "BB_Finish create b =
     (let b = (if start b \<noteq> [] then GenerateFilter create b else b);
          array_offset = of_nat (length (result b)) :: u32;
          res = fold (\<lambda>off dst. PutFixed32 dst off) (filter_offsets b) (result b);
          res = PutFixed32 res array_offset
      in res @ [of_nat kFilterBaseLg])"

record BlockBasedFilterBlockReader =
  br_prefix_extractor :: "SliceTransform option"
  br_whole_key_filtering :: bool
  br_data :: slice
  br_offset :: nat
  br_num :: nat
  base_lg :: u64

text \<open>\<open>br_offset\<close> is the index in the block at which the offset array starts.\<close>

definition BlockBasedFilterBlockReader_make ::
    "SliceTransform option \<Rightarrow> bool \<Rightarrow> slice \<Rightarrow> BlockBasedFilterBlockReader" where
  "BlockBasedFilterBlockReader_make prefix_extractor whole_key_filtering contents =
     (let r = \<lparr>br_prefix_extractor = prefix_extractor, br_whole_key_filtering = whole_key_filtering,
               br_data = [], br_offset = 0, br_num = 0, base_lg = 0\<rparr>;
          n = length contents
      in if n < 5 then r
         else let r = r\<lparr>base_lg := scast (contents ! (n - 1))\<rparr>;
                  last_word = DecodeFixed32 (drop (n - 5) contents)
              in if unat last_word > n - 5 then r
                 else r\<lparr>br_data := contents, br_offset := unat last_word,
                        br_num := (n - 5 - unat last_word) div 4\<rparr>)"

definition BR_MayMatch ::
    "(slice \<Rightarrow> slice \<Rightarrow> bool) \<Rightarrow> BlockBasedFilterBlockReader \<Rightarrow> slice \<Rightarrow> u64 \<Rightarrow> bool" where
  "BR_MayMatch policy_KeyMayMatch r entry block_offset =
     (let index = unat (drop_bit (unat (base_lg r)) block_offset)
      in if index < br_num r
         then let start = DecodeFixed32 (drop (br_offset r + index * 4) (br_data r));
                  limit = DecodeFixed32 (drop (br_offset r + index * 4 + 4) (br_data r))
              in if start \<le> limit \<and> limit \<le> of_nat (br_offset r)
                 then policy_KeyMayMatch entry
                        (take (unat (limit - start)) (drop (unat start) (br_data r)))
                 else if start = limit then False
                 else True
         else True)"

definition BR_KeyMayMatch ::
    "(slice \<Rightarrow> slice \<Rightarrow> bool) \<Rightarrow> BlockBasedFilterBlockReader \<Rightarrow> slice \<Rightarrow> u64 \<Rightarrow> bool" where
  "BR_KeyMayMatch policy_KeyMayMatch r key block_offset =
     (if \<not> br_whole_key_filtering r then True else BR_MayMatch policy_KeyMayMatch r key block_offset)"

definition BR_PrefixMayMatch ::
    "(slice \<Rightarrow> slice \<Rightarrow> bool) \<Rightarrow> BlockBasedFilterBlockReader \<Rightarrow> slice \<Rightarrow> u64 \<Rightarrow> bool" where
  "BR_PrefixMayMatch policy_KeyMayMatch r prefx block_offset =
     (if br_prefix_extractor r = None then True
      else BR_MayMatch policy_KeyMayMatch r prefx block_offset)"

section \<open>Full filter blocks over any filter bits\<close>

text \<open>What \<open>Add\<close> hands to the filter for one key.\<close>

definition filter_entries :: "SliceTransform option \<Rightarrow> bool \<Rightarrow> slice \<Rightarrow> slice list" where
  "filter_entries prefix_extractor whole_key_filtering key =
     (if whole_key_filtering then [key] else []) @
     (case prefix_extractor of
        Some tr \<Rightarrow> if InDomain tr key then [Transform tr key] else []
      | None \<Rightarrow> [])"

locale filter_bits =
  fixes bits_AddKey :: "slice \<Rightarrow> 'b \<Rightarrow> 'b"
    and bits_Finish :: "'b \<Rightarrow> slice \<times> 'b"
    and bits_Reader :: "slice \<Rightarrow> 'r"
    and bits_MayMatch :: "'r \<Rightarrow> slice \<Rightarrow> bool option"
    and bits_empty :: "'b \<Rightarrow> bool"
  assumes bits_no_false_negative:
    "bits_empty b \<Longrightarrow> length keys < 2 ^ 32 \<Longrightarrow> key \<in> set keys \<Longrightarrow>
     bits_MayMatch (bits_Reader (fst (bits_Finish (fold bits_AddKey keys b)))) key = Some True"
begin

lemma FF_Add_entries:
  "FF_Add bits_AddKey key b =
   fold (FF_AddKey bits_AddKey)
     (filter_entries (ff_prefix_extractor b) (ff_whole_key_filtering b) key) b"
  by (auto simp: FF_Add_def FF_AddPrefix_def FF_AddKey_def filter_entries_def Let_def split: option.splits)

lemma fold_FF_AddKey:
  "fold (FF_AddKey bits_AddKey) es b =
   b\<lparr>filter_bits_builder := fold bits_AddKey es (filter_bits_builder b),
     num_added := num_added b + of_nat (length es)\<rparr>"
  by (induction es arbitrary: b) (simp_all add: FF_AddKey_def ac_simps)

lemma fold_FF_Add:
  "fold (FF_Add bits_AddKey) keys b =
   fold (FF_AddKey bits_AddKey)
     (concat (map (filter_entries (ff_prefix_extractor b) (ff_whole_key_filtering b)) keys)) b"
  by (induction keys arbitrary: b) (simp_all add: FF_Add_entries fold_FF_AddKey)

lemma full_block_no_false_negative:
  assumes "bits_empty fbb" "2 * length keys < 2 ^ 32" "key \<in> set keys"
    "e \<in> set (filter_entries pe wk key)"
  defines "contents \<equiv> fst (FF_Finish bits_Finish
             (fold (FF_Add bits_AddKey) keys (FullFilterBlockBuilder_make pe wk fbb)))"
  shows "FR_MayMatch bits_MayMatch
           \<lparr>fr_prefix_extractor = pe, fr_whole_key_filtering = wk, fr_contents = contents,
            filter_bits_reader = bits_Reader contents\<rparr> e = Some True"
proof -
  let ?es = "concat (map (filter_entries pe wk) keys)"
  have e: "e \<in> set ?es"
    using assms(3,4) by auto
  have "length (filter_entries pe wk k) \<le> 2" for k
    by (simp add: filter_entries_def split: option.splits)
  then have "length ?es \<le> 2 * length keys"
    by (induction keys) (auto intro: order.trans [OF add_mono])
  then have len: "length ?es < 2 ^ 32"
    using assms(2) by linarith
  moreover have "0 < length ?es"
    using e by (metis length_pos_if_in_set)
  ultimately have "(of_nat (length ?es) :: u32) \<noteq> 0"
    by (simp add: word_unat_eq_iff unat_of_nat del: length_concat)
  then have "contents = fst (bits_Finish (fold bits_AddKey ?es fbb))"
    by (simp add: contents_def fold_FF_Add fold_FF_AddKey FF_Finish_def FullFilterBlockBuilder_make_def
        split_beta Let_def)
  with bits_no_false_negative [OF assms(1) len e] show ?thesis
    by (simp add: FR_MayMatch_def)
qed

end

interpretation full_bits: filter_bits Full_AddKey Full_Finish FullFilterBitsReader_make Full_MayMatch
  "\<lambda>b. hash_entries b = [] \<and> num_probes b \<le> 127"
  by unfold_locales (auto intro: Full_added_matches)

section \<open>Block-based filter blocks over any policy\<close>

text \<open>\<open>offs n xs\<close>: where each of \<open>xs\<close> starts when they are laid out from \<open>n\<close>, and the end.\<close>

fun offs :: "nat \<Rightarrow> 'a list list \<Rightarrow> nat list" where
  "offs n [] = [n]"
| "offs n (x # xs) = n # offs (n + length x) xs"

lemma length_offs [simp]: "length (offs n xs) = Suc (length xs)"
  by (induction xs arbitrary: n) simp_all

lemma offs_snoc: "offs n (xs @ [y]) = offs n xs @ [n + length (concat xs) + length y]"
  by (induction xs arbitrary: n) (simp_all add: add.assoc)

lemma nth_offs: "i \<le> length xs \<Longrightarrow> offs n xs ! i = n + length (concat (take i xs))"
proof (induction xs arbitrary: n i)
  case (Cons x xs)
  then show ?case by (cases i) simp_all
qed simp

lemma tmp_entries_offs: "tmp_entries_loop (pre @ concat xs) (offs (length pre) xs) = xs"
proof (induction xs arbitrary: pre)
  case (Cons x xs)
  have "tmp_entries_loop ((pre @ x) @ concat xs) (offs (length (pre @ x)) xs) = xs"
    by (rule Cons.IH)
  then show ?case
    by (cases xs) simp_all
qed simp

text \<open>
  The flattened state of the builder represents the entries \<open>done\<close> of the finished filters and
  the entries \<open>cur\<close> of the filter in progress.
\<close>

definition filter_bytes :: "(slice list \<Rightarrow> slice \<Rightarrow> slice) \<Rightarrow> slice list \<Rightarrow> slice" where
  "filter_bytes create es = (if es = [] then [] else create es [])"

definition BB_rel ::
    "(slice list \<Rightarrow> slice \<Rightarrow> slice) \<Rightarrow> BlockBasedFilterBlockBuilder \<Rightarrow> slice list list \<Rightarrow> slice list \<Rightarrow> bool" where
  "BB_rel create b filters cur \<longleftrightarrow>
     entries b = concat cur \<and> start b @ [length (entries b)] = offs 0 cur
     \<and> result b = concat (map (filter_bytes create) filters)
     \<and> filter_offsets b @ [of_nat (length (result b))] =
         map of_nat (offs 0 (map (filter_bytes create) filters))
     \<and> (0 < prev_prefix_size b \<longrightarrow>
          prev_prefix_start b + prev_prefix_size b \<le> length (entries b)
          \<and> take (prev_prefix_size b) (drop (prev_prefix_start b) (entries b)) \<in> set cur)"

lemma BB_rel_make: "BB_rel create (BlockBasedFilterBlockBuilder_make pe wk) [] []"
  by (simp add: BB_rel_def BlockBasedFilterBlockBuilder_make_def)

lemma BB_relD:
  assumes "BB_rel create b filters cur"
  shows "entries b = concat cur" "start b @ [length (entries b)] = offs 0 cur"
    "result b = concat (map (filter_bytes create) filters)"
    "filter_offsets b @ [of_nat (length (result b))] =
       map of_nat (offs 0 (map (filter_bytes create) filters))"
  using assms unfolding BB_rel_def by blast+

lemma BB_rel_lengths:
  assumes "BB_rel create b filters cur"
  shows "length (filter_offsets b) = length filters" "start b = [] \<longleftrightarrow> cur = []"
  using arg_cong [OF BB_relD(4) [OF assms], of length] arg_cong [OF BB_relD(2) [OF assms], of length]
  by auto

lemma BB_rel_AddKey:
  "BB_rel create b filters cur \<Longrightarrow> BB_rel create (BB_AddKey key b) filters (cur @ [key])"
  by (auto simp: BB_rel_def BB_AddKey_def offs_snoc)

lemma BB_rel_AddPrefix:
  assumes "BB_rel create b filters cur"
  obtains cur' where "BB_rel create (BB_AddPrefix tr key b) filters cur'"
    "set cur' = insert (Transform tr key) (set cur)"
proof -
  let ?prev = "if prev_prefix_size b > 0
     then take (prev_prefix_size b) (drop (prev_prefix_start b) (entries b)) else []"
  show thesis
  proof (cases "length ?prev = 0 \<or> Transform tr key \<noteq> ?prev")
    case True
    have "BB_rel create (BB_AddPrefix tr key b) filters (cur @ [Transform tr key])"
      using assms True by (auto simp: BB_rel_def BB_AddPrefix_def offs_snoc Let_def)
    then show thesis by (rule that) simp
  next
    case False
    then have "0 < prev_prefix_size b" "Transform tr key \<in> set cur"
      using assms by (auto simp: BB_rel_def split: if_splits)
    moreover have "BB_AddPrefix tr key b = b"
      using False by (simp add: BB_AddPrefix_def Let_def)
    ultimately show thesis
      using assms by (intro that [of cur]) auto
  qed
qed

lemma BB_static [simp]:
  "bb_prefix_extractor (BB_AddPrefix tr key b) = bb_prefix_extractor b"
  "bb_whole_key_filtering (BB_AddPrefix tr key b) = bb_whole_key_filtering b"
  "bb_prefix_extractor (BB_Add key b) = bb_prefix_extractor b"
  "bb_whole_key_filtering (BB_Add key b) = bb_whole_key_filtering b"
  "bb_prefix_extractor (GenerateFilter create b) = bb_prefix_extractor b"
  "bb_whole_key_filtering (GenerateFilter create b) = bb_whole_key_filtering b"
  by (simp_all add: BB_AddPrefix_def BB_AddKey_def BB_Add_def GenerateFilter_def Let_def split: option.splits)

lemma fold_BB_static:
  "bb_prefix_extractor (fold BB_Add keys b) = bb_prefix_extractor b"
  "bb_whole_key_filtering (fold BB_Add keys b) = bb_whole_key_filtering b"
  by (induction keys arbitrary: b) simp_all

lemma BB_rel_Add:
  assumes "BB_rel create b filters cur"
  obtains cur' where "BB_rel create (BB_Add key b) filters cur'"
    "set cur' = set (filter_entries (bb_prefix_extractor b) (bb_whole_key_filtering b) key) \<union> set cur"
proof -
  define b1 where "b1 = (case bb_prefix_extractor b of
                 Some tr \<Rightarrow> if InDomain tr key then BB_AddPrefix tr key b else b | None \<Rightarrow> b)"
  obtain c1 where c1: "BB_rel create b1 filters c1"
    "set c1 = set (filter_entries (bb_prefix_extractor b) False key) \<union> set cur"
  proof (cases "\<exists>tr. bb_prefix_extractor b = Some tr \<and> InDomain tr key")
    case True
    then obtain tr where tr: "bb_prefix_extractor b = Some tr" "InDomain tr key" by blast
    obtain c1 where "BB_rel create (BB_AddPrefix tr key b) filters c1"
      "set c1 = insert (Transform tr key) (set cur)"
      by (rule BB_rel_AddPrefix [OF assms])
    then show thesis
      using tr by (intro that [of c1]) (simp_all add: b1_def filter_entries_def)
  next
    case False
    then show thesis
      using assms by (intro that [of cur]) (auto simp: b1_def filter_entries_def split: option.splits)
  qed
  have w: "bb_whole_key_filtering b1 = bb_whole_key_filtering b"
    by (simp add: b1_def split: option.splits)
  have "BB_Add key b = (if bb_whole_key_filtering b then BB_AddKey key b1 else b1)"
    by (simp add: BB_Add_def b1_def [symmetric] w Let_def)
  then show thesis
    using c1 BB_rel_AddKey [OF c1(1), of key]
    by (cases "bb_whole_key_filtering b"; intro that [of "if bb_whole_key_filtering b then c1 @ [key] else c1"])
      (auto simp: filter_entries_def)
qed

lemma BB_rel_Adds:
  assumes "BB_rel create b filters cur"
  obtains cur' where "BB_rel create (fold BB_Add keys b) filters cur'"
    "set cur' = (\<Union>key \<in> set keys. set (filter_entries (bb_prefix_extractor b) (bb_whole_key_filtering b) key)) \<union> set cur"
proof -
  have "\<exists>cur'. BB_rel create (fold BB_Add keys b) filters cur' \<and>
    set cur' = (\<Union>key \<in> set keys. set (filter_entries (bb_prefix_extractor b) (bb_whole_key_filtering b) key)) \<union> set cur"
    using assms
  proof (induction keys arbitrary: b cur)
    case (Cons k keys)
    obtain c1 where c1: "BB_rel create (BB_Add k b) filters c1"
      "set c1 = set (filter_entries (bb_prefix_extractor b) (bb_whole_key_filtering b) k) \<union> set cur"
      by (rule BB_rel_Add [OF Cons.prems])
    from Cons.IH [OF c1(1)] c1(2) show ?case by auto
  qed auto
  then show thesis using that by blast
qed

lemma fold_PutFixed32:
  "fold (\<lambda>off dst. dst @ EncodeFixed32 off) xs dst = dst @ concat (map EncodeFixed32 xs)"
  by (induction xs arbitrary: dst) simp_all

locale filter_policy =
  fixes create :: "slice list \<Rightarrow> slice \<Rightarrow> slice"
    and kmatch :: "slice \<Rightarrow> slice \<Rightarrow> bool"
  assumes create_append: "create keys dst = dst @ create keys []"
    and create_match: "key \<in> set keys \<Longrightarrow> kmatch key (create keys [])"
begin

lemma BB_rel_Generate:
  assumes "BB_rel create b filters cur"
  shows "BB_rel create (GenerateFilter create b) (filters @ [cur]) []"
proof (cases "cur = []")
  case True
  then show ?thesis
    using assms BB_rel_lengths [OF assms]
    by (auto simp: BB_rel_def GenerateFilter_def filter_bytes_def offs_snoc)
next
  case False
  have "tmp_entries_loop (entries b) (start b @ [length (entries b)]) = cur"
    using tmp_entries_offs [of "[]" cur]
    by (simp only: BB_relD(2) [OF assms]) (simp add: BB_relD(1) [OF assms])
  moreover have "create cur (result b) = result b @ create cur []"
    by (rule create_append)
  ultimately show ?thesis
    using BB_relD(4) [OF assms, unfolded BB_relD(3) [OF assms]] BB_rel_lengths [OF assms] False
    by (simp add: BB_rel_def BB_relD(3) [OF assms] GenerateFilter_def filter_bytes_def offs_snoc Let_def)
qed

lemma BB_rel_StartBlock:
  assumes "BB_rel create b filters cur" "length filters \<le> unat (off div kFilterBase)"
  obtains mor cur' where "BB_rel create (StartBlock create off b) (filters @ mor) cur'"
    "length (filters @ mor) = unat (off div kFilterBase)"
    "(mor = [] \<and> cur' = cur) \<or> (\<exists>t. mor = cur # t \<and> cur' = [])"
    "bb_prefix_extractor (StartBlock create off b) = bb_prefix_extractor b"
    "bb_whole_key_filtering (StartBlock create off b) = bb_whole_key_filtering b"
proof -
  let ?n = "unat (off div kFilterBase)"
  have "\<exists>mor cur'. BB_rel create (StartBlock_loop create (off div kFilterBase) b) (filters @ mor) cur'
     \<and> length (filters @ mor) = ?n
     \<and> ((mor = [] \<and> cur' = cur) \<or> (\<exists>t. mor = cur # t \<and> cur' = []))
     \<and> bb_prefix_extractor (StartBlock_loop create (off div kFilterBase) b) = bb_prefix_extractor b
     \<and> bb_whole_key_filtering (StartBlock_loop create (off div kFilterBase) b) = bb_whole_key_filtering b"
    using assms
  proof (induction "?n - length filters" arbitrary: b filters cur)
    case 0
    then show ?case
      using BB_rel_lengths(1) [OF 0(2)] by (auto simp: StartBlock_loop.simps intro: exI [of _ "[]"])
  next
    case (Suc k)
    have g: "BB_rel create (GenerateFilter create b) (filters @ [cur]) []"
      by (rule BB_rel_Generate [OF Suc(3)])
    have loop: "StartBlock_loop create (off div kFilterBase) b =
      StartBlock_loop create (off div kFilterBase) (GenerateFilter create b)"
      using Suc(2) BB_rel_lengths(1) [OF Suc(3)] StartBlock_loop.simps [of create _ b] by simp
    have "k = ?n - length (filters @ [cur])" "length (filters @ [cur]) \<le> ?n"
      using Suc(2) by simp_all
    from Suc(1) [OF this(1) g this(2)] obtain mor cur' where m:
      "BB_rel create (StartBlock_loop create (off div kFilterBase) (GenerateFilter create b))
         ((filters @ [cur]) @ mor) cur'"
      "length ((filters @ [cur]) @ mor) = ?n" "cur' = []"
      "bb_prefix_extractor (StartBlock_loop create (off div kFilterBase) (GenerateFilter create b))
         = bb_prefix_extractor b"
      "bb_whole_key_filtering (StartBlock_loop create (off div kFilterBase) (GenerateFilter create b))
         = bb_whole_key_filtering b"
      by auto
    then show ?case
      unfolding loop by (intro exI [of _ "cur # mor"] exI [of _ cur']) simp
  qed
  then show thesis
    using that unfolding StartBlock_def by blast
qed

lemma BB_Finish_rel:
  assumes "BB_rel create b filters cur"
  obtains fs where "BB_Finish create b =
      concat (map (filter_bytes create) fs) @
      concat (map (\<lambda>n. EncodeFixed32 (of_nat n)) (offs 0 (map (filter_bytes create) fs))) @ [11]"
    "fs = filters @ (if cur = [] then [] else [cur])"
proof -
  define b1 where "b1 = (if start b \<noteq> [] then GenerateFilter create b else b)"
  let ?fs = "filters @ (if cur = [] then [] else [cur])"
  have rel: "BB_rel create b1 ?fs []"
    using BB_rel_Generate [OF assms] assms BB_rel_lengths(2) [OF assms] by (auto simp: b1_def)
  have "BB_Finish create b = result b1 @
     concat (map EncodeFixed32 (filter_offsets b1 @ [of_nat (length (result b1))])) @ [11]"
    by (simp add: BB_Finish_def b1_def [symmetric] Let_def fold_PutFixed32 PutFixed32_def
        kFilterBaseLg_def)
  also have "\<dots> = concat (map (filter_bytes create) ?fs) @
      concat (map (\<lambda>n. EncodeFixed32 (of_nat n)) (offs 0 (map (filter_bytes create) ?fs))) @ [11]"
    by (simp only: BB_relD(4) [OF rel]) (simp add: BB_relD(3) [OF rel] comp_def)
  finally show thesis
    by (rule that) simp
qed

end

lemma drop_fixed32s:
  "i \<le> length xs \<Longrightarrow> drop (i * 4) (concat (map EncodeFixed32 xs)) = concat (map EncodeFixed32 (drop i xs))"
proof (induction xs arbitrary: i)
  case (Cons x xs)
  then show ?case by (cases i) simp_all
qed simp

lemma BR_MayMatch_block:
  fixes bs :: "slice list"
  assumes "length (concat bs) < 2 ^ 32" "i < length bs" "i = unat (off div kFilterBase)"
  defines "c \<equiv> concat bs @ concat (map (\<lambda>n. EncodeFixed32 (of_nat n)) (offs 0 bs)) @ [11]"
  shows "BR_MayMatch kmatch (BlockBasedFilterBlockReader_make pe wk c) e off = kmatch e (bs ! i)"
proof -
  let ?R = "length (concat bs)" and ?N = "length bs"
  define ws where "ws = (map of_nat (offs 0 bs) :: u32 list)"
  have c: "c = concat bs @ concat (map EncodeFixed32 ws) @ [11]"
    by (simp add: c_def ws_def comp_def)
  have ws: "length ws = Suc ?N" "\<And>j. j \<le> ?N \<Longrightarrow> ws ! j = of_nat (offs 0 bs ! j)"
    by (simp_all add: ws_def)
  have lenw: "length (concat (map EncodeFixed32 xs)) = 4 * length xs" for xs
    by (induction xs) simp_all
  have word: "DecodeFixed32 (drop (?R + j * 4) c) = of_nat (offs 0 bs ! j)" if "j \<le> ?N" for j
  proof -
    have "drop (?R + j * 4) c = concat (map EncodeFixed32 (drop j ws)) @ [11]"
      using that by (simp add: c drop_fixed32s lenw ws(1))
    also have "drop j ws = of_nat (offs 0 bs ! j) # drop (Suc j) ws"
      using that ws by (simp add: Cons_nth_drop_Suc [symmetric])
    finally show ?thesis by (simp add: codec_simps)
  qed
  have len: "length c = ?R + ?N * 4 + 5"
    by (simp add: c lenw ws(1))
  have lim: "offs 0 bs ! j \<le> ?R" if "j \<le> ?N" for j
  proof -
    have "length (concat (take j bs)) \<le> length (concat (take j bs @ drop j bs))"
      by (simp only: concat_append length_append le_add1)
    then show ?thesis using that by (simp add: nth_offs)
  qed
  have un: "unat (of_nat (offs 0 bs ! j) :: u32) = offs 0 bs ! j" if "j \<le> ?N" for j
    using lim [OF that] assms(1) by (simp add: unat_of_nat)
  have idx: "unat (drop_bit 11 off) = i"
    using assms(3) by (simp add: kFilterBase_def kFilterBaseLg_def drop_bit_eq_div)
  have reader: "BlockBasedFilterBlockReader_make pe wk c =
     \<lparr>br_prefix_extractor = pe, br_whole_key_filtering = wk, br_data = c, br_offset = ?R, br_num = ?N,
      base_lg = 11\<rparr>"
  proof -
    have "c ! (4 + (?R + ?N * 4)) = 11"
      by (simp add: c nth_append lenw ws(1))
    moreover have "DecodeFixed32 (drop (?R + ?N * 4) c) = of_nat ?R"
      using word [of ?N] by (simp add: nth_offs)
    moreover have "unat (of_nat ?R :: u32) = ?R"
      using un [of ?N] by (simp add: nth_offs)
    ultimately show ?thesis
      by (simp add: BlockBasedFilterBlockReader_make_def Let_def len)
  qed
  have i: "i \<le> ?N" "Suc i \<le> ?N" using assms(2) by simp_all
  have nxt: "offs 0 bs ! Suc i = offs 0 bs ! i + length (bs ! i)"
    using i by (simp add: nth_offs take_Suc_conv_app_nth)
  have filt: "take (length (bs ! i)) (drop (offs 0 bs ! i) c) = bs ! i"
  proof -
    have "bs = take i bs @ bs ! i # drop (Suc i) bs" using assms(2) by (rule id_take_nth_drop)
    then have "concat bs = concat (take i bs) @ bs ! i @ concat (drop (Suc i) bs)"
      by (metis concat.simps(2) concat_append)
    then show ?thesis using i by (simp add: c nth_offs)
  qed
  define st li where "st = (of_nat (offs 0 bs ! i) :: u32)" and "li = (of_nat (offs 0 bs ! Suc i) :: u32)"
  have w: "DecodeFixed32 (drop (?R + i * 4) c) = st" "DecodeFixed32 (drop (?R + i * 4 + 4) c) = li"
    using word [OF i(1)] word [OF i(2)] by (simp_all add: st_def li_def add.assoc add.commute [of 4])
  have u: "unat st = offs 0 bs ! i" "unat li = offs 0 bs ! i + length (bs ! i)" "unat (of_nat ?R :: u32) = ?R"
    using un [OF i(1)] un [OF i(2)] un [of ?N] by (simp_all only: st_def li_def nxt) (simp add: nth_offs)
  have cond: "st \<le> li" "li \<le> of_nat ?R"
    using u lim [OF i(2)] nxt by (simp_all add: word_le_nat_alt)
  have sub: "unat (li - st) = length (bs ! i)"
    using cond u by (simp add: unat_sub)
  show ?thesis
    using cond assms(2) filt by (simp add: BR_MayMatch_def reader idx Let_def w sub u)
qed

text \<open>
  A table is written block by block: each data block is announced with its offset, then its keys
  are added.
\<close>

definition BB_run ::
    "(slice list \<Rightarrow> slice \<Rightarrow> slice) \<Rightarrow> (u64 \<times> slice list) list \<Rightarrow> BlockBasedFilterBlockBuilder
     \<Rightarrow> BlockBasedFilterBlockBuilder" where
  "BB_run create script b =
     fold (\<lambda>(block_offset, keys) b. fold BB_Add keys (StartBlock create block_offset b)) script b"

definition BB_holds ::
    "SliceTransform option \<Rightarrow> bool \<Rightarrow> slice list list \<Rightarrow> u64 \<times> slice list \<Rightarrow> bool" where
  "BB_holds pe wk filters block \<longleftrightarrow>
     unat (fst block div kFilterBase) < length filters \<and>
     (\<forall>key \<in> set (snd block). set (filter_entries pe wk key)
         \<subseteq> set (filters ! unat (fst block div kFilterBase)))"

lemma BB_holds_mono:
  assumes "BB_holds pe wk (filters @ [cur]) block" "set cur \<subseteq> set cur'"
  shows "BB_holds pe wk (filters @ cur' # mor) block"
  using assms by (fastforce simp: BB_holds_def nth_append less_Suc_eq)

lemma sorted_snocE:
  "sorted (xs @ [x :: 'a :: linorder]) \<Longrightarrow> sorted xs \<and> (\<forall>y \<in> set xs. y \<le> x)"
  by (auto simp: sorted_append)

context filter_policy
begin

lemma BB_run_holds:
  assumes "sorted (map fst script)"
  obtains filters cur where
    "BB_rel create (BB_run create script (BlockBasedFilterBlockBuilder_make pe wk)) filters cur"
    "\<forall>block \<in> set script. BB_holds pe wk (filters @ [cur]) block"
proof -
  let ?b = "\<lambda>script. BB_run create script (BlockBasedFilterBlockBuilder_make pe wk)"
  have "\<exists>filters cur. BB_rel create (?b script) filters cur
    \<and> (\<forall>block \<in> set script. BB_holds pe wk (filters @ [cur]) block)
    \<and> length filters = (if script = [] then 0 else unat (fst (last script) div kFilterBase))
    \<and> bb_prefix_extractor (?b script) = pe \<and> bb_whole_key_filtering (?b script) = wk"
    using assms
  proof (induction script rule: rev_induct)
    case Nil
    show ?case
      by (intro exI [of _ "[]"]) (simp add: BB_run_def BB_rel_make, simp add: BlockBasedFilterBlockBuilder_make_def)
  next
    case (snoc blk script)
    obtain off keys where blk: "blk = (off, keys)" by (cases blk)
    from snoc.prems have srt: "sorted (map fst script)" "\<forall>y \<in> set (map fst script). y \<le> off"
      using sorted_snocE [of "map fst script" off] by (simp_all add: blk)
    obtain filters cur where IH: "BB_rel create (?b script) filters cur"
      "\<forall>block \<in> set script. BB_holds pe wk (filters @ [cur]) block"
      "length filters = (if script = [] then 0 else unat (fst (last script) div kFilterBase))"
      "bb_prefix_extractor (?b script) = pe" "bb_whole_key_filtering (?b script) = wk"
      using snoc.IH [OF srt(1)] by blast
    have le: "length filters \<le> unat (off div kFilterBase)"
      using IH(3) srt(2) by (auto simp: unat_div_distrib word_le_nat_alt intro!: div_le_mono)
    obtain mor c1 where sb: "BB_rel create (StartBlock create off (?b script)) (filters @ mor) c1"
      "length (filters @ mor) = unat (off div kFilterBase)"
      "(mor = [] \<and> c1 = cur) \<or> (\<exists>t. mor = cur # t \<and> c1 = [])"
      "bb_prefix_extractor (StartBlock create off (?b script)) = bb_prefix_extractor (?b script)"
      "bb_whole_key_filtering (StartBlock create off (?b script)) = bb_whole_key_filtering (?b script)"
      by (rule BB_rel_StartBlock [OF IH(1) le])
    obtain c2 where c2: "BB_rel create (fold BB_Add keys (StartBlock create off (?b script))) (filters @ mor) c2"
      "set c2 = (\<Union>key \<in> set keys. set (filter_entries pe wk key)) \<union> set c1"
      by (rule BB_rel_Adds [OF sb(1), of keys, unfolded sb(4,5) IH(4,5)])
    have new: "?b (script @ [blk]) = fold BB_Add keys (StartBlock create off (?b script))"
      by (simp add: BB_run_def blk)
    have "BB_holds pe wk ((filters @ mor) @ [c2]) block" if "block \<in> set script" for block
    proof -
      have h: "BB_holds pe wk (filters @ [cur]) block" using IH(2) that by blast
      from sb(3) show ?thesis
      proof (elim disjE exE conjE)
        assume "mor = []" "c1 = cur"
        then show ?thesis using BB_holds_mono [OF h, of c2 "[]"] c2(2) by simp
      next
        fix t assume "mor = cur # t"
        then show ?thesis using BB_holds_mono [OF h, of cur "t @ [c2]"] by simp
      qed
    qed
    moreover have "BB_holds pe wk ((filters @ mor) @ [c2]) blk"
      using sb(2) c2(2) by (auto simp: BB_holds_def blk nth_append)
    ultimately show ?case
      unfolding new using c2(1) sb(2,4,5) IH(4,5) by (intro exI [of _ "filters @ mor"] exI [of _ c2])
        (auto simp: blk fold_BB_static)
  qed
  then show thesis using that by blast
qed

lemma block_filter_no_false_negative:
  assumes "sorted (map fst script)" "(block_offset, keys) \<in> set script" "key \<in> set keys"
    "e \<in> set (filter_entries pe wk key)"
  defines "contents \<equiv> BB_Finish create (BB_run create script (BlockBasedFilterBlockBuilder_make pe wk))"
  assumes "length contents < 2 ^ 32"
  shows "BR_MayMatch kmatch (BlockBasedFilterBlockReader_make pe wk contents) e block_offset"
proof -
  obtain filters cur where rel:
    "BB_rel create (BB_run create script (BlockBasedFilterBlockBuilder_make pe wk)) filters cur"
    "\<forall>block \<in> set script. BB_holds pe wk (filters @ [cur]) block"
    by (rule BB_run_holds [OF assms(1)])
  let ?i = "unat (block_offset div kFilterBase)"
  have i: "?i < length (filters @ [cur])" "e \<in> set ((filters @ [cur]) ! ?i)"
    using rel(2) assms(2-4) by (force simp: BB_holds_def)+
  obtain fs where fs: "contents = concat (map (filter_bytes create) fs) @
      concat (map (\<lambda>n. EncodeFixed32 (of_nat n)) (offs 0 (map (filter_bytes create) fs))) @ [11]"
    "fs = filters @ (if cur = [] then [] else [cur])"
    unfolding contents_def by (rule BB_Finish_rel [OF rel(1)])
  have fi: "?i < length fs" "fs ! ?i = (filters @ [cur]) ! ?i"
    using i by (auto simp: fs(2) nth_append less_Suc_eq)
  have "BR_MayMatch kmatch (BlockBasedFilterBlockReader_make pe wk contents) e block_offset
        = kmatch e (map (filter_bytes create) fs ! ?i)"
    unfolding fs(1)
    by (rule BR_MayMatch_block) (use assms(6) fi in \<open>simp_all add: fs(1)\<close>)
  moreover have "fs ! ?i \<noteq> []" "e \<in> set (fs ! ?i)"
    using i(2) fi by auto
  ultimately show ?thesis
    using fi(1) create_match by (simp add: filter_bytes_def)
qed

end

interpretation bloom_policy: filter_policy "CreateFilter (Policy_initialize bpk product)" Policy_KeyMayMatch
  for bpk product
proof
  show "CreateFilter (Policy_initialize bpk product) keys dst =
        dst @ CreateFilter (Policy_initialize bpk product) keys []" for keys dst
    by (rule CreateFilter_append)
  show "Policy_KeyMayMatch key (CreateFilter (Policy_initialize bpk product) keys [])"
    if "key \<in> set keys" for key keys
    by (rule Policy_KeyMayMatch_CreateFilter(1) [OF _ that])
      (use Policy_initialize_probes [of bpk product] in simp)
qed

section \<open>No key is filtered out\<close>

lemma reader_static [simp]:
  "br_prefix_extractor (BlockBasedFilterBlockReader_make pe wk c) = pe"
  "br_whole_key_filtering (BlockBasedFilterBlockReader_make pe wk c) = wk"
  by (simp_all add: BlockBasedFilterBlockReader_make_def Let_def)

lemma filter_entries_key: "whole \<Longrightarrow> key \<in> set (filter_entries pe whole key)"
  by (simp add: filter_entries_def)

lemma filter_entries_prefix:
  "InDomain tr key \<Longrightarrow> Transform tr key \<in> set (filter_entries (Some tr) whole key)"
  by (simp add: filter_entries_def)

definition full_filter_roundtrip ::
    "SliceTransform option \<Rightarrow> bool \<Rightarrow> FullFilterBitsBuilder \<Rightarrow> slice list
     \<Rightarrow> FullFilterBitsReader FullFilterBlockReader" where
  "full_filter_roundtrip pe whole_key_filtering fbb keys =
     (let builder = fold (FF_Add Full_AddKey) keys
            (FullFilterBlockBuilder_make pe whole_key_filtering fbb);
          contents = fst (FF_Finish Full_Finish builder)
      in \<lparr>fr_prefix_extractor = pe, fr_whole_key_filtering = whole_key_filtering,
          fr_contents = contents, filter_bits_reader = FullFilterBitsReader_make contents\<rparr>)"

text \<open>
  C11: A key added to a full filter block passes it, and so does its prefix when the block
  also filters by prefix, whatever the prefix extractor, the bits per key and the probe count
  \<open>BloomFilterPolicy\<close> gives.
\<close>

theorem full_filter_block_no_false_negatives:
  assumes "GetFilterBitsBuilder (Policy_initialize bpk product) False = Some fbb"
    and "2 * length keys < 2 ^ 32" "key \<in> set keys"
  shows "FR_KeyMayMatch Full_MayMatch (full_filter_roundtrip pe whole_key_filtering fbb keys) key = Some True
    \<and> (\<forall>tr. pe = Some tr \<and> InDomain tr key \<longrightarrow>
         FR_PrefixMayMatch Full_MayMatch (full_filter_roundtrip pe whole_key_filtering fbb keys)
           (Transform tr key) = Some True)"
proof -
  have fbb: "hash_entries fbb = [] \<and> num_probes fbb \<le> 127"
    using assms(1) Policy_initialize_probes [of bpk product]
    by (auto simp: GetFilterBitsBuilder_def)
  note match = full_bits.full_block_no_false_negative [OF fbb assms(2,3)]
  show ?thesis
    using match [OF filter_entries_key, of True pe] match [OF filter_entries_prefix]
    by (auto simp: FR_KeyMayMatch_def FR_PrefixMayMatch_def full_filter_roundtrip_def Let_def)
qed

theorem full_filter_block_no_false_negatives_witness:
  "FR_KeyMayMatch Full_MayMatch (full_filter_roundtrip None True
     \<lparr>bits_per_key = 10, num_probes = 6, hash_entries = []\<rparr> [[1], [2]]) [2] = Some True
   \<and> FR_KeyMayMatch Full_MayMatch (full_filter_roundtrip None True
     \<lparr>bits_per_key = 10, num_probes = 6, hash_entries = []\<rparr> [[1], [2]]) [3] = Some False"
proof
  have "GetFilterBitsBuilder (Policy_initialize 10 6) False
        = Some \<lparr>bits_per_key = 10, num_probes = 6, hash_entries = []\<rparr>"
    by (simp add: GetFilterBitsBuilder_def Policy_initialize_def)
  from full_filter_block_no_false_negatives [OF this, of "[[1], [2]]" "[2]" None True]
  show "FR_KeyMayMatch Full_MayMatch (full_filter_roundtrip None True
     \<lparr>bits_per_key = 10, num_probes = 6, hash_entries = []\<rparr> [[1], [2]]) [2] = Some True" by simp
  show "FR_KeyMayMatch Full_MayMatch (full_filter_roundtrip None True
     \<lparr>bits_per_key = 10, num_probes = 6, hash_entries = []\<rparr> [[1], [2]]) [3] = Some False"
    by code_simp
qed

definition block_filter_roundtrip ::
    "BloomFilterPolicy \<Rightarrow> SliceTransform option \<Rightarrow> bool \<Rightarrow> (u64 \<times> slice list) list \<Rightarrow> slice" where
  "block_filter_roundtrip p pe whole_key_filtering script =
     BB_Finish (CreateFilter p)
       (BB_run (CreateFilter p) script (BlockBasedFilterBlockBuilder_make pe whole_key_filtering))"

text \<open>
  C12: With one filter for every 2KB, a key of the data block written at \<open>block_offset\<close>, and its
  prefix, pass the filter that the reader consults for \<open>block_offset\<close>, when the blocks are
  announced in the order of their offsets and the filter block stays below 4GB.
\<close>

theorem block_based_filter_no_false_negatives:
  assumes "p = Policy_initialize bpk product" "sorted (map fst script)"
    and "(block_offset, keys) \<in> set script" "key \<in> set keys"
    and "length (block_filter_roundtrip p pe whole_key_filtering script) < 2 ^ 32"
  shows "BR_KeyMayMatch Policy_KeyMayMatch
           (BlockBasedFilterBlockReader_make pe whole_key_filtering
              (block_filter_roundtrip p pe whole_key_filtering script)) key block_offset
    \<and> (\<forall>tr. pe = Some tr \<and> InDomain tr key \<longrightarrow>
         BR_PrefixMayMatch Policy_KeyMayMatch
           (BlockBasedFilterBlockReader_make pe whole_key_filtering
              (block_filter_roundtrip p pe whole_key_filtering script)) (Transform tr key) block_offset)"
proof -
  note match = bloom_policy.block_filter_no_false_negative [OF assms(2-4) _
      assms(5) [unfolded assms(1) block_filter_roundtrip_def]]
  let ?r = "BlockBasedFilterBlockReader_make pe whole_key_filtering
              (block_filter_roundtrip p pe whole_key_filtering script)"
  have m: "BR_MayMatch Policy_KeyMayMatch ?r e block_offset"
    if "e \<in> set (filter_entries pe whole_key_filtering key)" for e
    using match [OF that] by (simp add: block_filter_roundtrip_def assms(1))
  have k: "whole_key_filtering \<Longrightarrow> BR_MayMatch Policy_KeyMayMatch ?r key block_offset"
    by (rule m, rule filter_entries_key)
  have t: "pe = Some tr \<and> InDomain tr key \<Longrightarrow> BR_MayMatch Policy_KeyMayMatch ?r (Transform tr key) block_offset" for tr
    by (rule m) (simp add: filter_entries_prefix)
  show ?thesis
    unfolding BR_KeyMayMatch_def BR_PrefixMayMatch_def reader_static using k t by simp
qed

theorem block_based_filter_no_false_negatives_witness:
  "(let contents = block_filter_roundtrip (Policy_initialize 10 6) None True [(0, [[1]]), (5000, [[2], [3]])];
        reader = BlockBasedFilterBlockReader_make None True contents
    in BR_KeyMayMatch Policy_KeyMayMatch reader [3] 5000 \<and> \<not> BR_KeyMayMatch Policy_KeyMayMatch reader [3] 0)"
  unfolding Let_def
proof
  let ?s = "[(0, [[1]]), (5000, [[2], [3]])] :: (u64 \<times> slice list) list"
  have "length (block_filter_roundtrip (Policy_initialize 10 6) None True ?s) = 35"
    by code_simp
  then have "length (block_filter_roundtrip (Policy_initialize 10 6) None True ?s) < 2 ^ 32"
    by simp
  from block_based_filter_no_false_negatives [OF refl _ _ _ this, of 5000 "[[2], [3]]" "[3]"]
  show "BR_KeyMayMatch Policy_KeyMayMatch
     (BlockBasedFilterBlockReader_make None True (block_filter_roundtrip (Policy_initialize 10 6) None True ?s))
     [3] 5000"
    by simp
  show "\<not> BR_KeyMayMatch Policy_KeyMayMatch
     (BlockBasedFilterBlockReader_make None True (block_filter_roundtrip (Policy_initialize 10 6) None True ?s))
     [3] 0"
    by code_simp
qed

end
