(* ===== verification/PosixFile.thy ===== *)
theory PosixFile
  imports Status
begin

text \<open>
  \<^verbatim>\<open>env/io_posix.{h,cc}\<close>: the files the engine writes and reads, \<^verbatim>\<open>PosixWritableFile\<close> and
  \<^verbatim>\<open>PosixSequentialFile\<close> in buffered mode. The operating system is a script of the outcomes of
  the system calls to come; when the script is used up every call succeeds in full. The contracts
  of \<^verbatim>\<open>include/rocksdb/env.h\<close> are the locales \<open>writable_file\<close> and \<open>sequential_file\<close>.
\<close>

section \<open>Errors\<close>

definition EINTR :: nat where "EINTR = 4"
definition ENOSPC :: nat where "ENOSPC = 28"
definition ESTALE :: nat where "ESTALE = 116"

definition IOErrorMsg :: "string \<Rightarrow> string \<Rightarrow> string" where
  "IOErrorMsg ctxt file_name = (if file_name = [] then ctxt else ctxt @ '': '' @ file_name)"

text \<open>\<open>strerror\<close> is the C library's.\<close>

definition IOError :: "(nat \<Rightarrow> string) \<Rightarrow> string \<Rightarrow> string \<Rightarrow> nat \<Rightarrow> Status" where
  "IOError strerror ctxt file_name err_number =
     (if err_number = ENOSPC
      then Status_msg kIOError kNoSpace (IOErrorMsg ctxt file_name) (strerror err_number)
      else if err_number = ESTALE then Status_code kIOError kStaleFile
      else Status_msg kIOError kNone (IOErrorMsg ctxt file_name) (strerror err_number))"

section \<open>Writing\<close>

datatype write_result = Wrote nat | WriteFailed nat

record PosixWritableFile =
  pw_filename :: string
  pw_filesize :: u64
  pw_bytes :: slice
  pw_script :: "write_result list"
  pw_sync :: "nat list"
  pw_strerror :: "nat \<Rightarrow> string"

text \<open>
  \<open>pw_bytes\<close> is what the file holds for the operating system and \<open>pw_script\<close> the outcomes of the
  coming calls of \<^verbatim>\<open>write\<close>; \<open>pw_sync\<close> those of the coming calls of \<^verbatim>\<open>fsync\<close> and \<^verbatim>\<open>fdatasync\<close>, an error
  number each, 0 for success. A call accepts a prefix of the bytes it is given.
\<close>

fun sys_write :: "slice \<Rightarrow> PosixWritableFile \<Rightarrow> (nat + nat) \<times> PosixWritableFile" where
  "sys_write src f =
     (case pw_script f of
        [] \<Rightarrow> (Inr (length src), f\<lparr>pw_bytes := pw_bytes f @ src\<rparr>)
      | Wrote n # rest \<Rightarrow> (Inr (min n (length src)),
          f\<lparr>pw_bytes := pw_bytes f @ take n src, pw_script := rest\<rparr>)
      | WriteFailed e # rest \<Rightarrow> (Inl e, f\<lparr>pw_script := rest\<rparr>))"

lemma sys_write_script:
  "length (pw_script (snd (sys_write src f))) = length (pw_script f) - 1"
  by (auto split: list.splits write_result.splits)

function PW_Append_loop :: "slice \<Rightarrow> PosixWritableFile \<Rightarrow> Status \<times> PosixWritableFile" where
  "PW_Append_loop src f =
     (if src \<noteq> []
      then case sys_write src f of
             (Inl errno, f1) \<Rightarrow>
               if errno = EINTR then PW_Append_loop src f1
               else (IOError (pw_strerror f1) ''While appending to file'' (pw_filename f1) errno, f1)
           | (Inr n, f1) \<Rightarrow> PW_Append_loop (drop n src) f1
      else (Status_OK, f))"
  by pat_completeness auto

termination PW_Append_loop
  by (relation "measure (\<lambda>(src, f). length (pw_script f) + (if src = [] then 0 else 1))")
    (auto split: list.splits write_result.splits if_splits)

declare PW_Append_loop.simps [simp del]

definition PW_Append :: "slice \<Rightarrow> PosixWritableFile \<Rightarrow> Status \<times> PosixWritableFile" where
  "PW_Append data f =
     (let (s, f) = PW_Append_loop data f
      in if ok s then (Status_OK, f\<lparr>pw_filesize := pw_filesize f + of_nat (length data)\<rparr>) else (s, f))"

definition PW_Flush :: "PosixWritableFile \<Rightarrow> Status \<times> PosixWritableFile" where
  "PW_Flush f = (Status_OK, f)"

definition sys_sync :: "PosixWritableFile \<Rightarrow> nat \<times> PosixWritableFile" where
  "sys_sync f = (case pw_sync f of [] \<Rightarrow> (0, f) | e # rest \<Rightarrow> (e, f\<lparr>pw_sync := rest\<rparr>))"

definition PW_Sync :: "PosixWritableFile \<Rightarrow> Status \<times> PosixWritableFile" where
  "PW_Sync f =
     (let (errno, f) = sys_sync f
      in if errno \<noteq> 0 then (IOError (pw_strerror f) ''While fdatasync'' (pw_filename f) errno, f)
         else (Status_OK, f))"

definition PW_Fsync :: "PosixWritableFile \<Rightarrow> Status \<times> PosixWritableFile" where
  "PW_Fsync f =
     (let (errno, f) = sys_sync f
      in if errno \<noteq> 0 then (IOError (pw_strerror f) ''While fsync'' (pw_filename f) errno, f)
         else (Status_OK, f))"

section \<open>Reading\<close>

text \<open>A failed \<^verbatim>\<open>fread\<close> may have read some bytes before the error.\<close>

datatype fread_error = FreadFailed nat nat

record PosixSequentialFile =
  ps_filename :: string
  ps_bytes :: slice
  ps_script :: "fread_error option list"
  ps_strerror :: "nat \<Rightarrow> string"

text \<open>
  \<open>ps_bytes\<close> are the bytes from the position of the stream to the end of the file. Each entry of the
  script is the outcome of one call; \<open>None\<close> reads in full.
\<close>

function PS_Read :: "nat \<Rightarrow> PosixSequentialFile \<Rightarrow> Status \<times> slice \<times> PosixSequentialFile" where
  "PS_Read n f =
     (case ps_script f of
        Some (FreadFailed k errno) # rest \<Rightarrow>
          (let r = take k (take n (ps_bytes f));
               f1 = f\<lparr>ps_bytes := drop (length r) (ps_bytes f), ps_script := rest\<rparr>
           in if r = [] \<and> errno = EINTR then PS_Read n f1
              else if length r < n
                   then (IOError (ps_strerror f) ''While reading file sequentially'' (ps_filename f) errno,
                         r, f1)
              else (Status_OK, r, f1))
      | script \<Rightarrow>
          (Status_OK, take n (ps_bytes f), f\<lparr>ps_bytes := drop n (ps_bytes f), ps_script := drop 1 script\<rparr>))"
  by pat_completeness auto

termination PS_Read
  by (relation "measure (\<lambda>(n, f). length (ps_script f))") auto

declare PS_Read.simps [simp del]

text \<open>\<^verbatim>\<open>fseek\<close> past the end succeeds.\<close>

definition PS_Skip :: "nat \<Rightarrow> PosixSequentialFile \<Rightarrow> Status \<times> PosixSequentialFile" where
  "PS_Skip n f = (Status_OK, f\<lparr>ps_bytes := drop n (ps_bytes f)\<rparr>)"

section \<open>Contracts\<close>

locale writable_file =
  fixes f_Append :: "slice \<Rightarrow> 'f \<Rightarrow> Status \<times> 'f"
    and f_Flush :: "'f \<Rightarrow> Status \<times> 'f"
    and f_bytes :: "'f \<Rightarrow> slice"
  assumes append_ok: "f_Append data f = (s, f') \<Longrightarrow> ok s \<Longrightarrow> f_bytes f' = f_bytes f @ data"
    and append_prefix: "f_Append data f = (s, f') \<Longrightarrow> \<exists>k. f_bytes f' = f_bytes f @ take k data"
    and flush_bytes: "f_Flush f = (s, f') \<Longrightarrow> f_bytes f' = f_bytes f"

locale sequential_file =
  fixes f_Read :: "nat \<Rightarrow> 'f \<Rightarrow> Status \<times> slice \<times> 'f"
    and f_Skip :: "nat \<Rightarrow> 'f \<Rightarrow> Status \<times> 'f"
    and f_rest :: "'f \<Rightarrow> slice"
  assumes read_ok: "f_Read n f = (s, r, f') \<Longrightarrow> ok s \<Longrightarrow> r = take n (f_rest f)"
    and read_rest: "f_Read n f = (s, r, f') \<Longrightarrow> f_rest f = r @ f_rest f' \<and> length r \<le> n"
    and skip_rest: "f_Skip n f = (s, f') \<Longrightarrow> ok s \<Longrightarrow> f_rest f' = drop n (f_rest f)"

lemma IOError_not_ok [simp]: "\<not> ok (IOError strerror c n e)"
  by (simp add: IOError_def ok_def Status_msg_def Status_code_def)

lemma PW_Append_loop_bytes:
  assumes "PW_Append_loop src f = (s, f')"
  shows "\<exists>k. pw_bytes f' = pw_bytes f @ take k src \<and> (ok s \<longrightarrow> length src \<le> k)"
  using assms
proof (induction src f arbitrary: s f' rule: PW_Append_loop.induct)
  case (1 src f)
  show ?case
  proof (cases "src = []")
    case True
    then show ?thesis using "1.prems" by (simp add: PW_Append_loop.simps)
  next
    case False
    obtain r f1 where w: "sys_write src f = (r, f1)" by (cases "sys_write src f")
    show ?thesis
    proof (cases r)
      case (Inl e)
      have b: "pw_bytes f1 = pw_bytes f"
        using w Inl by (auto split: list.splits write_result.splits)
      show ?thesis
      proof (cases "e = EINTR")
        case True
        have "PW_Append_loop src f1 = (s, f')"
          using "1.prems" False w Inl True by (simp add: PW_Append_loop.simps [of src f] del: sys_write.simps)
        then show ?thesis
          using "1.IH"(1) [OF False w [symmetric] Inl True] b by simp
      next
        case False
        then have "\<not> ok s" "f' = f1"
          using "1.prems" \<open>src \<noteq> []\<close> w Inl
          by (auto simp: PW_Append_loop.simps [of src f] simp del: sys_write.simps)
        then show ?thesis using b by (intro exI [of _ 0]) simp
      qed
    next
      case (Inr n)
      have b: "pw_bytes f1 = pw_bytes f @ take n src"
        using w Inr by (auto simp: min_def split: list.splits write_result.splits)
      have "PW_Append_loop (drop n src) f1 = (s, f')"
        using "1.prems" False w Inr by (simp add: PW_Append_loop.simps [of src f] del: sys_write.simps)
      from "1.IH"(2) [OF False w [symmetric] Inr this] obtain k where
        k: "pw_bytes f' = pw_bytes f1 @ take k (drop n src)" "ok s \<longrightarrow> length (drop n src) \<le> k" by blast
      then show ?thesis
        using b take_add [of n k src] by (intro exI [of _ "n + k"]) auto
    qed
  qed
qed

interpretation posix_writable: writable_file PW_Append PW_Flush pw_bytes
proof
  fix data f s f'
  assume a: "PW_Append data f = (s, f')"
  obtain s1 f1 where l: "PW_Append_loop data f = (s1, f1)" by (cases "PW_Append_loop data f")
  obtain k where k: "pw_bytes f1 = pw_bytes f @ take k data" "ok s1 \<longrightarrow> length data \<le> k"
    using PW_Append_loop_bytes [OF l] by blast
  show "\<exists>k. pw_bytes f' = pw_bytes f @ take k data"
    using a l k(1) by (intro exI [of _ k]) (auto simp: PW_Append_def split: if_splits)
  show "ok s \<Longrightarrow> pw_bytes f' = pw_bytes f @ data"
    using a l k by (auto simp: PW_Append_def split: if_splits)
qed (simp add: PW_Flush_def)

lemma PS_Read_spec:
  assumes "PS_Read n f = (s, r, f')"
  shows "ps_bytes f = r @ ps_bytes f' \<and> length r \<le> n \<and> (ok s \<longrightarrow> r = take n (ps_bytes f))"
  using assms
proof (induction n f arbitrary: s r f' rule: PS_Read.induct)
  case (1 n f)
  show ?case
  proof (cases "\<exists>k e rest. ps_script f = Some (FreadFailed k e) # rest")
    case True
    then obtain k e rest where sc: "ps_script f = Some (FreadFailed k e) # rest" by blast
    define r0 where "r0 = take k (take n (ps_bytes f))"
    define f1 where "f1 = f\<lparr>ps_bytes := drop (length r0) (ps_bytes f), ps_script := rest\<rparr>"
    show ?thesis
    proof (cases "r0 = [] \<and> e = EINTR")
      case True
      have "PS_Read n f1 = (s, r, f')"
        using "1.prems" sc True by (simp add: PS_Read.simps [of n f] r0_def f1_def Let_def)
      moreover have "ps_bytes f1 = ps_bytes f" using True by (simp add: f1_def)
      ultimately show ?thesis
        using "1.IH" [OF sc refl refl r0_def f1_def] True by simp
    next
      case False
      have p: "ps_bytes f = r0 @ drop (length r0) (ps_bytes f)"
        unfolding r0_def by (metis append_take_drop_id take_take append_eq_conv_conj min_def)
      have "PS_Read n f = (if length r0 < n
          then (IOError (ps_strerror f) ''While reading file sequentially'' (ps_filename f) e, r0, f1)
          else (Status_OK, r0, f1))"
        using False
        by (subst PS_Read.simps)
          (simp only: sc list.case option.case fread_error.case Let_def flip: r0_def f1_def, simp)
      then have "r = r0 \<and> f' = f1 \<and> (ok s \<longrightarrow> n \<le> length r0)"
        using "1.prems" by (auto split: if_splits)
      then show ?thesis using p by (auto simp: f1_def r0_def)
    qed
  next
    case False
    then have "s = Status_OK \<and> r = take n (ps_bytes f) \<and> ps_bytes f' = drop n (ps_bytes f)"
      using "1.prems"
      by (auto simp: PS_Read.simps [of n f] split: list.splits option.splits fread_error.splits)
    then show ?thesis by simp
  qed
qed

interpretation posix_sequential: sequential_file PS_Read PS_Skip ps_bytes
  by unfold_locales (auto simp: PS_Skip_def dest: PS_Read_spec)

end
