(* ===== verification/FileWriter.thy ===== *)
theory FileWriter
  imports PosixFile
begin

text \<open>
  \<^verbatim>\<open>util/file_reader_writer.cc\<close> and \<^verbatim>\<open>util/aligned_buffer.h\<close>: \<^verbatim>\<open>WritableFileWriter\<close>, the write
  buffer in front of a file, in buffered mode, and \<^verbatim>\<open>SequentialFileReader\<close>. A loop that may run forever
  returns \<open>None\<close> at the point from which it makes no progress any more.
\<close>

record 'f WritableFile =
  w_Append :: "slice \<Rightarrow> 'f \<Rightarrow> Status \<times> 'f"
  w_Flush :: "'f \<Rightarrow> Status \<times> 'f"
  w_Sync :: "'f \<Rightarrow> Status \<times> 'f"
  w_Fsync :: "'f \<Rightarrow> Status \<times> 'f"
  w_RangeSync :: "u64 \<Rightarrow> u64 \<Rightarrow> 'f \<Rightarrow> Status \<times> 'f"
  w_IsSyncThreadSafe :: bool

record 'f WritableFileWriter =
  fw_file :: 'f
  buf_capacity :: nat
  buf_data :: "byte list"
  buf_alignment :: nat
  max_buffer_size :: nat
  filesize :: u64
  pending_sync :: bool
  last_sync_size :: u64
  bytes_per_sync :: u64
  single_burst :: "nat option"

text \<open>\<open>single_burst\<close> is the burst size of the rate limiter, \<open>None\<close> when writes are not limited.\<close>

section \<open>The aligned buffer\<close>

definition Roundup :: "nat \<Rightarrow> nat \<Rightarrow> nat" where
  "Roundup x y = (x + y - 1) div y * y"

definition AllocateNewBuffer :: "nat \<Rightarrow> bool \<Rightarrow> 'f WritableFileWriter \<Rightarrow> 'f WritableFileWriter" where
  "AllocateNewBuffer requested_capacity copy_data w =
     (if copy_data \<and> requested_capacity < length (buf_data w) then w
      else w\<lparr>buf_data := (if copy_data then buf_data w else []),
             buf_capacity := Roundup requested_capacity (buf_alignment w)\<rparr>)"

definition Buf_Append :: "slice \<Rightarrow> 'f WritableFileWriter \<Rightarrow> nat \<times> 'f WritableFileWriter" where
  "Buf_Append src w =
     (let to_copy = min (length src) (buf_capacity w - length (buf_data w))
      in (to_copy, w\<lparr>buf_data := buf_data w @ take to_copy src\<rparr>))"

definition WritableFileWriter_make ::
    "'f \<Rightarrow> nat \<Rightarrow> nat \<Rightarrow> u64 \<Rightarrow> nat option \<Rightarrow> 'f WritableFileWriter" where
  "WritableFileWriter_make file alignment max_size bps burst =
     AllocateNewBuffer (min 65536 max_size) False
       \<lparr>fw_file = file, buf_capacity = 0, buf_data = [], buf_alignment = alignment,
        max_buffer_size = max_size, filesize = 0, pending_sync = False, last_sync_size = 0,
        bytes_per_sync = bps, single_burst = burst\<rparr>"

section \<open>Writing\<close>

definition RequestToken :: "nat option \<Rightarrow> nat \<Rightarrow> nat" where
  "RequestToken burst bytes = (case burst of None \<Rightarrow> bytes | Some b \<Rightarrow> min bytes b)"

function WriteBuffered_loop ::
    "'f WritableFile \<Rightarrow> slice \<Rightarrow> 'f WritableFileWriter \<Rightarrow> (Status \<times> 'f WritableFileWriter) option" where
  "WriteBuffered_loop ops src w =
     (if src = [] then Some (Status_OK, w\<lparr>buf_data := []\<rparr>)
      else let allowed = RequestToken (single_burst w) (length src);
               (s, f) = w_Append ops (take allowed src) (fw_file w);
               w = w\<lparr>fw_file := f\<rparr>
           in if \<not> ok s then Some (s, w)
              else if allowed = 0 then None
              else WriteBuffered_loop ops (drop allowed src) w)"
  by pat_completeness auto

termination WriteBuffered_loop
  by (relation "measure (\<lambda>(ops, src, w). length src)") auto

declare WriteBuffered_loop.simps [simp del]

definition WriteBuffered ::
    "'f WritableFile \<Rightarrow> slice \<Rightarrow> 'f WritableFileWriter \<Rightarrow> (Status \<times> 'f WritableFileWriter) option" where
  "WriteBuffered ops data w = WriteBuffered_loop ops data w"

definition RangeSync ::
    "'f WritableFile \<Rightarrow> u64 \<Rightarrow> u64 \<Rightarrow> 'f WritableFileWriter \<Rightarrow> Status \<times> 'f WritableFileWriter" where
  "RangeSync ops offset nbytes w =
     (let (s, f) = w_RangeSync ops offset nbytes (fw_file w) in (s, w\<lparr>fw_file := f\<rparr>))"

definition Flush_range_sync :: "'f WritableFile \<Rightarrow> 'f WritableFileWriter \<Rightarrow> Status \<times> 'f WritableFileWriter" where
  "Flush_range_sync ops w =
     (if bytes_per_sync w \<noteq> 0 \<and> filesize w > 1024 * 1024
      then let offset_sync_to = filesize w - 1024 * 1024;
               offset_sync_to = offset_sync_to - offset_sync_to mod (4 * 1024)
           in if offset_sync_to > 0 \<and> offset_sync_to - last_sync_size w \<ge> bytes_per_sync w
              then let (s, w) = RangeSync ops (last_sync_size w) (offset_sync_to - last_sync_size w) w
                   in (s, w\<lparr>last_sync_size := offset_sync_to\<rparr>)
              else (Status_OK, w)
      else (Status_OK, w))"

definition FW_Flush :: "'f WritableFile \<Rightarrow> 'f WritableFileWriter \<Rightarrow> (Status \<times> 'f WritableFileWriter) option" where
  "FW_Flush ops w =
     (case (if length (buf_data w) > 0 then WriteBuffered ops (buf_data w) w else Some (Status_OK, w)) of
        None \<Rightarrow> None
      | Some (s, w) \<Rightarrow>
          if \<not> ok s then Some (s, w)
          else let (s, f) = w_Flush ops (fw_file w); w = w\<lparr>fw_file := f\<rparr>
               in if \<not> ok s then Some (s, w) else Some (Flush_range_sync ops w))"

text \<open>
  The search for a larger capacity doubles \<open>cap\<close>; from 0 it would never end.
\<close>

function grow_loop :: "nat \<Rightarrow> nat \<Rightarrow> 'f WritableFileWriter \<Rightarrow> 'f WritableFileWriter option" where
  "grow_loop cap left w =
     (if cap < max_buffer_size w
      then let desired_capacity = min (cap * 2) (max_buffer_size w)
           in if desired_capacity - length (buf_data w) \<ge> left
              then Some (AllocateNewBuffer desired_capacity True w)
              else if cap = 0 then None
              else grow_loop (cap * 2) left w
      else Some w)"
  by pat_completeness auto

termination grow_loop
  by (relation "measure (\<lambda>(cap, left, w). max_buffer_size w - cap)") auto

declare grow_loop.simps [simp del]

lemma WriteBuffered_loop_clears:
  "WriteBuffered_loop ops src w = Some (s, w') \<Longrightarrow> ok s \<Longrightarrow> buf_data w' = []"
  by (induction ops src w rule: WriteBuffered_loop.induct)
    (subst (asm) (2) WriteBuffered_loop.simps, auto simp: Let_def split: if_splits prod.splits)

lemma RangeSync_static [simp]:
  "buf_data (snd (RangeSync ops a b w)) = buf_data w"
  "buf_capacity (snd (RangeSync ops a b w)) = buf_capacity w"
  by (simp_all add: RangeSync_def split_beta)

lemma Flush_range_sync_static [simp]:
  "buf_data (snd (Flush_range_sync ops w)) = buf_data w"
  "buf_capacity (snd (Flush_range_sync ops w)) = buf_capacity w"
  by (simp_all add: Flush_range_sync_def split_beta Let_def)

lemma FW_Flush_clears:
  assumes "FW_Flush ops w = Some (s, w')" "ok s"
  shows "buf_data w' = []"
proof -
  obtain s1 w1 where w1: "(if length (buf_data w) > 0 then WriteBuffered ops (buf_data w) w
      else Some (Status_OK, w)) = Some (s1, w1)" "ok s1"
    using assms by (auto simp: FW_Flush_def split: option.splits if_splits)
  then have "buf_data w1 = []"
    by (auto simp: WriteBuffered_def split: if_splits dest: WriteBuffered_loop_clears)
  moreover have "buf_data w' = buf_data w1"
    using assms w1 Flush_range_sync_static(1) [of ops "w1\<lparr>fw_file := snd (w_Flush ops (fw_file w1))\<rparr>"]
    by (auto simp: FW_Flush_def Let_def split_beta simp del: Flush_range_sync_static split: if_splits)
  ultimately show ?thesis by simp
qed

function Append_loop ::
    "'f WritableFile \<Rightarrow> slice \<Rightarrow> 'f WritableFileWriter \<Rightarrow> (Status \<times> 'f WritableFileWriter) option" where
  "Append_loop ops src w =
     (if src = [] then Some (Status_OK, w)
      else let (appended, w) = Buf_Append src w; src = drop appended src
           in if src = [] then Some (Status_OK, w)
              else case FW_Flush ops w of
                     None \<Rightarrow> None
                   | Some (s, w1) \<Rightarrow>
                       if \<not> ok s then Some (s, w1)
                       else if appended = 0 \<and> buf_data w = [] then None
                       else Append_loop ops src w1)"
  by pat_completeness auto

termination Append_loop
  by (relation "measures [\<lambda>(ops, src, w). length src, \<lambda>(ops, src, w). length (buf_data w)]")
    (auto simp: Buf_Append_def Let_def dest!: FW_Flush_clears)

declare Append_loop.simps [simp del]

definition FW_Append ::
    "'f WritableFile \<Rightarrow> slice \<Rightarrow> 'f WritableFileWriter \<Rightarrow> (Status \<times> 'f WritableFileWriter) option" where
  "FW_Append ops data w =
     (let w = w\<lparr>pending_sync := True\<rparr>
      in case (if buf_capacity w - length (buf_data w) < length data
               then grow_loop (buf_capacity w) (length data) w else Some w) of
           None \<Rightarrow> None
         | Some w \<Rightarrow>
             (case (if buf_capacity w - length (buf_data w) < length data \<and> length (buf_data w) > 0
                    then FW_Flush ops w else Some (Status_OK, w)) of
                None \<Rightarrow> None
              | Some (s, w) \<Rightarrow>
                  if \<not> ok s then Some (s, w)
                  else (case (if buf_capacity w \<ge> length data then Append_loop ops data w
                              else WriteBuffered ops data w) of
                          None \<Rightarrow> None
                        | Some (s, w) \<Rightarrow>
                            Some (s, if ok s then w\<lparr>filesize := filesize w + of_nat (length data)\<rparr> else w))))"

definition SyncInternal :: "'f WritableFile \<Rightarrow> bool \<Rightarrow> 'f WritableFileWriter \<Rightarrow> Status \<times> 'f WritableFileWriter" where
  "SyncInternal ops use_fsync w =
     (let (s, f) = (if use_fsync then w_Fsync ops else w_Sync ops) (fw_file w)
      in (s, w\<lparr>fw_file := f\<rparr>))"

definition FW_Sync :: "'f WritableFile \<Rightarrow> bool \<Rightarrow> 'f WritableFileWriter \<Rightarrow> (Status \<times> 'f WritableFileWriter) option" where
  "FW_Sync ops use_fsync w =
     (case FW_Flush ops w of
        None \<Rightarrow> None
      | Some (s, w) \<Rightarrow>
          if \<not> ok s then Some (s, w)
          else let (s, w) = (if pending_sync w then SyncInternal ops use_fsync w else (Status_OK, w))
               in if \<not> ok s then Some (s, w) else Some (Status_OK, w\<lparr>pending_sync := False\<rparr>))"

definition SyncWithoutFlush ::
    "'f WritableFile \<Rightarrow> bool \<Rightarrow> 'f WritableFileWriter \<Rightarrow> Status \<times> 'f WritableFileWriter" where
  "SyncWithoutFlush ops use_fsync w =
     (if \<not> w_IsSyncThreadSafe ops
      then (NotSupported (''Can't WritableFileWriter::SyncWithoutFlush() because '' @
                          ''WritableFile::IsSyncThreadSafe() is false''), w)
      else SyncInternal ops use_fsync w)"

section \<open>What the writer promises\<close>

definition FW_inv :: "'f WritableFileWriter \<Rightarrow> bool" where
  "FW_inv w \<longleftrightarrow> length (buf_data w) \<le> buf_capacity w \<and> 0 < buf_alignment w
     \<and> (0 < max_buffer_size w \<longrightarrow> 0 < buf_capacity w) \<and> single_burst w \<noteq> Some 0"

lemma Roundup_ge: "0 < y \<Longrightarrow> x \<le> Roundup x y"
  using div_mult_mod_eq [of "x + y - 1" y] mod_less_divisor [of y "x + y - 1"]
  unfolding Roundup_def by linarith

lemma FW_inv_make [inv_intros]:
  "0 < alignment \<Longrightarrow> burst \<noteq> Some 0 \<Longrightarrow> FW_inv (WritableFileWriter_make file alignment max_size bps burst)"
  using Roundup_ge [of alignment "min 65536 max_size"]
  by (auto simp: FW_inv_def WritableFileWriter_make_def AllocateNewBuffer_def)

lemma grow_loop_spec:
  assumes "FW_inv w" "max_buffer_size w = 0 \<or> 0 < cap" "length (buf_data w) \<le> cap"
  obtains w' where "grow_loop cap left w = Some w'" "FW_inv w'" "buf_data w' = buf_data w"
    "fw_file w' = fw_file w" "filesize w' = filesize w"
proof -
  have "\<exists>w'. grow_loop cap left w = Some w' \<and> FW_inv w' \<and> buf_data w' = buf_data w
      \<and> fw_file w' = fw_file w \<and> filesize w' = filesize w"
    using assms
  proof (induction cap left w rule: grow_loop.induct)
    case (1 cap left w)
    show ?case
    proof (cases "cap < max_buffer_size w")
      case True
      define d where "d = min (cap * 2) (max_buffer_size w)"
      have d: "length (buf_data w) \<le> d" "0 < d"
        using 1(3,4) True by (auto simp: d_def)
      show ?thesis
      proof (cases "d - length (buf_data w) \<ge> left")
        case fits: True
        have "FW_inv (AllocateNewBuffer d True w)"
          using 1(2) d Roundup_ge [of "buf_alignment w" d] by (auto simp: FW_inv_def AllocateNewBuffer_def)
        then show ?thesis
          using True fits d by (simp add: grow_loop.simps d_def [symmetric] Let_def AllocateNewBuffer_def)
      next
        case False
        have "0 < cap" using 1(3) True by simp
        then show ?thesis
          using 1(1) [OF True d_def False] 1(2-4) True False
          by (simp add: grow_loop.simps [of cap] d_def [symmetric] Let_def)
      qed
    next
      case False
      then show ?thesis using 1(2) by (simp add: grow_loop.simps)
    qed
  qed
  then show thesis using that by blast
qed

lemma Append_loop_fits:
  "length src \<le> buf_capacity w - length (buf_data w) \<Longrightarrow>
   Append_loop ops src w = Some (Status_OK, w\<lparr>buf_data := buf_data w @ src\<rparr>)"
  by (simp add: Append_loop.simps Buf_Append_def Let_def min_absorb1)

definition same_setup :: "'f WritableFileWriter \<Rightarrow> 'f WritableFileWriter \<Rightarrow> bool" where
  "same_setup w w' \<longleftrightarrow> buf_capacity w' = buf_capacity w \<and> buf_alignment w' = buf_alignment w
     \<and> max_buffer_size w' = max_buffer_size w \<and> single_burst w' = single_burst w \<and> filesize w' = filesize w"

lemma same_setup_inv: "same_setup w w' \<Longrightarrow> FW_inv w \<Longrightarrow> length (buf_data w') \<le> length (buf_data w) \<Longrightarrow> FW_inv w'"
  by (simp add: same_setup_def FW_inv_def)

locale buffered_file = w: writable_file "w_Append ops" "w_Flush ops" bytes
  for ops :: "'f WritableFile" and bytes :: "'f \<Rightarrow> slice" +
  fixes healthy :: "'f \<Rightarrow> bool"
  assumes range_sync_bytes: "w_RangeSync ops a b f = (s, f') \<Longrightarrow> bytes f' = bytes f"
    and healthy_append: "healthy f \<Longrightarrow> w_Append ops data f = (s, f') \<Longrightarrow> ok s \<and> healthy f'"
    and healthy_flush: "healthy f \<Longrightarrow> w_Flush ops f = (s, f') \<Longrightarrow> ok s \<and> healthy f'"
    and healthy_range_sync: "healthy f \<Longrightarrow> w_RangeSync ops a b f = (s, f') \<Longrightarrow> ok s \<and> healthy f'"
begin

text \<open>On a \<open>healthy\<close> file every system call succeeds, if short or after an interruption.\<close>

abbreviation sound :: "'f WritableFileWriter \<Rightarrow> Status \<Rightarrow> 'f WritableFileWriter \<Rightarrow> bool" where
  "sound w s w' \<equiv> healthy (fw_file w) \<longrightarrow> ok s \<and> healthy (fw_file w')"

lemma WriteBuffered_spec:
  assumes "single_burst w \<noteq> Some 0"
  obtains s w' where "WriteBuffered ops src w = Some (s, w')" "same_setup w w'"
    "if ok s then bytes (fw_file w') = bytes (fw_file w) @ src \<and> buf_data w' = []
     else buf_data w' = buf_data w" "sound w s w'"
proof -
  have "\<exists>s w'. WriteBuffered_loop ops src w = Some (s, w') \<and> same_setup w w' \<and> sound w s w' \<and>
    (if ok s then bytes (fw_file w') = bytes (fw_file w) @ src \<and> buf_data w' = []
     else buf_data w' = buf_data w)"
    using assms
  proof (induction "length src" arbitrary: src w rule: less_induct)
    case less
    show ?case
    proof (cases "src = []")
      case True
      then show ?thesis by (simp add: WriteBuffered_loop.simps same_setup_def)
    next
      case False
      define a where "a = RequestToken (single_burst w) (length src)"
      have a: "0 < a"
        using less.prems False by (auto simp: a_def RequestToken_def split: option.splits)
      obtain s f where sf: "w_Append ops (take a src) (fw_file w) = (s, f)"
        by (cases "w_Append ops (take a src) (fw_file w)")
      define w1 where "w1 = w\<lparr>fw_file := f\<rparr>"
      show ?thesis
      proof (cases "ok s")
        case True
        have b: "bytes f = bytes (fw_file w) @ take a src"
          by (rule w.append_ok [OF sf True])
        have "WriteBuffered_loop ops src w = WriteBuffered_loop ops (drop a src) w1"
          using False a True by (simp add: WriteBuffered_loop.simps [of ops src] a_def [symmetric] sf w1_def Let_def)
        moreover have "length (drop a src) < length src" "single_burst w1 \<noteq> Some 0"
          using a False less.prems by (simp_all add: w1_def)
        moreover obtain s' w' where r: "WriteBuffered_loop ops (drop a src) w1 = Some (s', w')" "same_setup w1 w'"
          "sound w1 s' w'"
          "if ok s' then bytes (fw_file w') = bytes (fw_file w1) @ drop a src \<and> buf_data w' = []
           else buf_data w' = buf_data w1"
          using less.hyps [OF calculation(2,3)] by blast
        ultimately show ?thesis
          using b healthy_append [OF _ sf]
          by (intro exI [of _ s'] exI [of _ w']) (auto simp: w1_def same_setup_def split: if_splits)
      next
        case notok: False
        then show ?thesis
          using False healthy_append [OF _ sf] by (auto simp: WriteBuffered_loop.simps [of ops src] a_def [symmetric] sf Let_def same_setup_def)
      qed
    qed
  qed
  then show thesis using that by (auto simp: WriteBuffered_def)
qed

lemma Flush_range_sync_spec:
  "same_setup w (snd (Flush_range_sync ops w)) \<and> buf_data (snd (Flush_range_sync ops w)) = buf_data w
   \<and> bytes (fw_file (snd (Flush_range_sync ops w))) = bytes (fw_file w)
   \<and> sound w (fst (Flush_range_sync ops w)) (snd (Flush_range_sync ops w))"
  using range_sync_bytes healthy_range_sync
  by (auto simp: Flush_range_sync_def RangeSync_def Let_def same_setup_def split: prod.splits)

lemma Flush_spec:
  assumes "FW_inv w"
  obtains s w' where "FW_Flush ops w = Some (s, w')" "same_setup w w'" "FW_inv w'"
    "ok s \<longrightarrow> bytes (fw_file w') = bytes (fw_file w) @ buf_data w \<and> buf_data w' = []" "sound w s w'"
proof -
  obtain s1 w1 where w1: "(if length (buf_data w) > 0 then WriteBuffered ops (buf_data w) w
        else Some (Status_OK, w)) = Some (s1, w1)" "same_setup w w1"
    "if ok s1 then bytes (fw_file w1) = bytes (fw_file w) @ buf_data w \<and> buf_data w1 = []
     else buf_data w1 = buf_data w" "sound w s1 w1"
  proof (cases "buf_data w = []")
    case True
    then show thesis by (intro that [of Status_OK w]) (simp_all add: same_setup_def)
  next
    case False
    have "single_burst w \<noteq> Some 0" using assms by (simp add: FW_inv_def)
    from WriteBuffered_spec [OF this, of "buf_data w"] False show thesis by (metis length_greater_0_conv that)
  qed
  obtain s2 f2 where f2: "w_Flush ops (fw_file w1) = (s2, f2)" by (cases "w_Flush ops (fw_file w1)")
  have b2: "bytes f2 = bytes (fw_file w1)" by (rule w.flush_bytes [OF f2])
  define w2 where "w2 = w1\<lparr>fw_file := f2\<rparr>"
  obtain s3 w3 where w3: "Flush_range_sync ops w2 = (s3, w3)" by (cases "Flush_range_sync ops w2")
  have p3: "same_setup w2 w3" "buf_data w3 = buf_data w2" "bytes (fw_file w3) = bytes (fw_file w2)" "sound w2 s3 w3"
    using Flush_range_sync_spec [of w2] w3 by simp_all
  have fl: "FW_Flush ops w = (if \<not> ok s1 then Some (s1, w1) else if \<not> ok s2 then Some (s2, w2) else Some (s3, w3))"
    unfolding FW_Flush_def w1(1) by (simp add: f2 w2_def [symmetric] w3 Let_def)
  have len: "length (buf_data w1) \<le> length (buf_data w)"
    using w1(3) by (auto split: if_splits)
  have inv1: "FW_inv w1" by (rule same_setup_inv [OF w1(2) assms len])
  have conf: "same_setup w w2" "same_setup w w3"
    using w1(2) p3(1) by (simp_all add: w2_def same_setup_def)
  have inv: "FW_inv w2" "FW_inv w3"
    using conf p3(2) len by (auto intro: same_setup_inv [OF _ assms] simp: w2_def)
  show thesis
  proof (cases "ok s1 \<and> ok s2")
    case True
    then show thesis
      using fl w1(3,4) p3 b2 conf(2) inv(2) healthy_flush [OF _ f2] by (intro that [of s3 w3]) (auto simp: w2_def)
  next
    case False
    then show thesis
      using fl w1(2,4) conf inv inv1 that [of s1 w1] that [of s2 w2] healthy_flush [OF _ f2]
      by (cases "ok s1") (auto simp: w2_def)
  qed
qed

lemma Append_spec:
  assumes "FW_inv w"
  obtains s w' where "FW_Append ops data w = Some (s, w')" "FW_inv w'"
    "ok s \<longrightarrow> bytes (fw_file w') @ buf_data w' = bytes (fw_file w) @ buf_data w @ data
       \<and> filesize w' = filesize w + of_nat (length data)" "sound w s w'"
proof -
  define w0 where "w0 = w\<lparr>pending_sync := True\<rparr>"
  have w0: "FW_inv w0" "buf_data w0 = buf_data w" "fw_file w0 = fw_file w" "filesize w0 = filesize w"
    using assms by (simp_all add: w0_def FW_inv_def)
  obtain w1 where w1: "(if buf_capacity w0 - length (buf_data w0) < length data
        then grow_loop (buf_capacity w0) (length data) w0 else Some w0) = Some w1" "FW_inv w1"
      "buf_data w1 = buf_data w" "fw_file w1 = fw_file w" "filesize w1 = filesize w"
  proof (cases "buf_capacity w0 - length (buf_data w0) < length data")
    case True
    obtain w1 where "grow_loop (buf_capacity w0) (length data) w0 = Some w1" "FW_inv w1"
      "buf_data w1 = buf_data w0" "fw_file w1 = fw_file w0" "filesize w1 = filesize w0"
      by (rule grow_loop_spec [OF w0(1), of "buf_capacity w0"]) (use w0(1) in \<open>auto simp: FW_inv_def\<close>)
    then show thesis using True w0 by (intro that [of w1]) simp_all
  qed (use w0 that in auto)
  let ?room = "buf_capacity w1 - length (buf_data w1) < length data \<and> length (buf_data w1) > 0"
  obtain s2 w2 where w2: "(if ?room then FW_Flush ops w1 else Some (Status_OK, w1)) = Some (s2, w2)"
    "FW_inv w2" "filesize w2 = filesize w"
    "ok s2 \<longrightarrow> bytes (fw_file w2) @ buf_data w2 = bytes (fw_file w) @ buf_data w
       \<and> (buf_capacity w2 - length (buf_data w2) < length data \<longrightarrow> buf_data w2 = [])" "sound w s2 w2"
  proof (cases ?room)
    case True
    obtain s2 w2 where "FW_Flush ops w1 = Some (s2, w2)" "same_setup w1 w2" "FW_inv w2"
      "ok s2 \<longrightarrow> bytes (fw_file w2) = bytes (fw_file w1) @ buf_data w1 \<and> buf_data w2 = []" "sound w1 s2 w2"
      by (rule Flush_spec [OF w1(2)])
    then show thesis using True w1 by (intro that [of s2 w2]) (simp_all add: same_setup_def)
  next
    case False
    then show thesis using w1 by (intro that [of Status_OK w1]) auto
  qed
  have app: "FW_Append ops data w =
    (if \<not> ok s2 then Some (s2, w2)
     else case (if buf_capacity w2 \<ge> length data then Append_loop ops data w2 else WriteBuffered ops data w2) of
            None \<Rightarrow> None
          | Some (s, w) \<Rightarrow> Some (s, if ok s then w\<lparr>filesize := filesize w + of_nat (length data)\<rparr> else w))"
    unfolding FW_Append_def Let_def w0_def [symmetric] w1(1) option.case w2(1) prod.case ..
  show thesis
  proof (cases "ok s2")
    case False
    then show thesis
      using w2(2,5) app by (intro that [of s2 w2]) simp_all
  next
    case True
    obtain s3 w3 where w3: "(if buf_capacity w2 \<ge> length data then Append_loop ops data w2
        else WriteBuffered ops data w2) = Some (s3, w3)" "FW_inv w3" "filesize w3 = filesize w"
      "ok s3 \<longrightarrow> bytes (fw_file w3) @ buf_data w3 = bytes (fw_file w2) @ buf_data w2 @ data" "sound w2 s3 w3"
    proof (cases "buf_capacity w2 \<ge> length data")
      case fits: True
      have "length data \<le> buf_capacity w2 - length (buf_data w2)"
        using w2(4) True fits by (cases "buf_data w2 = []") auto
      from Append_loop_fits [OF this, of ops] this w2 fits show thesis
        by (intro that [of Status_OK "w2\<lparr>buf_data := buf_data w2 @ data\<rparr>"]) (auto simp: FW_inv_def)
    next
      case False
      have "buf_data w2 = []" using w2(4) True False by auto
      moreover obtain s3 w3 where "WriteBuffered ops data w2 = Some (s3, w3)" "same_setup w2 w3"
        "if ok s3 then bytes (fw_file w3) = bytes (fw_file w2) @ data \<and> buf_data w3 = []
         else buf_data w3 = buf_data w2" "sound w2 s3 w3"
        by (rule WriteBuffered_spec [of w2 data]) (use w2(2) in \<open>simp add: FW_inv_def\<close>)
      ultimately show thesis
        using False w2(2,3) by (intro that [of s3 w3])
          (auto simp: same_setup_def FW_inv_def split: if_splits)
    qed
    show thesis
      by (rule that [of s3 "if ok s3 then w3\<lparr>filesize := filesize w3 + of_nat (length data)\<rparr> else w3"])
        (use app [unfolded w3(1)] w2(4,5) w3 True in \<open>auto simp: FW_inv_def\<close>)
  qed
qed

end

section \<open>Over the Posix file\<close>

definition PW_RangeSync :: "u64 \<Rightarrow> u64 \<Rightarrow> PosixWritableFile \<Rightarrow> Status \<times> PosixWritableFile" where
  "PW_RangeSync offset nbytes f =
     (let (errno, f) = sys_sync f
      in if errno = 0 then (Status_OK, f)
         else (IOError (pw_strerror f) ''While sync_file_range'' (pw_filename f) errno, f))"

definition PW_IsSyncThreadSafe :: bool where
  "PW_IsSyncThreadSafe = True"

definition posix_ops :: "PosixWritableFile WritableFile" where
  "posix_ops = \<lparr>w_Append = PW_Append, w_Flush = PW_Flush, w_Sync = PW_Sync, w_Fsync = PW_Fsync,
     w_RangeSync = PW_RangeSync, w_IsSyncThreadSafe = PW_IsSyncThreadSafe\<rparr>"

definition posix_healthy :: "PosixWritableFile \<Rightarrow> bool" where
  "posix_healthy f \<longleftrightarrow> (\<forall>e. WriteFailed e \<in> set (pw_script f) \<longrightarrow> e = EINTR) \<and> set (pw_sync f) \<subseteq> {0}"

lemma PW_Append_loop_healthy:
  "posix_healthy f \<Longrightarrow> PW_Append_loop src f = (s, f') \<Longrightarrow> ok s \<and> posix_healthy f'"
proof (induction src f arbitrary: s f' rule: PW_Append_loop.induct)
  case (1 src f)
  show ?case
  proof (cases "src = []")
    case True
    then show ?thesis using "1.prems" by (simp add: PW_Append_loop.simps)
  next
    case False
    obtain r f1 where w: "sys_write src f = (r, f1)" by (cases "sys_write src f")
    have h: "posix_healthy f1" "\<And>e. r = Inl e \<Longrightarrow> e = EINTR"
      using w "1.prems"(1) by (auto simp: posix_healthy_def split: list.splits write_result.splits)
    show ?thesis
    proof (cases r)
      case (Inl e)
      then show ?thesis
        using "1.IH"(1) [OF False w [symmetric] Inl h(2) [OF Inl] h(1)] "1.prems"(2) False w h(2) [OF Inl]
        by (simp add: PW_Append_loop.simps [of src f] del: sys_write.simps)
    next
      case (Inr n)
      then show ?thesis
        using "1.IH"(2) [OF False w [symmetric] Inr h(1)] "1.prems"(2) False w
        by (simp add: PW_Append_loop.simps [of src f] del: sys_write.simps)
    qed
  qed
qed

interpretation posix_buffered: buffered_file posix_ops pw_bytes posix_healthy
proof (intro buffered_file.intro buffered_file_axioms.intro)
  show "writable_file (w_Append posix_ops) (w_Flush posix_ops) pw_bytes"
    by (simp add: posix_ops_def posix_writable.writable_file_axioms)
  show "ok s \<and> posix_healthy f'" if "posix_healthy f" "w_Append posix_ops data f = (s, f')" for f data s f'
  proof -
    obtain s1 f1 where l: "PW_Append_loop data f = (s1, f1)" by (cases "PW_Append_loop data f")
    show ?thesis
      using that(2) l PW_Append_loop_healthy [OF that(1) l]
      by (auto simp: posix_ops_def PW_Append_def posix_healthy_def)
  qed
qed (auto simp: posix_ops_def PW_RangeSync_def PW_Flush_def sys_sync_def posix_healthy_def
      split: list.splits if_splits)

text \<open>
  C14: Appending through the buffered writer to a Posix file terminates and keeps the writer's
  invariant, whatever system calls fail, are interrupted or write short; when it reports success
  the bytes of the file followed by the buffered bytes have grown by exactly the data, and a
  successful flush leaves nothing in the buffer.
\<close>

theorem buffered_append:
  assumes "FW_inv w"
  shows "(\<exists>s w'. FW_Append posix_ops data w = Some (s, w') \<and> FW_inv w' \<and>
      (ok s \<longrightarrow> pw_bytes (fw_file w') @ buf_data w' = pw_bytes (fw_file w) @ buf_data w @ data \<and>
               filesize w' = filesize w + of_nat (length data)))
    \<and> (\<exists>s w'. FW_Flush posix_ops w = Some (s, w') \<and> FW_inv w' \<and>
      (ok s \<longrightarrow> pw_bytes (fw_file w') = pw_bytes (fw_file w) @ buf_data w \<and> buf_data w' = []))"
  by (rule conjI, rule posix_buffered.Append_spec [OF assms, of data], blast,
      rule posix_buffered.Flush_spec [OF assms], blast)

definition sample_writer :: "PosixWritableFile WritableFileWriter" where
  "sample_writer =
     \<lparr>fw_file = \<lparr>pw_filename = ''f'', pw_filesize = 0, pw_bytes = [],
         pw_script = [Wrote 2, WriteFailed EINTR, Wrote 0], pw_sync = [], pw_strerror = (\<lambda>_. [])\<rparr>,
      buf_capacity = 4, buf_data = [], buf_alignment = 1, max_buffer_size = 4, filesize = 0,
      pending_sync = False, last_sync_size = 0, bytes_per_sync = 0, single_burst = Some 3\<rparr>"

theorem buffered_append_witness:
  "\<exists>s w'. FW_Append posix_ops [1, 2, 3, 4, 5, 6] sample_writer = Some (s, w') \<and> ok s \<and>
     pw_bytes (fw_file w') @ buf_data w' = [1, 2, 3, 4, 5, 6]"
proof -
  have inv: "FW_inv sample_writer"
    by (simp add: sample_writer_def FW_inv_def)
  have "map_option (ok \<circ> fst) (FW_Append posix_ops [1, 2, 3, 4, 5, 6] sample_writer) = Some True"
    by code_simp
  moreover have "pw_bytes (fw_file sample_writer) @ buf_data sample_writer = []"
    by code_simp
  ultimately show ?thesis
    using conjunct1 [OF buffered_append [OF inv, of "[1, 2, 3, 4, 5, 6]"]] by auto
qed

end
