(* ===== verification/LogWriter.thy ===== *)
theory LogWriter
  imports Crc32c FileWriter
begin

text \<open>
  \<^verbatim>\<open>db/log_format.h\<close> and \<^verbatim>\<open>db/log_writer.cc\<close>: the write-ahead log is a sequence of 32KB blocks;
  a record is cut into fragments that do not cross a block boundary. The destination is any
  \<open>log_dest\<close>; the writer of \<open>FileWriter\<close> is one.
\<close>

section \<open>Format\<close>

definition kZeroType :: u32 where "kZeroType = 0"
definition kFullType :: u32 where "kFullType = 1"
definition kFirstType :: u32 where "kFirstType = 2"
definition kMiddleType :: u32 where "kMiddleType = 3"
definition kLastType :: u32 where "kLastType = 4"
definition kRecyclableFullType :: u32 where "kRecyclableFullType = 5"
definition kRecyclableFirstType :: u32 where "kRecyclableFirstType = 6"
definition kRecyclableMiddleType :: u32 where "kRecyclableMiddleType = 7"
definition kRecyclableLastType :: u32 where "kRecyclableLastType = 8"
definition kMaxRecordType :: u32 where "kMaxRecordType = kRecyclableLastType"

lemmas record_types = kZeroType_def kFullType_def kFirstType_def kMiddleType_def kLastType_def
  kRecyclableFullType_def kRecyclableFirstType_def kRecyclableMiddleType_def kRecyclableLastType_def
  kMaxRecordType_def

definition kBlockSize :: nat where "kBlockSize = 32768"
definition kHeaderSize :: nat where "kHeaderSize = 4 + 2 + 1"
definition kRecyclableHeaderSize :: nat where "kRecyclableHeaderSize = 4 + 1 + 4 + 2"

lemmas log_sizes = kBlockSize_def kHeaderSize_def kRecyclableHeaderSize_def

section \<open>Writer\<close>

text \<open>The operations the writer calls on its destination; \<open>None\<close> if the call never returns.\<close>

record 'd LogDest =
  d_Append :: "slice \<Rightarrow> 'd \<Rightarrow> (Status \<times> 'd) option"
  d_Flush :: "'d \<Rightarrow> (Status \<times> 'd) option"

record 'd Writer =
  dest :: 'd
  block_offset :: nat
  log_number :: u64
  recycle_log_files :: bool
  manual_flush :: bool
  type_crc :: "u32 list"

definition Writer_make :: "'d \<Rightarrow> u64 \<Rightarrow> bool \<Rightarrow> bool \<Rightarrow> 'd Writer" where
  "Writer_make d log_num recycle manual =
     \<lparr>dest = d, block_offset = 0, log_number = log_num, recycle_log_files = recycle,
      manual_flush = manual,
      type_crc = map (\<lambda>i. Value [of_nat i]) [0..<Suc (unat kMaxRecordType)]\<rparr>"

definition WriteBuffer :: "'d LogDest \<Rightarrow> 'd Writer \<Rightarrow> (Status \<times> 'd Writer) option" where
  "WriteBuffer ops w = map_option (\<lambda>(s, d). (s, w\<lparr>dest := d\<rparr>)) (d_Flush ops (dest w))"

text \<open>The appends and the flush of \<open>EmitPhysicalRecord\<close>, each only if the one before succeeded.\<close>

definition emit_writes :: "'d LogDest \<Rightarrow> bool \<Rightarrow> slice \<Rightarrow> slice \<Rightarrow> 'd \<Rightarrow> (Status \<times> 'd) option" where
  "emit_writes ops manual header payload d =
     (case d_Append ops header d of
        None \<Rightarrow> None
      | Some (s, d) \<Rightarrow>
          if \<not> ok s then Some (s, d)
          else (case d_Append ops payload d of
                  None \<Rightarrow> None
                | Some (s, d) \<Rightarrow>
                    if \<not> ok s then Some (s, d)
                    else if \<not> manual then d_Flush ops d else Some (s, d)))"

definition record_header :: "u32 list \<Rightarrow> u64 \<Rightarrow> u32 \<Rightarrow> slice \<Rightarrow> slice" where
  "record_header tcrc log_num t ptr =
     (let n = length ptr;
          buf4 = [of_nat n AND 0xff, of_nat (n div 2 ^ 8), ucast t] :: byte list;
          buf7 = (if t < kRecyclableFullType then [] else EncodeFixed32 (ucast log_num));
          crc = tcrc ! unat t;
          crc = (if t < kRecyclableFullType then crc else Extend crc buf7);
          crc = Extend crc ptr;
          crc = Mask crc
      in EncodeFixed32 crc @ buf4 @ buf7)"

definition EmitPhysicalRecord ::
    "'d LogDest \<Rightarrow> u32 \<Rightarrow> slice \<Rightarrow> 'd Writer \<Rightarrow> (Status \<times> 'd Writer) option" where
  "EmitPhysicalRecord ops t ptr w =
     (let header_size = (if t < kRecyclableFullType then kHeaderSize else kRecyclableHeaderSize);
          header = record_header (type_crc w) (log_number w) t ptr
      in case emit_writes ops (manual_flush w) header ptr (dest w) of
           None \<Rightarrow> None
         | Some (s, d) \<Rightarrow>
             Some (s, w\<lparr>dest := d, block_offset := block_offset w + (header_size + length ptr)\<rparr>))"

definition fragment_type :: "bool \<Rightarrow> bool \<Rightarrow> bool \<Rightarrow> u32" where
  "fragment_type recycle bgn fin =
     (if bgn \<and> fin then if recycle then kRecyclableFullType else kFullType
      else if bgn then if recycle then kRecyclableFirstType else kFirstType
      else if fin then if recycle then kRecyclableLastType else kLastType
      else if recycle then kRecyclableMiddleType else kMiddleType)"

text \<open>The trailer of a block is filled with zeros; the status of that append is not looked at.\<close>

definition switch_block :: "'d LogDest \<Rightarrow> nat \<Rightarrow> 'd Writer \<Rightarrow> 'd Writer option" where
  "switch_block ops header_size w =
     (let leftover = kBlockSize - block_offset w
      in if leftover < header_size
         then if leftover > 0
              then map_option (\<lambda>(_, d). w\<lparr>dest := d, block_offset := 0\<rparr>)
                     (d_Append ops (replicate leftover 0) (dest w))
              else Some (w\<lparr>block_offset := 0\<rparr>)
         else Some w)"

definition header_size_of :: "bool \<Rightarrow> nat" where
  "header_size_of recycle = (if recycle then kRecyclableHeaderSize else kHeaderSize)"

lemma fragment_type_header:
  "(if fragment_type recycle bgn fin < kRecyclableFullType then kHeaderSize else kRecyclableHeaderSize)
   = header_size_of recycle"
  by (simp add: fragment_type_def header_size_of_def record_types)

lemma switch_block_offset:
  "switch_block ops hs w = Some w' \<Longrightarrow>
   block_offset w' = (if kBlockSize - block_offset w < hs then 0 else block_offset w)
   \<and> recycle_log_files w' = recycle_log_files w"
  by (auto simp: switch_block_def Let_def split: if_splits)

lemma EmitPhysicalRecord_offset:
  "EmitPhysicalRecord ops (fragment_type recycle bgn fin) ptr w = Some (s, w') \<Longrightarrow>
   block_offset w' = block_offset w + (header_size_of recycle + length ptr)
   \<and> recycle_log_files w' = recycle_log_files w"
  by (auto simp: EmitPhysicalRecord_def fragment_type_header Let_def split: option.splits)

lemma fragment_progress:
  fixes B hs n bo b1 b2 :: nat
  assumes "0 < hs" "hs < B" "b1 = (if B - bo < hs then 0 else bo)"
    and "b2 = b1 + (hs + (B - b1 - hs))" and "B - b1 - hs < n"
  shows "2 * (n - (B - b1 - hs)) + (if B - b2 = hs then 1 else 0)
    < 2 * n + (if B - bo = hs then 1 else (0 :: nat))"
proof (cases "B - b1 - hs = 0")
  case True
  with assms(1-3) have "B - bo = hs" by (auto split: if_splits)
  moreover have "B - b2 \<noteq> hs" using assms(1,2,4) True by auto
  ultimately show ?thesis using True by simp
next
  case False
  then show ?thesis using assms(5) by auto
qed

lemma header_size_bounds: "0 < header_size_of recycle" "header_size_of recycle < kBlockSize"
  by (simp_all add: header_size_of_def log_sizes)

function AddRecord_loop ::
    "'d LogDest \<Rightarrow> slice \<Rightarrow> bool \<Rightarrow> 'd Writer \<Rightarrow> (Status \<times> 'd Writer) option" where
  "AddRecord_loop ops ptr bgn w =
     (let header_size = header_size_of (recycle_log_files w)
      in case switch_block ops header_size w of
           None \<Rightarrow> None
         | Some w \<Rightarrow>
             (let avail = kBlockSize - block_offset w - header_size;
                  fragment_length = (if length ptr < avail then length ptr else avail);
                  fin = (length ptr = fragment_length);
                  t = fragment_type (recycle_log_files w) bgn fin
              in case EmitPhysicalRecord ops t (take fragment_length ptr) w of
                   None \<Rightarrow> None
                 | Some (s, w) \<Rightarrow>
                     if ok s \<and> length ptr - fragment_length > 0
                     then AddRecord_loop ops (drop fragment_length ptr) False w
                     else Some (s, w)))"
  by pat_completeness auto

termination AddRecord_loop
proof (relation "measure (\<lambda>(ops, ptr, bgn, w). 2 * length ptr +
    (if kBlockSize - block_offset w = header_size_of (recycle_log_files w) then 1 else 0))", goal_cases)
  case 1
  show ?case by simp
next
  case (2 ops ptr bgn w hs w1 avail frag fin t sw s w2)
  have w1: "block_offset w1 = (if kBlockSize - block_offset w < hs then 0 else block_offset w)"
    "recycle_log_files w1 = recycle_log_files w"
    using switch_block_offset [OF 2(2)] by simp_all
  have w2: "block_offset w2 = block_offset w1 + (hs + frag)" "recycle_log_files w2 = recycle_log_files w1"
    using EmitPhysicalRecord_offset [of ops "recycle_log_files w1" bgn fin "take frag ptr" w1 s w2] 2
    by (auto simp: w1(2))
  have frag: "frag = avail" "avail = kBlockSize - block_offset w1 - hs" "frag < length ptr"
    using 2 by (auto split: if_splits)
  have hs: "hs = header_size_of (recycle_log_files w)" using 2(1) .
  have "kBlockSize - block_offset w1 - hs < length ptr"
    "block_offset w2 = block_offset w1 + (hs + (kBlockSize - block_offset w1 - hs))"
    using frag w2(1) by simp_all
  from fragment_progress [OF header_size_bounds [of "recycle_log_files w", folded hs] w1(1) this(2,1)]
  show ?case using frag(1,2) w1(2) w2(2) hs by simp
qed

declare AddRecord_loop.simps [simp del]

definition AddRecord :: "'d LogDest \<Rightarrow> slice \<Rightarrow> 'd Writer \<Rightarrow> (Status \<times> 'd Writer) option" where
  "AddRecord ops data w = AddRecord_loop ops data True w"

section \<open>The bytes of a record\<close>

text \<open>
  What \<open>AddRecord\<close> appends, as a function of the block offset: padding that fills a block, and
  fragments with their type.
\<close>

datatype piece = Pad nat | Frag u32 slice

definition next_block :: "bool \<Rightarrow> nat \<Rightarrow> piece list \<times> nat" where
  "next_block recycle off =
     (let leftover = kBlockSize - off
      in if leftover < header_size_of recycle
         then (if leftover > 0 then [Pad leftover] else [], 0) else ([], off))"

definition fragment_len :: "bool \<Rightarrow> nat \<Rightarrow> nat \<Rightarrow> nat" where
  "fragment_len recycle off n = min n (kBlockSize - off - header_size_of recycle)"

function record_pieces :: "bool \<Rightarrow> bool \<Rightarrow> nat \<Rightarrow> slice \<Rightarrow> piece list \<times> nat" where
  "record_pieces recycle bgn off ptr =
     (let (pre, o1) = next_block recycle off;
          frag = fragment_len recycle o1 (length ptr);
          o2 = o1 + (header_size_of recycle + frag);
          piece = Frag (fragment_type recycle bgn (length ptr = frag)) (take frag ptr);
          (rest, o3) = (if frag < length ptr then record_pieces recycle False o2 (drop frag ptr)
                        else ([], o2))
      in (pre @ piece # rest, o3))"
  by pat_completeness auto

termination record_pieces
proof (relation "measure (\<lambda>(recycle, bgn, off, ptr). 2 * length ptr +
    (if kBlockSize - off = header_size_of recycle then 1 else 0))", goal_cases)
  case 1
  show ?case by simp
next
  case (2 recycle bgn off ptr p pre o1 frag o2 piece)
  have o1: "o1 = (if kBlockSize - off < header_size_of recycle then 0 else off)"
    using 2(1,2) by (auto simp: next_block_def Let_def split: if_splits)
  have frag: "frag = kBlockSize - o1 - header_size_of recycle" "frag < length ptr"
    using 2 by (auto simp: fragment_len_def)
  then have "kBlockSize - o1 - header_size_of recycle < length ptr"
    "o2 = o1 + (header_size_of recycle + (kBlockSize - o1 - header_size_of recycle))"
    using 2(4) by simp_all
  from fragment_progress [OF header_size_bounds o1 this(2,1)]
  show ?case using frag by simp
qed

declare record_pieces.simps [simp del]

lemma record_pieces_unfold:
  assumes "next_block rc off = (pre, o1)" "frag = fragment_len rc o1 (length ptr)"
    and "t = fragment_type rc bgn (length ptr = frag)"
    and "(if frag < length ptr then record_pieces rc False (o1 + (header_size_of rc + frag)) (drop frag ptr)
          else ([], o1 + (header_size_of rc + frag))) = (rest, o3)"
  shows "record_pieces rc bgn off ptr = (pre @ Frag t (take frag ptr) # rest, o3)"
  unfolding record_pieces.simps [of rc bgn off ptr] Let_def assms(1) prod.case assms(2) [symmetric]
    assms(3) [symmetric] assms(4) ..

definition type_crcs :: "u32 list" where
  "type_crcs = map (\<lambda>i. Value [of_nat i]) [0..<Suc (unat kMaxRecordType)]"

fun piece_bytes :: "u64 \<Rightarrow> piece \<Rightarrow> slice" where
  "piece_bytes log_num (Pad n) = replicate n 0"
| "piece_bytes log_num (Frag t data) = record_header type_crcs log_num t data @ data"

definition pieces_bytes :: "u64 \<Rightarrow> piece list \<Rightarrow> slice" where
  "pieces_bytes log_num ps = concat (map (piece_bytes log_num) ps)"

lemma pieces_bytes_simps [simp]:
  "pieces_bytes ln [] = []"
  "pieces_bytes ln (p # ps) = piece_bytes ln p @ pieces_bytes ln ps"
  "pieces_bytes ln (ps @ qs) = pieces_bytes ln ps @ pieces_bytes ln qs"
  by (simp_all add: pieces_bytes_def)

text \<open>A destination whose operations succeed, and append.\<close>

locale log_dest =
  fixes ops :: "'d LogDest" and contents :: "'d \<Rightarrow> slice" and good :: "'d \<Rightarrow> bool"
  assumes good_append: "good d \<Longrightarrow>
      \<exists>s d'. d_Append ops data d = Some (s, d') \<and> ok s \<and> good d' \<and> contents d' = contents d @ data"
    and good_flush: "good d \<Longrightarrow>
      \<exists>s d'. d_Flush ops d = Some (s, d') \<and> ok s \<and> good d' \<and> contents d' = contents d"
begin

definition wrote :: "slice \<Rightarrow> nat \<Rightarrow> 'd Writer \<Rightarrow> 'd Writer \<Rightarrow> bool" where
  "wrote data off w w' \<longleftrightarrow> good (dest w') \<and> contents (dest w') = contents (dest w) @ data \<and>
     block_offset w' = off \<and> log_number w' = log_number w \<and>
     recycle_log_files w' = recycle_log_files w \<and> type_crc w' = type_crc w"

lemma emit_writes_good:
  assumes "good d"
  shows "\<exists>s d'. emit_writes ops manual header payload d = Some (s, d') \<and> ok s \<and> good d' \<and>
    contents d' = contents d @ header @ payload"
proof -
  obtain s1 d1 where 1: "d_Append ops header d = Some (s1, d1)" "ok s1" "good d1"
    "contents d1 = contents d @ header"
    using good_append [OF assms] by blast
  obtain s2 d2 where 2: "d_Append ops payload d1 = Some (s2, d2)" "ok s2" "good d2"
    "contents d2 = contents d1 @ payload"
    using good_append [OF 1(3)] by blast
  show ?thesis
    using 1 2 good_flush [OF 2(3)] by (auto simp: emit_writes_def)
qed

lemma Emit_wrote:
  assumes "good (dest w)" "type_crc w = type_crcs" "recycle_log_files w = recycle"
  shows "\<exists>s w'. EmitPhysicalRecord ops (fragment_type recycle bgn fin) ptr w = Some (s, w') \<and> ok s \<and>
    wrote (piece_bytes (log_number w) (Frag (fragment_type recycle bgn fin) ptr))
      (block_offset w + (header_size_of recycle + length ptr)) w w'"
proof -
  define t where "t = fragment_type recycle bgn fin"
  obtain s d where "emit_writes ops (manual_flush w) (record_header (type_crc w) (log_number w) t ptr) ptr
      (dest w) = Some (s, d)" "ok s" "good d"
    "contents d = contents (dest w) @ record_header (type_crc w) (log_number w) t ptr @ ptr"
    using emit_writes_good [OF assms(1)] by blast
  then show ?thesis
    using assms(2,3) fragment_type_header [of recycle bgn fin]
    by (simp add: EmitPhysicalRecord_def t_def [symmetric] wrote_def Let_def)
qed

lemma switch_wrote:
  assumes "good (dest w)"
  shows "\<exists>w'. switch_block ops (header_size_of (recycle_log_files w)) w = Some w' \<and>
    wrote (pieces_bytes ln (fst (next_block (recycle_log_files w) (block_offset w))))
      (snd (next_block (recycle_log_files w) (block_offset w))) w w'"
  using assms good_append [OF assms, of "replicate (kBlockSize - block_offset w) 0"]
  by (auto simp: switch_block_def next_block_def wrote_def Let_def)

lemma AddRecord_loop_wrote:
  "good (dest w) \<Longrightarrow> type_crc w = type_crcs \<Longrightarrow>
   \<exists>s w'. AddRecord_loop ops ptr bgn w = Some (s, w') \<and> ok s \<and>
     wrote (pieces_bytes (log_number w) (fst (record_pieces (recycle_log_files w) bgn (block_offset w) ptr)))
       (snd (record_pieces (recycle_log_files w) bgn (block_offset w) ptr)) w w'"
proof (induction "recycle_log_files w" bgn "block_offset w" ptr arbitrary: w rule: record_pieces.induct)
  case (1 bgn ptr)
  define rc where "rc = recycle_log_files w"
  obtain pre o1 where nb: "next_block rc (block_offset w) = (pre, o1)" by fastforce
  obtain w1 where w1: "switch_block ops (header_size_of rc) w = Some w1"
    "wrote (pieces_bytes (log_number w) pre) o1 w w1"
    using switch_wrote [OF 1(2), of "log_number w"] nb unfolding rc_def by auto
  then have w1s: "block_offset w1 = o1" "recycle_log_files w1 = rc" "log_number w1 = log_number w"
    "type_crc w1 = type_crcs" "good (dest w1)"
    using 1(3) by (simp_all add: wrote_def rc_def)
  define frag where "frag = fragment_len rc o1 (length ptr)"
  define t where "t = fragment_type rc bgn (length ptr = frag)"
  have fl: "length (take frag ptr) = frag" by (simp add: frag_def fragment_len_def)
  obtain s2 w2 where w2: "EmitPhysicalRecord ops t (take frag ptr) w1 = Some (s2, w2)" "ok s2"
    "wrote (piece_bytes (log_number w) (Frag t (take frag ptr))) (o1 + (header_size_of rc + frag)) w1 w2"
    using Emit_wrote [OF w1s(5,4,2), of bgn "length ptr = frag" "take frag ptr"]
    unfolding t_def [symmetric] w1s fl by blast
  then have w2s: "block_offset w2 = o1 + (header_size_of rc + frag)" "recycle_log_files w2 = rc"
    "log_number w2 = log_number w" "type_crc w2 = type_crcs" "good (dest w2)"
    using w1s by (simp_all add: wrote_def)
  have unfold_loop: "AddRecord_loop ops ptr bgn w =
      (if frag < length ptr then AddRecord_loop ops (drop frag ptr) False w2 else Some (s2, w2))"
  proof -
    have f: "(if length ptr < kBlockSize - o1 - header_size_of rc then length ptr
        else kBlockSize - o1 - header_size_of rc) = frag"
      by (auto simp: frag_def fragment_len_def)
    show ?thesis
      unfolding AddRecord_loop.simps [of ops ptr bgn w] Let_def rc_def [symmetric] w1(1) option.case w1s f
        t_def [symmetric] w2(1) prod.case
      using w2(2) by simp
  qed
  show ?case
  proof (cases "frag < length ptr")
    case True
    obtain s3 w3 where w3: "AddRecord_loop ops (drop frag ptr) False w2 = Some (s3, w3)" "ok s3"
      "wrote (pieces_bytes (log_number w) (fst (record_pieces rc False (o1 + (header_size_of rc + frag)) (drop frag ptr))))
        (snd (record_pieces rc False (o1 + (header_size_of rc + frag)) (drop frag ptr))) w2 w3"
      using 1(1) [OF nb [unfolded rc_def, symmetric] refl frag_def [unfolded rc_def]
          w2s(1) [unfolded rc_def] refl True w2s(2) [unfolded rc_def, symmetric] w2s(5,4)]
      unfolding w2s by blast
    obtain rest o3 where rest: "record_pieces rc False (o1 + (header_size_of rc + frag)) (drop frag ptr)
        = (rest, o3)" by fastforce
    have "record_pieces rc bgn (block_offset w) ptr = (pre @ Frag t (take frag ptr) # rest, o3)"
      using True by (intro record_pieces_unfold [OF nb frag_def t_def]) (simp add: rest)
    then show ?thesis
      using True w3 w2(3) w1(2) unfold_loop rest unfolding rc_def [symmetric] wrote_def by simp
  next
    case False
    have "record_pieces rc bgn (block_offset w) ptr =
        (pre @ [Frag t (take frag ptr)], o1 + (header_size_of rc + frag))"
      using False by (intro record_pieces_unfold [OF nb frag_def t_def]) simp
    then show ?thesis
      using False w2 w1(2) unfold_loop unfolding rc_def [symmetric] wrote_def by simp
  qed
qed

end

text \<open>The buffered file writer as destination.\<close>

definition file_dest :: "PosixWritableFile WritableFileWriter LogDest" where
  "file_dest = \<lparr>d_Append = FW_Append posix_ops, d_Flush = FW_Flush posix_ops\<rparr>"

definition file_contents :: "PosixWritableFile WritableFileWriter \<Rightarrow> slice" where
  "file_contents d = pw_bytes (fw_file d) @ buf_data d"

definition file_good :: "PosixWritableFile WritableFileWriter \<Rightarrow> bool" where
  "file_good d \<longleftrightarrow> FW_inv d \<and> posix_healthy (fw_file d)"

interpretation file_log: log_dest file_dest file_contents file_good
proof
  fix d data
  assume d: "file_good d"
  then have inv: "FW_inv d" and healthy: "posix_healthy (fw_file d)" by (simp_all add: file_good_def)
  show "\<exists>s d'. d_Append file_dest data d = Some (s, d') \<and> ok s \<and> file_good d' \<and>
      file_contents d' = file_contents d @ data"
    by (rule posix_buffered.Append_spec [OF inv, of data])
      (use healthy in \<open>auto simp: file_dest_def file_good_def file_contents_def\<close>)
  show "\<exists>s d'. d_Flush file_dest d = Some (s, d') \<and> ok s \<and> file_good d' \<and> file_contents d' = file_contents d"
    by (rule posix_buffered.Flush_spec [OF inv])
      (use healthy in \<open>auto simp: file_dest_def file_good_def file_contents_def\<close>)
qed

section \<open>Blocks\<close>

lemma length_record_header [simp]:
  "length (record_header tcrc ln t ptr) = (if t < kRecyclableFullType then kHeaderSize else kRecyclableHeaderSize)"
  by (simp add: record_header_def log_sizes Let_def)

lemma length_frag:
  "length (piece_bytes ln (Frag (fragment_type recycle bgn fin) data)) = header_size_of recycle + length data"
  using fragment_type_header [of recycle bgn fin] by simp

lemma next_block_aligned:
  assumes "next_block recycle off = (pre, o1)" "off \<le> kBlockSize"
  shows "o1 + header_size_of recycle \<le> kBlockSize \<and>
    (length (pieces_bytes ln pre) + off) mod kBlockSize = o1 mod kBlockSize"
  using assms header_size_bounds [of recycle] by (auto simp: next_block_def Let_def split: if_splits)

lemma record_pieces_aligned:
  "off \<le> kBlockSize \<Longrightarrow> record_pieces recycle bgn off ptr = (ps, o3) \<Longrightarrow>
   o3 \<le> kBlockSize \<and> (length (pieces_bytes ln ps) + off) mod kBlockSize = o3 mod kBlockSize"
proof (induction recycle bgn off ptr arbitrary: ps o3 rule: record_pieces.induct)
  case (1 recycle bgn off ptr)
  obtain pre o1 where nb: "next_block recycle off = (pre, o1)" by fastforce
  define frag where "frag = fragment_len recycle o1 (length ptr)"
  define o2 where "o2 = o1 + (header_size_of recycle + frag)"
  obtain rest o4 where rest: "(if frag < length ptr then record_pieces recycle False o2 (drop frag ptr)
      else ([], o2)) = (rest, o4)" by fastforce
  have o1: "o1 + header_size_of recycle \<le> kBlockSize"
    "(length (pieces_bytes ln pre) + off) mod kBlockSize = o1 mod kBlockSize"
    using next_block_aligned [OF nb 1(2)] by blast+
  have o2: "o2 \<le> kBlockSize" "frag \<le> length ptr"
    using o1(1) by (auto simp: o2_def frag_def fragment_len_def)
  have tail: "o4 \<le> kBlockSize \<and> (length (pieces_bytes ln rest) + o2) mod kBlockSize = o4 mod kBlockSize"
  proof (cases "frag < length ptr")
    case True
    then show ?thesis
      using 1(1) [OF nb [symmetric] refl frag_def o2_def refl True o2(1)] rest by simp
  qed (use rest o2 in auto)
  define t where "t = fragment_type recycle bgn (length ptr = frag)"
  have ps: "ps = pre @ Frag t (take frag ptr) # rest" "o3 = o4"
    using record_pieces_unfold [OF nb frag_def t_def rest [unfolded o2_def]] 1(3) by simp_all
  have len: "length (pieces_bytes ln ps) + off =
      (length (pieces_bytes ln rest) + (header_size_of recycle + frag)) + (length (pieces_bytes ln pre) + off)"
    using o2(2) length_frag [of ln recycle bgn "length ptr = frag" "take frag ptr"]
    unfolding ps(1) t_def pieces_bytes_simps length_append by simp
  have "(length (pieces_bytes ln ps) + off) mod kBlockSize =
      ((length (pieces_bytes ln rest) + (header_size_of recycle + frag)) + o1) mod kBlockSize"
    unfolding len using o1(2) by (metis mod_add_right_eq)
  then show ?case using tail ps(2) by (simp add: o2_def add.assoc add.commute add.left_commute)
qed

text \<open>The writer's offset in its block is the position of the destination.\<close>

definition Writer_inv :: "('d \<Rightarrow> slice) \<Rightarrow> 'd Writer \<Rightarrow> bool" where
  "Writer_inv contents w \<longleftrightarrow> block_offset w \<le> kBlockSize \<and>
     length (contents (dest w)) mod kBlockSize = block_offset w mod kBlockSize \<and> type_crc w = type_crcs"

text \<open>C15: on a healthy file \<open>AddRecord\<close> returns, succeeds and keeps the writer's invariant.\<close>

theorem add_record_block_invariant:
  assumes "file_good (dest w)" "Writer_inv file_contents w"
  shows "\<exists>s w'. AddRecord file_dest data w = Some (s, w') \<and> ok s \<and> file_good (dest w') \<and>
    Writer_inv file_contents w' \<and>
    file_contents (dest w') = file_contents (dest w) @
      pieces_bytes (log_number w) (fst (record_pieces (recycle_log_files w) True (block_offset w) data))"
proof -
  obtain ps o3 where ps: "record_pieces (recycle_log_files w) True (block_offset w) data = (ps, o3)"
    by fastforce
  have inv: "block_offset w \<le> kBlockSize" "type_crc w = type_crcs"
    "length (file_contents (dest w)) mod kBlockSize = block_offset w mod kBlockSize"
    using assms(2) by (simp_all add: Writer_inv_def)
  obtain s w' where w': "AddRecord_loop file_dest data True w = Some (s, w')" "ok s"
    "file_log.wrote (pieces_bytes (log_number w) ps) o3 w w'"
    using file_log.AddRecord_loop_wrote [OF assms(1) inv(2), of data True] ps by auto
  have "(length (pieces_bytes (log_number w) ps) + length (file_contents (dest w))) mod kBlockSize
      = o3 mod kBlockSize" "o3 \<le> kBlockSize"
    using record_pieces_aligned [OF inv(1) ps, of "log_number w"] inv(3) by (metis mod_add_right_eq)+
  then show ?thesis
    using w' ps inv by (auto simp: AddRecord_def Writer_inv_def file_log.wrote_def add.commute)
qed


definition sample_log :: "PosixWritableFile WritableFileWriter Writer" where
  "sample_log = \<lparr>dest = sample_writer, block_offset = 0, log_number = 7, recycle_log_files = True,
     manual_flush = True, type_crc = type_crcs\<rparr>"

lemma sample_log_ok: "file_good (dest sample_log) \<and> Writer_inv file_contents sample_log"
  by (simp add: sample_log_def sample_writer_def file_good_def FW_inv_def posix_healthy_def Writer_inv_def
      file_contents_def)

theorem add_record_block_invariant_witness:
  "\<exists>s w'. AddRecord file_dest [1, 2, 3] sample_log = Some (s, w') \<and> ok s \<and> Writer_inv file_contents w' \<and>
     length (file_contents (dest w')) = 14"
proof -
  have rp: "record_pieces True True 0 [1, 2, 3] = ([Frag kRecyclableFullType [1, 2, 3]], 14)"
    by (subst record_pieces.simps)
      (simp add: next_block_def fragment_len_def header_size_of_def log_sizes fragment_type_def)
  have sl: "recycle_log_files sample_log = True" "block_offset sample_log = 0"
    "file_contents (dest sample_log) = []"
    by (simp_all add: sample_log_def sample_writer_def file_contents_def)
  have len: "length (pieces_bytes ln [Frag kRecyclableFullType [1, 2, 3]]) = 14" for ln
    by (simp add: log_sizes)
  obtain s w' where w': "AddRecord file_dest [1, 2, 3] sample_log = Some (s, w')" "ok s"
    "Writer_inv file_contents w'"
    "file_contents (dest w') = pieces_bytes (log_number sample_log) [Frag kRecyclableFullType [1, 2, 3]]"
    using add_record_block_invariant [OF conjunct1 [OF sample_log_ok] conjunct2 [OF sample_log_ok], of "[1, 2, 3]"]
    unfolding sl rp fst_conv append_Nil by blast
  show ?thesis using w'(1-3) len w'(4) [THEN arg_cong, of length] by auto
qed




end
