(* ===== verification/LogReader.thy ===== *)
theory LogReader
  imports LogWriter
begin

text \<open>
  \<^verbatim>\<open>db/log_reader.cc\<close>: reading the write-ahead log back. \<open>ReadRecord\<close> is a partial function, since
  its loop has no bound of its own; \<open>None\<close> stands for a call that never returns.
\<close>

datatype WALRecoveryMode =
  kTolerateCorruptedTailRecords | kAbsoluteConsistency | kPointInTimeRecovery | kSkipAnyCorruptedRecords

definition kEof :: u32 where "kEof = kMaxRecordType + 1"
definition kBadRecord :: u32 where "kBadRecord = kMaxRecordType + 2"
definition kBadHeader :: u32 where "kBadHeader = kMaxRecordType + 3"
definition kOldRecord :: u32 where "kOldRecord = kMaxRecordType + 4"
definition kBadRecordLen :: u32 where "kBadRecordLen = kMaxRecordType + 5"
definition kBadRecordChecksum :: u32 where "kBadRecordChecksum = kMaxRecordType + 6"

lemmas reader_codes = kEof_def kBadRecord_def kBadHeader_def kOldRecord_def kBadRecordLen_def
  kBadRecordChecksum_def

record 'f SequentialFile =
  r_Read :: "nat \<Rightarrow> 'f \<Rightarrow> Status \<times> slice \<times> 'f"
  r_Skip :: "nat \<Rightarrow> 'f \<Rightarrow> Status \<times> 'f"

record 'f Reader =
  rd_file :: 'f
  has_reporter :: bool
  reports :: "(nat \<times> Status) list"
  checksum :: bool
  buffer :: slice
  eof :: bool
  read_error :: bool
  eof_offset :: nat
  last_record_offset :: u64
  end_of_buffer_offset :: u64
  initial_offset :: u64
  rd_log_number :: u64
  recycled :: bool

text \<open>\<open>reports\<close> collects what the reporter was told, oldest first.\<close>

definition Reader_make :: "'f \<Rightarrow> bool \<Rightarrow> bool \<Rightarrow> u64 \<Rightarrow> u64 \<Rightarrow> 'f Reader" where
  "Reader_make file reporter csum initial log_num =
     \<lparr>rd_file = file, has_reporter = reporter, reports = [], checksum = csum, buffer = [],
      eof = False, read_error = False, eof_offset = 0, last_record_offset = 0,
      end_of_buffer_offset = 0, initial_offset = initial, rd_log_number = log_num, recycled = False\<rparr>"

definition ReportDrop :: "nat \<Rightarrow> Status \<Rightarrow> 'f Reader \<Rightarrow> 'f Reader" where
  "ReportDrop bytes reason r =
     (if has_reporter r
         \<and> end_of_buffer_offset r - of_nat (length (buffer r)) - of_nat bytes \<ge> initial_offset r
      then r\<lparr>reports := reports r @ [(bytes, reason)]\<rparr> else r)"

definition ReportCorruption :: "nat \<Rightarrow> string \<Rightarrow> 'f Reader \<Rightarrow> 'f Reader" where
  "ReportCorruption bytes reason r = ReportDrop bytes (Corruption reason) r"

definition SkipToInitialBlock :: "'f SequentialFile \<Rightarrow> 'f Reader \<Rightarrow> bool \<times> 'f Reader" where
  "SkipToInitialBlock ops r =
     (let initial_offset_in_block = initial_offset r mod of_nat kBlockSize;
          block_start_location = initial_offset r - initial_offset_in_block;
          block_start_location =
            (if initial_offset_in_block > of_nat (kBlockSize - 6)
             then block_start_location + of_nat kBlockSize else block_start_location);
          r = r\<lparr>end_of_buffer_offset := block_start_location\<rparr>
      in if block_start_location > 0
         then let (skip_status, f) = r_Skip ops (unat block_start_location) (rd_file r);
                  r = r\<lparr>rd_file := f\<rparr>
              in if \<not> ok skip_status then (False, ReportDrop (unat block_start_location) skip_status r)
                 else (True, r)
         else (True, r))"

text \<open>\<open>Inl (error, drop_size)\<close> for a call that returns false.\<close>

definition ReadMore :: "'f SequentialFile \<Rightarrow> 'f Reader \<Rightarrow> (u32 \<times> nat + unit) \<times> 'f Reader" where
  "ReadMore ops r =
     (if \<not> eof r \<and> \<not> read_error r
      then let (status, data, f) = r_Read ops kBlockSize (rd_file r);
               r = r\<lparr>rd_file := f, buffer := data,
                     end_of_buffer_offset := end_of_buffer_offset r + of_nat (length data)\<rparr>
           in if \<not> ok status
              then (Inl (kEof, 0), (ReportDrop kBlockSize status (r\<lparr>buffer := []\<rparr>))\<lparr>read_error := True\<rparr>)
              else if length (buffer r) < kBlockSize
                   then (Inr (), r\<lparr>eof := True, eof_offset := length (buffer r)\<rparr>)
              else (Inr (), r)
      else if length (buffer r) > 0
           then (Inl (kBadHeader, length (buffer r)), r\<lparr>buffer := []\<rparr>)
      else (Inl (kEof, 0), r\<lparr>buffer := []\<rparr>))"

definition is_recyclable :: "u32 \<Rightarrow> bool" where
  "is_recyclable t \<longleftrightarrow> t \<ge> kRecyclableFullType \<and> t \<le> kRecyclableLastType"

text \<open>Parsing once the header is in the buffer: record type, payload and \<open>drop_size\<close>.\<close>

definition ParseRecord :: "nat \<Rightarrow> u32 \<Rightarrow> nat \<Rightarrow> 'f Reader \<Rightarrow> (u32 \<times> slice \<times> nat) \<times> 'f Reader" where
  "ParseRecord header_size t len r =
     (let header = buffer r
      in if header_size + len > length (buffer r)
         then let drop_size = length (buffer r); r = r\<lparr>buffer := []\<rparr>
              in if \<not> eof r then ((kBadRecordLen, [], drop_size), r)
                 else if drop_size \<noteq> 0 then ((kBadHeader, [], drop_size), r)
                 else ((kEof, [], drop_size), r)
         else if t = kZeroType \<and> len = 0 then ((kBadRecord, [], 0), r\<lparr>buffer := []\<rparr>)
         else if checksum r \<and>
                 Value (take (len + header_size - 6) (drop 6 header)) \<noteq> Unmask (DecodeFixed32 header)
              then ((kBadRecordChecksum, [], length (buffer r)), r\<lparr>buffer := []\<rparr>)
         else let r = r\<lparr>buffer := drop (header_size + len) (buffer r)\<rparr>
              in if end_of_buffer_offset r - of_nat (length (buffer r)) - of_nat header_size - of_nat len
                    < initial_offset r
                 then ((kBadRecord, [], 0), r)
                 else ((t, take len (drop header_size header), 0), r))"

definition record_type :: "slice \<Rightarrow> u32" where
  "record_type header = scast (header ! 6)"

definition record_length :: "slice \<Rightarrow> u32" where
  "record_length header =
     (let a = scast (header ! 4) AND 0xff; b = scast (header ! 5) AND 0xff in a OR push_bit 8 b)"

lemma ReadMore_progress:
  "ReadMore ops r = (Inr u, r') \<Longrightarrow>
   (\<not> eof r \<and> \<not> read_error r) \<and> (eof r' \<or> kBlockSize \<le> length (buffer r'))"
  by (auto simp: ReadMore_def Let_def split: if_splits prod.splits)

function ReadPhysicalRecord :: "'f SequentialFile \<Rightarrow> 'f Reader \<Rightarrow> (u32 \<times> slice \<times> nat) \<times> 'f Reader" where
  "ReadPhysicalRecord ops r =
     (if length (buffer r) < kHeaderSize
      then case ReadMore ops r of
             (Inl (e, drop_size), r1) \<Rightarrow> ((e, [], drop_size), r1)
           | (Inr _, r1) \<Rightarrow> ReadPhysicalRecord ops r1
      else let header = buffer r; t = record_type header; len = record_length header
           in if is_recyclable t
              then let r2 = (if end_of_buffer_offset r - of_nat (length (buffer r)) = 0
                             then r\<lparr>recycled := True\<rparr> else r)
                   in if length (buffer r) < kRecyclableHeaderSize
                      then case ReadMore ops r2 of
                             (Inl (e, drop_size), r1) \<Rightarrow> ((e, [], drop_size), r1)
                           | (Inr _, r1) \<Rightarrow> ReadPhysicalRecord ops r1
                      else if ucast (DecodeFixed32 (drop 7 header)) \<noteq> rd_log_number r2
                           then ((kOldRecord, [], 0), r2)
                      else ParseRecord kRecyclableHeaderSize t (unat len) r2
              else ParseRecord kHeaderSize t (unat len) r)"
  by pat_completeness auto

termination ReadPhysicalRecord
proof (relation "measure (\<lambda>(ops, r). if eof r \<or> read_error r then 0
    else if length (buffer r) < kRecyclableHeaderSize then 2 else 1)", goal_cases)
  case 1
  show ?case by simp
next
  case (2 ops r p r1 u)
  then show ?case using ReadMore_progress [of ops r u r1] by (auto simp: log_sizes)
next
  case (3 ops r header t len r2 p r1 u)
  have "\<not> eof r2 \<and> \<not> read_error r2" "eof r1 \<or> kBlockSize \<le> length (buffer r1)"
    using ReadMore_progress [of ops r2 u r1] 3 by auto
  moreover have "eof r2 = eof r" "read_error r2 = read_error r" using 3 by auto
  ultimately show ?case using 3(7) by (auto simp: log_sizes)
qed

declare ReadPhysicalRecord.simps [simp del]

partial_function (option) ReadRecord_loop ::
    "'f SequentialFile \<Rightarrow> WALRecoveryMode \<Rightarrow> slice \<Rightarrow> bool \<Rightarrow> u64 \<Rightarrow> 'f Reader
     \<Rightarrow> (slice option \<times> 'f Reader) option" where
  "ReadRecord_loop ops mode scratch in_fragmented_record prospective r0 =
     (let physical_record_offset = end_of_buffer_offset r0 - of_nat (length (buffer r0));
          (res, r) = ReadPhysicalRecord ops r0; (t, fragment, drop_size) = res
      in if t = kFullType \<or> t = kRecyclableFullType
         then let r = (if in_fragmented_record \<and> scratch \<noteq> []
                       then ReportCorruption (length scratch) ''partial record without end(1)'' r else r)
              in Some (Some fragment, r\<lparr>last_record_offset := physical_record_offset\<rparr>)
         else if t = kFirstType \<or> t = kRecyclableFirstType
         then ReadRecord_loop ops mode fragment True physical_record_offset
                (if in_fragmented_record \<and> scratch \<noteq> []
                 then ReportCorruption (length scratch) ''partial record without end(2)'' r else r)
         else if t = kMiddleType \<or> t = kRecyclableMiddleType
         then if \<not> in_fragmented_record
              then ReadRecord_loop ops mode scratch False prospective
                     (ReportCorruption (length fragment) ''missing start of fragmented record(1)'' r)
              else ReadRecord_loop ops mode (scratch @ fragment) True prospective r
         else if t = kLastType \<or> t = kRecyclableLastType
         then if \<not> in_fragmented_record
              then ReadRecord_loop ops mode scratch False prospective
                     (ReportCorruption (length fragment) ''missing start of fragmented record(2)'' r)
              else Some (Some (scratch @ fragment), r\<lparr>last_record_offset := prospective\<rparr>)
         else if t = kBadHeader \<or> t = kEof
         then let r = (if t = kBadHeader \<and> mode = kAbsoluteConsistency
                       then ReportCorruption drop_size ''truncated header'' r else r);
                  r = (if in_fragmented_record \<and> mode = kAbsoluteConsistency
                       then ReportCorruption (length scratch) ''error reading trailing data'' r else r)
              in Some (None, r)
         else if t = kOldRecord \<and> mode \<noteq> kSkipAnyCorruptedRecords
         then Some (None, if in_fragmented_record \<and> mode = kAbsoluteConsistency
                          then ReportCorruption (length scratch) ''error reading trailing data'' r else r)
         else if t = kOldRecord \<or> t = kBadRecord
         then if in_fragmented_record
              then ReadRecord_loop ops mode [] False prospective
                     (ReportCorruption (length scratch) ''error in middle of record'' r)
              else ReadRecord_loop ops mode scratch False prospective r
         else if t = kBadRecordLen \<or> t = kBadRecordChecksum
         then if recycled r \<and> mode = kTolerateCorruptedTailRecords then Some (None, r)
              else let r = ReportCorruption drop_size
                             (if t = kBadRecordLen then ''bad record length'' else ''checksum mismatch'') r
                   in if in_fragmented_record
                      then ReadRecord_loop ops mode [] False prospective
                             (ReportCorruption (length scratch) ''error in middle of record'' r)
                      else ReadRecord_loop ops mode scratch False prospective r
         else ReadRecord_loop ops mode [] False prospective
                (ReportCorruption (length fragment + (if in_fragmented_record then length scratch else 0))
                   (''unknown record type '' @ decimal (unat t)) r))"

definition ReadRecord ::
    "'f SequentialFile \<Rightarrow> WALRecoveryMode \<Rightarrow> 'f Reader \<Rightarrow> (slice option \<times> 'f Reader) option" where
  "ReadRecord ops mode r =
     (if last_record_offset r < initial_offset r
      then let (fine, r) = SkipToInitialBlock ops r
           in if \<not> fine then Some (None, r) else ReadRecord_loop ops mode [] False 0 r
      else ReadRecord_loop ops mode [] False 0 r)"

definition UnmarkEOF :: "'f SequentialFile \<Rightarrow> 'f Reader \<Rightarrow> 'f Reader" where
  "UnmarkEOF ops r =
     (if read_error r then r
      else let r = r\<lparr>eof := False\<rparr>
           in if eof_offset r = 0 then r
              else let remaining = kBlockSize - eof_offset r;
                       (status, read_buffer, f) = r_Read ops remaining (rd_file r);
                       added = length read_buffer;
                       r = r\<lparr>rd_file := f,
                             end_of_buffer_offset := end_of_buffer_offset r + of_nat added\<rparr>
                   in if \<not> ok status
                      then (if added > 0 then ReportDrop added status r else r)\<lparr>read_error := True\<rparr>
                      else let r = r\<lparr>buffer := buffer r @ read_buffer\<rparr>
                           in if added < remaining
                              then r\<lparr>eof := True, eof_offset := eof_offset r + added\<rparr>
                              else r\<lparr>eof_offset := 0\<rparr>)"

section \<open>Reading what the writer wrote\<close>

subsection \<open>One physical record\<close>

lemma record_length_word:
  fixes w :: u32
  assumes "take_bit 16 w = w"
  shows "(scast ((ucast w AND 0xff) :: byte) AND 0xff) OR
    push_bit 8 (scast (ucast (drop_bit 8 w) :: byte) AND 0xff) = w" (is "?l = w")
proof (rule bit_word_eqI)
  fix k assume k: "k < LENGTH(32)"
  have "bit w k \<longleftrightarrow> bit w k \<and> k < 16" using assms by (metis bit_take_bit_iff)
  moreover have 255: "(255 :: u32) = mask 8" "(255 :: byte) = mask 8"
    by (simp_all add: mask_eq_exp_minus_1)
  ultimately show "bit ?l k \<longleftrightarrow> bit w k"
    using k unfolding 255 by (cases "k < 8"; cases "k < 16") (auto simp add: bit_simps min_absorb2)
qed

lemma record_length_header:
  assumes "length data < 2 ^ 16"
  shows "record_length (record_header tcrc ln t data @ X) = of_nat (length data)"
proof -
  define w :: u32 where "w = of_nat (length data)"
  have u: "unat w = length data" using assms by (simp add: w_def unat_of_nat take_bit_nat_eq_self_iff)
  have "(of_nat (length data) :: byte) = ucast w"
    unfolding u [symmetric] by simp
  moreover have "(of_nat (length data div 2 ^ 8) :: byte) = ucast (drop_bit 8 w)"
    unfolding u [symmetric] by (metis drop_bit_eq_div of_nat_unat unat_drop_bit_eq)
  moreover have "take_bit 16 w = w"
    using assms u by (intro word_unat_eq_iff [THEN iffD2]) (simp add: unat_take_bit)
  ultimately show ?thesis
    using record_length_word [of w]
    by (simp add: record_length_def record_header_def nth_append w_def [symmetric] Let_def)
qed

lemma ucast_down_up: "ln < 2 ^ 32 \<Longrightarrow> ucast (ucast (ln :: u64) :: u32) = ln"
proof -
  assume "ln < 2 ^ 32"
  then have "take_bit 32 ln = ln"
    by (intro word_unat_eq_iff [THEN iffD2]) (simp add: unat_take_bit word_less_nat_alt)
  then have "bit ln k \<Longrightarrow> k < 32" for k by (metis bit_take_bit_iff)
  then show ?thesis by (intro bit_word_eqI) (auto simp: bit_simps)
qed

definition frag_types :: "u32 set" where
  "frag_types = {kFullType, kFirstType, kMiddleType, kLastType, kRecyclableFullType,
     kRecyclableFirstType, kRecyclableMiddleType, kRecyclableLastType}"

lemma fragment_type_in [simp]: "fragment_type rc bgn fin \<in> frag_types"
  by (simp add: fragment_type_def frag_types_def)

lemma frag_types_recyclable:
  "t \<in> frag_types \<Longrightarrow> (is_recyclable t \<longleftrightarrow> \<not> t < kRecyclableFullType) \<and> t \<noteq> kZeroType"
  by (auto simp: is_recyclable_def frag_types_def record_types word_le_nat_alt)

lemma record_type_header:
  "t \<in> frag_types \<Longrightarrow> record_type (record_header tcrc ln t data @ X) = t"
  by (auto simp: record_type_def record_header_def nth_append Let_def frag_types_def record_types)

lemma header_checksum:
  assumes "t \<in> frag_types" "hs = (if t < kRecyclableFullType then kHeaderSize else kRecyclableHeaderSize)"
    and "h = record_header type_crcs ln t data @ data @ X"
  shows "Value (take (length data + hs - 6) (drop 6 h)) = Unmask (DecodeFixed32 h)"
proof -
  define b7 where "b7 = (if t < kRecyclableFullType then [] else EncodeFixed32 (ucast ln))"
  have "type_crcs ! unat t = Value [ucast t]"
    using assms(1) by (auto simp: type_crcs_def frag_types_def record_types nth_append)
  then have h: "h = EncodeFixed32 (Mask (Value (ucast t # b7 @ data))) @
      [of_nat (length data) AND 0xff, of_nat (length data div 2 ^ 8)] @ (ucast t # b7 @ data) @ X"
    using assms(3) by (simp add: record_header_def Let_def Value_def Extend_append b7_def)
  have "length (ucast t # b7 @ data) = length data + hs - 6"
    using assms(2) by (simp add: b7_def log_sizes)
  moreover have "drop 6 h = (ucast t # b7 @ data) @ X"
    unfolding h by simp
  ultimately have "take (length data + hs - 6) (drop 6 h) = ucast t # b7 @ data"
    by (metis append_eq_conv_conj)
  moreover have "DecodeFixed32 h = Mask (Value (ucast t # b7 @ data))"
    unfolding h by (rule DecodeFixed32_Encode)
  ultimately show ?thesis by simp
qed

lemma header_log_number:
  assumes "\<not> t < kRecyclableFullType"
  shows "DecodeFixed32 (drop 7 (record_header tcrc ln t data @ X)) = ucast ln"
  using assms by (simp add: record_header_def Let_def codec_simps)

lemma ParseRecord_ok:
  assumes "hs + len \<le> length (buffer r)" "t \<noteq> kZeroType" "initial_offset r = 0"
    and "Value (take (len + hs - 6) (drop 6 (buffer r))) = Unmask (DecodeFixed32 (buffer r))"
  shows "ParseRecord hs t len r =
    ((t, take len (drop hs (buffer r)), 0), r\<lparr>buffer := drop (hs + len) (buffer r)\<rparr>)"
  using assms by (simp add: ParseRecord_def Let_def)

text \<open>A file whose reads succeed.\<close>

locale log_source = sequential_file "r_Read ops" "r_Skip ops" rest
  for ops :: "'f SequentialFile" and rest :: "'f \<Rightarrow> slice" +
  fixes good :: "'f \<Rightarrow> bool"
  assumes good_read: "good f \<Longrightarrow> r_Read ops n f = (s, data, f') \<Longrightarrow> ok s \<and> good f'"
begin

text \<open>
  The reader stands at offset \<open>off\<close> of its block, and \<open>T\<close> is what is left of the log: at the end of
  the file the buffer is a part of a block.
\<close>

definition reading :: "nat \<Rightarrow> slice \<Rightarrow> 'f Reader \<Rightarrow> bool" where
  "reading off T r \<longleftrightarrow> \<not> read_error r \<and> good (rd_file r) \<and> buffer r @ rest (rd_file r) = T \<and>
     initial_offset r = 0 \<and>
     (if eof r then rest (rd_file r) = [] \<and> off + length (buffer r) < kBlockSize
      else off + length (buffer r) = kBlockSize)"

definition same :: "'f Reader \<Rightarrow> 'f Reader \<Rightarrow> bool" where
  "same r r' \<longleftrightarrow> reports r' = reports r \<and> checksum r' = checksum r \<and> rd_log_number r' = rd_log_number r"

lemma same_trans: "same r r' \<Longrightarrow> same r' r'' \<Longrightarrow> same r r''"
  by (simp add: same_def)

lemma ReadMore_next:
  assumes "reading off T r" "\<not> eof r"
  shows "\<exists>r1. ReadMore ops r = (Inr (), r1) \<and> reading 0 (drop (length (buffer r)) T) r1 \<and> same r r1"
proof -
  obtain s data f where rd: "r_Read ops kBlockSize (rd_file r) = (s, data, f)"
    by (cases "r_Read ops kBlockSize (rd_file r)") auto
  have s: "ok s" "good f" using good_read rd assms(1) by (auto simp: reading_def)
  have d: "data = take kBlockSize (rest (rd_file r))" "rest (rd_file r) = data @ rest f" "length data \<le> kBlockSize"
    using read_ok [OF rd s(1)] read_rest [OF rd] by auto
  have e: "length data < kBlockSize \<Longrightarrow> rest f = []"
    using d(1,2) by (metis append_Nil2 append_take_drop_id length_take less_imp_le_nat min_def
        nat_less_le same_append_eq take_all)
  define r0 where "r0 = r\<lparr>rd_file := f, buffer := data,
      end_of_buffer_offset := end_of_buffer_offset r + of_nat (length data)\<rparr>"
  define r1 where "r1 = (if length data < kBlockSize then r0\<lparr>eof := True, eof_offset := length data\<rparr> else r0)"
  have re: "\<not> read_error r" "initial_offset r = 0" "buffer r @ rest (rd_file r) = T"
    using assms(1) by (simp_all add: reading_def)
  have "ReadMore ops r = (Inr (), r1)"
    using assms(2) re(1) rd s(1) by (simp add: ReadMore_def r1_def r0_def Let_def)
  moreover have "drop (length (buffer r)) T = data @ rest f"
    unfolding re(3) [symmetric] d(2) by simp
  then have "reading 0 (drop (length (buffer r)) T) r1"
    using assms(2) re(1,2) s(2) d(3) e by (simp add: reading_def r1_def r0_def)
  moreover have "same r r1" by (simp add: same_def r1_def r0_def)
  ultimately show ?thesis by blast
qed

lemma RPR_next:
  assumes "reading off T r" "\<not> eof r" "length (buffer r) < kHeaderSize"
  shows "\<exists>r1. ReadPhysicalRecord ops r = ReadPhysicalRecord ops r1 \<and>
    reading 0 (drop (length (buffer r)) T) r1 \<and> same r r1"
proof -
  obtain r1 where "ReadMore ops r = (Inr (), r1)" "reading 0 (drop (length (buffer r)) T) r1" "same r r1"
    using ReadMore_next [OF assms(1,2)] by blast
  then show ?thesis
    using assms(3) by (intro exI [of _ r1]) (simp add: ReadPhysicalRecord.simps [of ops r])
qed

definition at_end :: "'f Reader \<Rightarrow> bool" where
  "at_end r \<longleftrightarrow> (\<exists>e n r1. ReadPhysicalRecord ops r = ((e, [], n), r1) \<and> e \<in> {kBadHeader, kEof} \<and> same r r1)"

lemma RPR_short_header:
  assumes "reading off T r" "eof r" "length (buffer r) < kHeaderSize"
  shows "at_end r"
  using assms unfolding at_end_def
  by (subst ReadPhysicalRecord.simps) (auto simp: ReadMore_def same_def)

lemma RPR_fragment:
  assumes "reading off (piece_bytes ln (Frag t data) @ T) r" "t \<in> frag_types"
    and "off + length (piece_bytes ln (Frag t data)) \<le> kBlockSize"
    and "rd_log_number r = ln" "is_recyclable t \<Longrightarrow> ln < 2 ^ 32"
  shows "\<exists>r1. ReadPhysicalRecord ops r = ((t, data, 0), r1) \<and>
    reading (off + length (piece_bytes ln (Frag t data))) T r1 \<and> same r r1"
proof -
  define F where "F = piece_bytes ln (Frag t data)"
  define hs where "hs = (if t < kRecyclableFullType then kHeaderSize else kRecyclableHeaderSize)"
  have F: "length F = hs + length data" by (simp add: F_def hs_def)
  have buf: "buffer r @ rest (rd_file r) = F @ T" using assms(1) by (simp add: reading_def F_def)
  have lF: "length F \<le> length (buffer r)"
  proof (cases "eof r")
    case True
    then have "buffer r = F @ T" using assms(1) buf by (simp add: reading_def)
    then show ?thesis by simp
  qed (use assms(1,3) F_def in \<open>auto simp: reading_def\<close>)
  define B where "B = drop (length F) (buffer r)"
  have B: "buffer r = F @ B" "B @ rest (rd_file r) = T"
    using arg_cong [OF buf, of "take (length F)"] arg_cong [OF buf, of "drop (length F)"] lF
      append_take_drop_id [of "length F" "buffer r"] by (simp_all add: B_def)
  have bl: "length data < 2 ^ 16" using assms(3) F by (simp add: F_def [symmetric] kBlockSize_def)
  have h: "buffer r = record_header type_crcs ln t data @ data @ B" using B(1) by (simp add: F_def)
  have ty: "record_type (buffer r) = t" unfolding h by (rule record_type_header [OF assms(2)])
  have le: "unat (record_length (buffer r)) = length data"
    unfolding h record_length_header [OF bl] using bl by (simp add: unat_of_nat)
  have cs: "Value (take (length data + hs - 6) (drop 6 (buffer r))) = Unmask (DecodeFixed32 (buffer r))"
    by (rule header_checksum [OF assms(2) hs_def h])
  have rec: "is_recyclable t \<longleftrightarrow> \<not> t < kRecyclableFullType" "t \<noteq> kZeroType"
    using frag_types_recyclable [OF assms(2)] by blast+
  have len: "length (buffer r) = hs + length data + length B" using B(1) F by simp
  have parse: "\<exists>r1. ParseRecord hs t (length data) r' = ((t, data, 0), r1) \<and>
      reading (off + length F) T r1 \<and> same r r1"
    if "r' \<in> {r, r\<lparr>recycled := True\<rparr>}" for r'
  proof -
    have br: "buffer r' = buffer r" "initial_offset r' = 0"
      using that assms(1) by (auto simp: reading_def)
    have td: "take (length data) (drop hs (buffer r)) = data" "drop (hs + length data) (buffer r) = B"
      using F unfolding h by (simp_all add: hs_def)
    have "ParseRecord hs t (length data) r' = ((t, data, 0), r'\<lparr>buffer := B\<rparr>)"
      using ParseRecord_ok [of hs "length data" r' t] len rec(2) cs unfolding br td by simp
    moreover have "reading (off + length F) T (r'\<lparr>buffer := B\<rparr>)"
      using that assms(1) B(2) len F by (auto simp: reading_def)
    moreover have "same r (r'\<lparr>buffer := B\<rparr>)" using that by (auto simp: same_def)
    ultimately show ?thesis by blast
  qed
  show ?thesis
  proof (cases "t < kRecyclableFullType")
    case True
    then show ?thesis
      using parse [of r] len ty le rec hs_def
      by (subst ReadPhysicalRecord.simps) (simp add: Let_def F_def)
  next
    case False
    have "ucast (DecodeFixed32 (drop 7 (buffer r))) = ln"
      unfolding h header_log_number [OF False] using assms(5) rec(1) False
      by (simp add: ucast_down_up)
    then show ?thesis
      using parse [of r] parse [of "r\<lparr>recycled := True\<rparr>"] len ty le rec hs_def False assms(4)
      by (subst ReadPhysicalRecord.simps) (simp add: Let_def F_def log_sizes)
  qed
qed

end

lemma record_take:
  "7 \<le> n \<Longrightarrow> record_type (take n h) = record_type h"
  "7 \<le> n \<Longrightarrow> record_length (take n h) = record_length h"
  by (simp_all add: record_type_def record_length_def)

lemma record_zeros:
  "7 \<le> k \<Longrightarrow> record_type (replicate k 0) = kZeroType"
  "7 \<le> k \<Longrightarrow> record_length (replicate k 0) = 0"
  by (simp_all add: record_type_def record_length_def kZeroType_def)

lemma not_recyclable_zero: "\<not> is_recyclable kZeroType"
  by (simp add: is_recyclable_def record_types)

lemma DecodeFixed32_take: "4 \<le> n \<Longrightarrow> n \<le> length xs \<Longrightarrow> DecodeFixed32 (take n xs) = DecodeFixed32 xs"
proof -
  assume n: "4 \<le> n" "n \<le> length xs"
  then have "4 \<le> length xs" by simp
  then obtain a b c d ys where xs: "xs = a # b # c # d # ys" by (rule list_ge_4E)
  obtain m where "n = Suc (Suc (Suc (Suc m)))"
    using le_Suc_ex [OF n(1)] by (auto simp: numeral_eq_Suc)
  then show ?thesis using n xs by (simp add: DecodeFixed32_def DecodeFixed32_on_eq)
qed

lemma ParseRecord_short:
  "length (buffer r) < hs + len \<Longrightarrow> eof r \<Longrightarrow> 0 < length (buffer r) \<Longrightarrow>
   ParseRecord hs t len r = ((kBadHeader, [], length (buffer r)), r\<lparr>buffer := []\<rparr>)"
  by (simp add: ParseRecord_def Let_def)

context log_source
begin

lemma at_end_ReadMore:
  assumes "ReadPhysicalRecord ops r = (case ReadMore ops r2 of
             (Inl (e, drop_size), r1) \<Rightarrow> ((e, [], drop_size), r1)
           | (Inr _, r1) \<Rightarrow> ReadPhysicalRecord ops r1)" "eof r2" "same r r2"
  shows "at_end r"
  using assms by (auto simp: at_end_def ReadMore_def same_def)

lemma truncated_eof:
  assumes "reading off T r" "length T < k" "off + k \<le> kBlockSize"
  shows "eof r \<and> buffer r = T"
  using assms by (auto simp: reading_def split: if_splits)

lemma RPR_truncated:
  assumes "reading off (take n F) r" "F = piece_bytes ln (Frag t data)" "n < length F"
    and "off + length F \<le> kBlockSize" "t \<in> frag_types"
    and "rd_log_number r = ln" "is_recyclable t \<Longrightarrow> ln < 2 ^ 32"
  shows "at_end r"
proof -
  have b: "eof r" "buffer r = take n F" "length (buffer r) = n"
    using truncated_eof [OF assms(1) _ assms(4)] assms(3) by auto
  define hs where "hs = (if t < kRecyclableFullType then kHeaderSize else kRecyclableHeaderSize)"
  have h: "F = record_header type_crcs ln t data @ data" using assms(2) by simp
  have F: "length F = hs + length data" using assms(2) by (simp add: hs_def)
  have bl: "length data < 2 ^ 16" using assms(4) F by (simp add: kBlockSize_def)
  show ?thesis
  proof (cases "n < kHeaderSize")
    case True
    then show ?thesis using RPR_short_header [OF assms(1) b(1)] b(3) by simp
  next
    case False
    then have n7: "7 \<le> n" by (simp add: kHeaderSize_def)
    have ty: "record_type (buffer r) = t"
      unfolding b(2) record_take(1) [OF n7] h by (rule record_type_header [OF assms(5)])
    have le: "unat (record_length (buffer r)) = length data"
      unfolding b(2) record_take(2) [OF n7] h record_length_header [OF bl] using bl by (simp add: unat_of_nat)
    have parse: "\<exists>e m r1. ParseRecord hs t (length data) r' = ((e, [], m), r1) \<and> e \<in> {kBadHeader, kEof} \<and> same r r1"
      if "r' \<in> {r, r\<lparr>recycled := True\<rparr>}" for r'
    proof -
      have "ParseRecord hs t (length data) r' = ((kBadHeader, [], length (buffer r')), r'\<lparr>buffer := []\<rparr>)"
      proof (rule ParseRecord_short)
        show "length (buffer r') < hs + length data" "eof r'" "0 < length (buffer r')"
          using that b(1,3) F assms(3) n7 by auto
      qed
      moreover have "same r (r'\<lparr>buffer := []\<rparr>)" using that by (auto simp: same_def)
      ultimately show ?thesis by blast
    qed
    show ?thesis
    proof (cases "is_recyclable t")
      case False
      then have "hs = kHeaderSize" using frag_types_recyclable [OF assms(5)] by (simp add: hs_def)
      then show ?thesis
        using parse [of r] False \<open>\<not> n < kHeaderSize\<close> ty le b(3) unfolding at_end_def
        by (subst ReadPhysicalRecord.simps) (simp add: Let_def)
    next
      case True
      then have hs: "hs = kRecyclableHeaderSize" "\<not> t < kRecyclableFullType"
        using frag_types_recyclable [OF assms(5)] by (simp_all add: hs_def)
      define r2 where "r2 = (if end_of_buffer_offset r - of_nat (length (buffer r)) = 0
          then r\<lparr>recycled := True\<rparr> else r)"
      have r2: "eof r2" "same r r2" "r2 \<in> {r, r\<lparr>recycled := True\<rparr>}" "rd_log_number r2 = rd_log_number r"
        using b(1) by (auto simp: r2_def same_def)
      have unfold_rpr: "ReadPhysicalRecord ops r =
          (if n < kRecyclableHeaderSize
           then case ReadMore ops r2 of (Inl (e, drop_size), r1) \<Rightarrow> ((e, [], drop_size), r1)
              | (Inr _, r1) \<Rightarrow> ReadPhysicalRecord ops r1
           else if ucast (DecodeFixed32 (drop 7 (buffer r))) \<noteq> rd_log_number r2 then ((kOldRecord, [], 0), r2)
           else ParseRecord kRecyclableHeaderSize t (length data) r2)"
        unfolding ReadPhysicalRecord.simps [of ops r] Let_def
        unfolding r2_def [symmetric]
        unfolding ty le b(3)
        using True \<open>\<not> n < kHeaderSize\<close> by simp
      show ?thesis
      proof (cases "n < kRecyclableHeaderSize")
        case True
        then show ?thesis using at_end_ReadMore [OF _ r2(1,2)] unfold_rpr by simp
      next
        case False
        then have n11: "4 \<le> n - 7" by (simp add: kRecyclableHeaderSize_def)
        have "DecodeFixed32 (drop 7 (buffer r)) = DecodeFixed32 (drop 7 F)"
          unfolding b(2) drop_take using n11 assms(3) by (intro DecodeFixed32_take) auto
        also have "\<dots> = ucast ln"
          unfolding h by (rule header_log_number [OF hs(2)])
        finally have "ucast (DecodeFixed32 (drop 7 (buffer r))) = ln"
          using assms(7) True by (simp add: ucast_down_up)
        then show ?thesis
          using parse [OF r2(3)] False assms(6) r2(4) unfold_rpr hs(1) by (simp add: at_end_def)
      qed
    qed
  qed
qed

subsection \<open>One record\<close>

text \<open>The call returns false; outside \<open>kAbsoluteConsistency\<close> nothing was reported.\<close>

definition stops :: "WALRecoveryMode \<Rightarrow> 'f Reader \<Rightarrow> (slice option \<times> 'f Reader) option \<Rightarrow> bool" where
  "stops mode r res \<longleftrightarrow> (\<exists>r1. res = Some (None, r1) \<and> (mode \<noteq> kAbsoluteConsistency \<longrightarrow> reports r1 = reports r))"

lemma stops_same: "same r r1 \<Longrightarrow> stops mode r1 res \<Longrightarrow> stops mode r res"
  by (auto simp: stops_def same_def)

lemma RRL_at_end:
  assumes "at_end r"
  shows "stops mode r (ReadRecord_loop ops mode scratch frg p r)"
proof -
  obtain e n r1 where "ReadPhysicalRecord ops r = ((e, [], n), r1)" "e \<in> {kBadHeader, kEof}" "same r r1"
    using assms unfolding at_end_def by blast
  then show ?thesis
    by (subst ReadRecord_loop.simps) (auto simp: stops_def same_def Let_def record_types reader_codes)
qed

lemma RRL_bad_record:
  assumes "ReadPhysicalRecord ops r = ((kBadRecord, [], 0), r1)"
  shows "ReadRecord_loop ops mode scratch False p r = ReadRecord_loop ops mode scratch False p r1"
  using assms by (subst ReadRecord_loop.simps) (simp add: Let_def record_types reader_codes)

lemma RRL_fragment:
  assumes "ReadPhysicalRecord ops r = ((fragment_type rc bgn fin, data, 0), r1)" "bgn \<Longrightarrow> scratch = []"
    and "p' = (if bgn then end_of_buffer_offset r - of_nat (length (buffer r)) else p)"
  shows "ReadRecord_loop ops mode scratch (\<not> bgn) p r =
    (if fin then Some (Some (scratch @ data), r1\<lparr>last_record_offset := p'\<rparr>)
     else ReadRecord_loop ops mode (scratch @ data) True p' r1)"
  unfolding ReadRecord_loop.simps [of ops mode scratch "\<not> bgn" p r] assms(1,3) Let_def prod.case
  using assms(2) by (cases rc; cases bgn; cases fin) (simp_all add: record_types fragment_type_def)

end

lemma fragment_type_recyclable: "is_recyclable (fragment_type rc bgn fin) \<longleftrightarrow> rc"
  by (simp add: fragment_type_def is_recyclable_def record_types word_le_nat_alt)

context log_source
begin

lemma same_refl [simp]: "same r r"
  by (simp add: same_def)

lemma at_end_transfer: "at_end r1 \<Longrightarrow> ReadPhysicalRecord ops r0 = ReadPhysicalRecord ops r1 \<Longrightarrow> same r0 r1 \<Longrightarrow> at_end r0"
  by (auto simp: at_end_def same_def)

lemma read_nothing:
  assumes "reading off [] r"
  shows "at_end r"
proof (cases "eof r")
  case True
  then show ?thesis using assms RPR_short_header [OF assms] by (simp add: reading_def log_sizes)
next
  case False
  have e: "buffer r = []" using assms by (simp add: reading_def)
  then obtain r1 where r1: "ReadPhysicalRecord ops r = ReadPhysicalRecord ops r1" "reading 0 [] r1" "same r r1"
    using RPR_next [OF assms False] by (auto simp: log_sizes)
  have "eof r1" "buffer r1 = []" using r1(2) by (auto simp: reading_def log_sizes split: if_splits)
  then have "at_end r1" using RPR_short_header [OF r1(2)] by (simp add: log_sizes)
  then show ?thesis using at_end_transfer r1 by blast
qed

lemma RPR_zeros:
  assumes "buffer r = replicate k 0" "7 \<le> k"
  shows "ReadPhysicalRecord ops r = ((kBadRecord, [], 0), r\<lparr>buffer := []\<rparr>)"
  unfolding ReadPhysicalRecord.simps [of ops r] Let_def assms(1) record_zeros [OF assms(2)]
  using assms not_recyclable_zero by (simp add: ParseRecord_def log_sizes)

text \<open>\<open>r0\<close> continues the loop in place of \<open>r\<close>, and its next physical record is read at \<open>off\<close>.\<close>

definition moved :: "WALRecoveryMode \<Rightarrow> slice \<Rightarrow> bool \<Rightarrow> nat \<Rightarrow> slice \<Rightarrow> 'f Reader \<Rightarrow> 'f Reader \<Rightarrow> 'f Reader \<Rightarrow> bool" where
  "moved mode scratch frg off T r r0 r1 \<longleftrightarrow>
     (\<forall>p. ReadRecord_loop ops mode scratch frg p r = ReadRecord_loop ops mode scratch frg p r0) \<and>
     ReadPhysicalRecord ops r0 = ReadPhysicalRecord ops r1 \<and> reading off T r1 \<and> same r r0 \<and> same r r1"

lemma moved_here:
  "ReadPhysicalRecord ops r = ReadPhysicalRecord ops r1 \<Longrightarrow> reading off T r1 \<Longrightarrow> same r r1 \<Longrightarrow>
   moved mode scratch frg off T r r r1"
  by (simp add: moved_def)

lemma moved_next_block:
  assumes "reading kBlockSize T r"
  shows "\<exists>r1. moved mode scratch frg 0 T r r r1"
proof -
  have "\<not> eof r" "buffer r = []" using assms by (auto simp: reading_def split: if_splits)
  then show ?thesis using RPR_next [OF assms] by (auto simp: moved_def log_sizes)
qed

lemma moved_pad:
  assumes "reading off (replicate k 0 @ T) r" "off + k = kBlockSize" "0 < k" "k < kRecyclableHeaderSize"
  shows "\<exists>r0 r1. moved mode scratch False 0 T r r0 r1"
proof -
  have ne: "\<not> eof r" using assms(1,2) by (auto simp: reading_def)
  then have k: "length (buffer r) = k" "buffer r @ rest (rd_file r) = replicate k 0 @ T"
    using assms(1,2) by (auto simp: reading_def)
  then have b: "buffer r = replicate k 0" "rest (rd_file r) = T"
    by (metis append_eq_append_conv length_replicate)+
  show ?thesis
  proof (cases "k < kHeaderSize")
    case True
    then show ?thesis using RPR_next [OF assms(1) ne] k(1) moved_here by fastforce
  next
    case False
    then have "ReadPhysicalRecord ops r = ((kBadRecord, [], 0), r\<lparr>buffer := []\<rparr>)"
      using RPR_zeros [OF b(1)] by (simp add: kHeaderSize_def)
    note RRL_bad_record [OF this]
    moreover have "reading kBlockSize T (r\<lparr>buffer := []\<rparr>)"
      using assms(1) b(2) ne by (simp add: reading_def)
    then obtain r1 where "moved mode scratch False 0 T (r\<lparr>buffer := []\<rparr>) (r\<lparr>buffer := []\<rparr>) r1"
      using moved_next_block by blast
    ultimately have "moved mode scratch False 0 T r (r\<lparr>buffer := []\<rparr>) r1"
      by (auto simp: moved_def same_def)
    then show ?thesis by blast
  qed
qed

lemma truncated_pad:
  assumes "reading off (replicate n 0) r" "off + k = kBlockSize" "n < k"
  shows "stops mode r (ReadRecord_loop ops mode scratch False p r)"
proof -
  have b: "eof r" "buffer r = replicate n 0" using truncated_eof [OF assms(1)] assms(2,3) by auto
  show ?thesis
  proof (cases "n < kHeaderSize")
    case True
    then show ?thesis using RRL_at_end RPR_short_header [OF assms(1) b(1)] b(2) by simp
  next
    case False
    then have bad: "ReadPhysicalRecord ops r = ((kBadRecord, [], 0), r\<lparr>buffer := []\<rparr>)"
      using RPR_zeros [OF b(2)] by (simp add: kHeaderSize_def)
    have "reading off [] (r\<lparr>buffer := []\<rparr>)"
      using assms b by (auto simp: reading_def)
    then have "stops mode (r\<lparr>buffer := []\<rparr>) (ReadRecord_loop ops mode scratch False p (r\<lparr>buffer := []\<rparr>))"
      using RRL_at_end read_nothing by blast
    then show ?thesis
      unfolding RRL_bad_record [OF bad] by (rule stops_same [rotated]) (simp add: same_def)
  qed
qed

lemma seek:
  assumes "next_block rc off = (pre, o1)" "off \<le> kBlockSize"
    and "reading off (take n (pieces_bytes ln pre @ X)) r" "pre \<noteq> [] \<Longrightarrow> \<not> frg"
  shows "if length (pieces_bytes ln pre) \<le> n
    then \<exists>r0 r1. moved mode scratch frg o1 (take (n - length (pieces_bytes ln pre)) X) r r0 r1
    else stops mode r (ReadRecord_loop ops mode scratch frg p r)"
proof (cases "header_size_of rc \<le> kBlockSize - off")
  case True
  then have "pre = []" "o1 = off" using assms(1) by (auto simp: next_block_def)
  then show ?thesis using assms(3) moved_here [OF refl _ same_refl] by fastforce
next
  case False
  show ?thesis
  proof (cases "off = kBlockSize")
    case True
    then have "pre = []" "o1 = 0" using assms(1) False by (auto simp: next_block_def)
    then show ?thesis using assms(3) True moved_next_block [of "take n X" r] by fastforce
  next
    case ne: False
    define k where "k = kBlockSize - off"
    have pre: "pre = [Pad k]" "o1 = 0" using assms(1,2) False ne by (auto simp: next_block_def k_def)
    have k: "off + k = kBlockSize" "0 < k" "k < kRecyclableHeaderSize"
      using assms(2) False ne by (auto simp: k_def header_size_of_def log_sizes split: if_splits)
    show ?thesis
    proof (cases "k \<le> n")
      case True
      then show ?thesis
        using moved_pad [OF _ k, of "take (n - k) X" r] assms(3,4) pre by (simp add: min_absorb2)
    next
      case False
      then show ?thesis
        using truncated_pad [OF _ k(1), of n r] assms(3,4) pre by (simp add: min_absorb1)
    qed
  qed
qed

lemma read_pieces:
  assumes "record_pieces rc bgn off ptr = (ps, o3)" "off \<le> kBlockSize"
    and "reading off (take n (pieces_bytes ln ps @ X)) r" "bgn \<Longrightarrow> scratch = []"
    and "\<not> bgn \<Longrightarrow> off = kBlockSize" "rd_log_number r = ln" "rc \<Longrightarrow> ln < 2 ^ 32"
  shows "if length (pieces_bytes ln ps) \<le> n
    then \<exists>r1. ReadRecord_loop ops mode scratch (\<not> bgn) p r = Some (Some (scratch @ ptr), r1) \<and>
      reading o3 (take (n - length (pieces_bytes ln ps)) X) r1 \<and> same r r1
    else stops mode r (ReadRecord_loop ops mode scratch (\<not> bgn) p r)"
  using assms
proof (induction rc bgn off ptr arbitrary: ps o3 n scratch p r rule: record_pieces.induct)
  case (1 rc bgn off ptr)
  obtain pre o1 where nb: "next_block rc off = (pre, o1)" by fastforce
  define frag where "frag = fragment_len rc o1 (length ptr)"
  define o2 where "o2 = o1 + (header_size_of rc + frag)"
  define t where "t = fragment_type rc bgn (length ptr = frag)"
  obtain tl o4 where tl: "(if frag < length ptr then record_pieces rc False o2 (drop frag ptr)
      else ([], o2)) = (tl, o4)" by fastforce
  have ps: "ps = pre @ Frag t (take frag ptr) # tl" "o3 = o4"
    using record_pieces_unfold [OF nb frag_def t_def tl [unfolded o2_def]] 1(2) by simp_all
  define F where "F = piece_bytes ln (Frag t (take frag ptr))"
  have o1: "o1 + header_size_of rc \<le> kBlockSize" using next_block_aligned [OF nb 1(3)] by blast
  have frag: "frag \<le> length ptr" "o2 \<le> kBlockSize"
    using o1 by (auto simp: frag_def fragment_len_def o2_def)
  have F: "length F = header_size_of rc + frag" "o1 + length F = o2"
    using length_frag [of ln rc bgn "length ptr = frag" "take frag ptr"] frag(1)
    by (simp_all add: F_def t_def o2_def)
  have nopad: "pre \<noteq> [] \<Longrightarrow> \<not> \<not> bgn"
    using nb 1(6) by (auto simp: next_block_def Let_def split: if_splits)
  define n1 where "n1 = n - length (pieces_bytes ln pre)"
  have seek: "if length (pieces_bytes ln pre) \<le> n
    then \<exists>r0 r1. moved mode scratch (\<not> bgn) o1 (take n1 (F @ pieces_bytes ln tl @ X)) r r0 r1
    else stops mode r (ReadRecord_loop ops mode scratch (\<not> bgn) p r)"
    unfolding n1_def
    by (rule seek [OF nb 1(3) _ nopad]) (use 1(4) in \<open>simp_all add: ps(1) F_def\<close>)
  have len: "length (pieces_bytes ln ps) = length (pieces_bytes ln pre) + length F + length (pieces_bytes ln tl)"
    by (simp add: ps(1) F_def)
  show ?case
  proof (cases "length (pieces_bytes ln pre) \<le> n")
    case False
    then show ?thesis using seek len by simp
  next
    case pre: True
    then obtain r0 r1 where mv: "moved mode scratch (\<not> bgn) o1 (take n1 (F @ pieces_bytes ln tl @ X)) r r0 r1"
      using seek by auto
    have r1: "reading o1 (take n1 (F @ pieces_bytes ln tl @ X)) r1" "rd_log_number r1 = ln"
      "ReadPhysicalRecord ops r0 = ReadPhysicalRecord ops r1" "same r0 r1" "same r r0"
      "ReadRecord_loop ops mode scratch (\<not> bgn) p r = ReadRecord_loop ops mode scratch (\<not> bgn) p r0"
      using mv 1(7) by (auto simp: moved_def same_def)
    have tf: "t \<in> frag_types" "is_recyclable t \<Longrightarrow> ln < 2 ^ 32"
      using 1(8) by (simp_all add: t_def fragment_type_recyclable)
    show ?thesis
    proof (cases "length F \<le> n1")
      case False
      then have "reading o1 (take n1 F) r1" using r1(1) by simp
      then have "at_end r1"
        using RPR_truncated [OF _ F_def _ _ tf(1) r1(2)] tf(2) False F(2) frag(2) by simp
      then have "stops mode r0 (ReadRecord_loop ops mode scratch (\<not> bgn) p r0)"
        using RRL_at_end at_end_transfer r1(3,4) by blast
      moreover have "\<not> length (pieces_bytes ln ps) \<le> n" using False len pre by (simp add: n1_def)
      ultimately show ?thesis using stops_same [OF r1(5)] r1(6) by simp
    next
      case True
      define n2 where "n2 = n1 - length F"
      have "reading o1 (F @ take n2 (pieces_bytes ln tl @ X)) r1"
        using r1(1) True by (simp add: n2_def)
      then obtain r2 where r2: "ReadPhysicalRecord ops r1 = ((t, take frag ptr, 0), r2)"
        "reading o2 (take n2 (pieces_bytes ln tl @ X)) r2" "same r1 r2"
        using RPR_fragment [of o1 ln t "take frag ptr" _ r1] tf r1(2) F(2) frag(2) unfolding F_def [symmetric]
        by blast
      define p' where "p' = (if bgn then end_of_buffer_offset r0 - of_nat (length (buffer r0)) else p)"
      have step: "ReadRecord_loop ops mode scratch (\<not> bgn) p r =
          (if length ptr = frag then Some (Some (scratch @ take frag ptr), r2\<lparr>last_record_offset := p'\<rparr>)
           else ReadRecord_loop ops mode (scratch @ take frag ptr) True p' r2)"
        unfolding r1(6)
        by (rule RRL_fragment [OF _ 1(5) p'_def]) (use r1(3) r2(1) in \<open>simp_all add: t_def\<close>)
      have sr: "same r r2" using r1(4,5) r2(3) same_trans by blast
      have n2: "length (pieces_bytes ln ps) \<le> n \<longleftrightarrow> length (pieces_bytes ln tl) \<le> n2"
        "n - length (pieces_bytes ln ps) = n2 - length (pieces_bytes ln tl)"
        using len pre True by (auto simp: n2_def n1_def)
      show ?thesis
      proof (cases "frag < length ptr")
        case False
        then have "tl = []" "o4 = o2" "length ptr = frag" using tl frag(1) by auto
        then show ?thesis
          using step sr r2(2) n2 ps(2) by (auto simp: same_def reading_def)
      next
        case True
        then have full: "o2 = kBlockSize" using o1 by (auto simp: o2_def frag_def fragment_len_def min_def split: if_splits)
        have rec: "record_pieces rc False o2 (drop frag ptr) = (tl, o4)" using tl True by simp
        have "if length (pieces_bytes ln tl) \<le> n2
          then \<exists>r3. ReadRecord_loop ops mode (scratch @ take frag ptr) (\<not> False) p' r2
              = Some (Some ((scratch @ take frag ptr) @ drop frag ptr), r3) \<and>
            reading o4 (take (n2 - length (pieces_bytes ln tl)) X) r3 \<and> same r2 r3
          else stops mode r2 (ReadRecord_loop ops mode (scratch @ take frag ptr) (\<not> False) p' r2)"
          by (rule 1(1) [OF nb [symmetric] refl frag_def o2_def refl True rec frag(2) r2(2) _ full])
            (use sr 1(7,8) in \<open>simp_all add: same_def\<close>)
        then show ?thesis
          using step True n2 ps(2) stops_same [OF sr] same_trans [OF sr] by (auto split: if_splits)
      qed
    qed
  qed
qed

end

section \<open>A whole log\<close>

primrec AddRecords :: "'d LogDest \<Rightarrow> slice list \<Rightarrow> 'd Writer \<Rightarrow> (Status \<times> 'd Writer) option" where
  "AddRecords ops [] w = Some (Status_OK, w)"
| "AddRecords ops (x # xs) w =
     (case AddRecord ops x w of
        None \<Rightarrow> None
      | Some (s, w) \<Rightarrow> if ok s then AddRecords ops xs w else Some (s, w))"

text \<open>
  At most \<open>n\<close> calls of \<open>ReadRecord\<close>: the records, and whether a call returned false.
\<close>

primrec ReadRecords ::
    "'f SequentialFile \<Rightarrow> WALRecoveryMode \<Rightarrow> nat \<Rightarrow> 'f Reader \<Rightarrow> (slice list \<times> bool \<times> 'f Reader) option" where
  "ReadRecords ops mode 0 r = Some ([], False, r)"
| "ReadRecords ops mode (Suc n) r =
     (case ReadRecord ops mode r of
        None \<Rightarrow> None
      | Some (None, r) \<Rightarrow> Some ([], True, r)
      | Some (Some x, r) \<Rightarrow> map_option (\<lambda>(xs, b, r). (x # xs, b, r)) (ReadRecords ops mode n r))"

primrec log_pieces :: "bool \<Rightarrow> nat \<Rightarrow> slice list \<Rightarrow> piece list" where
  "log_pieces rc off [] = []"
| "log_pieces rc off (x # xs) =
     (let (ps, o1) = record_pieces rc True off x in ps @ log_pieces rc o1 xs)"

lemma record_pieces_block_end:
  "record_pieces rc bgn kBlockSize ptr = record_pieces rc bgn 0 ptr"
  using header_size_bounds [of rc]
  by (simp add: record_pieces.simps [of rc bgn kBlockSize ptr] record_pieces.simps [of rc bgn 0 ptr]
      next_block_def)

lemma log_pieces_block_end: "log_pieces rc kBlockSize xs = log_pieces rc 0 xs"
  by (cases xs) (simp_all add: record_pieces_block_end)

lemma log_pieces_prefix:
  "length (pieces_bytes ln (log_pieces rc off (take k xs))) \<le> length (pieces_bytes ln (log_pieces rc off xs))"
proof (induction xs arbitrary: off k)
  case (Cons x xs)
  then show ?case by (cases k) (simp_all add: split_beta Let_def)
qed simp

context log_dest
begin

lemma AddRecords_wrote:
  "good (dest w) \<Longrightarrow> type_crc w = type_crcs \<Longrightarrow>
   \<exists>s w'. AddRecords ops xs w = Some (s, w') \<and> ok s \<and> good (dest w') \<and>
     contents (dest w') = contents (dest w) @
       pieces_bytes (log_number w) (log_pieces (recycle_log_files w) (block_offset w) xs)"
proof (induction xs arbitrary: w)
  case Nil
  then show ?case by (simp add: Status_OK_def ok_def)
next
  case (Cons x xs)
  obtain ps o1 where ps: "record_pieces (recycle_log_files w) True (block_offset w) x = (ps, o1)"
    by fastforce
  obtain s w1 where w1: "AddRecord_loop ops x True w = Some (s, w1)" "ok s"
    "wrote (pieces_bytes (log_number w) ps) o1 w w1"
    using AddRecord_loop_wrote [OF Cons.prems, of x True] ps by auto
  then show ?case
    using Cons.IH [of w1] Cons.prems(2) ps by (auto simp: AddRecord_def wrote_def)
qed

end

context log_source
begin

lemma ReadRecord_loop_initial:
  "reading off T r \<Longrightarrow> ReadRecord ops mode r = ReadRecord_loop ops mode [] False 0 r"
  by (simp add: ReadRecord_def reading_def)

lemma read_log:
  assumes "off \<le> kBlockSize" "reading off (take n (pieces_bytes ln (log_pieces rc off xs))) r"
    and "rd_log_number r = ln" "rc \<Longrightarrow> ln < 2 ^ 32"
  shows "\<exists>k r1. k \<le> length xs \<and> ReadRecords ops mode (Suc (length xs)) r = Some (take k xs, True, r1) \<and>
    (mode \<noteq> kAbsoluteConsistency \<longrightarrow> reports r1 = reports r) \<and>
    length (pieces_bytes ln (log_pieces rc off (take k xs))) \<le> n \<and>
    (k < length xs \<longrightarrow> n < length (pieces_bytes ln (log_pieces rc off (take (Suc k) xs))))"
  using assms
proof (induction xs arbitrary: off n r)
  case Nil
  then have "stops mode r (ReadRecord ops mode r)"
    using RRL_at_end [OF read_nothing] ReadRecord_loop_initial by auto
  then show ?case by (auto simp: stops_def)
next
  case (Cons x xs)
  obtain ps o1 where ps: "record_pieces rc True off x = (ps, o1)" by fastforce
  have o1: "o1 \<le> kBlockSize" using record_pieces_aligned [OF Cons.prems(1) ps] by blast
  define X where "X = pieces_bytes ln (log_pieces rc o1 xs)"
  have rd: "reading off (take n (pieces_bytes ln ps @ X)) r"
    using Cons.prems(2) ps by (simp add: X_def)
  have step: "if length (pieces_bytes ln ps) \<le> n
    then \<exists>r1. ReadRecord ops mode r = Some (Some x, r1) \<and>
      reading o1 (take (n - length (pieces_bytes ln ps)) X) r1 \<and> same r r1
    else stops mode r (ReadRecord ops mode r)"
    using read_pieces [OF ps Cons.prems(1) rd, of "[]" mode 0] Cons.prems(3,4)
    unfolding ReadRecord_loop_initial [OF rd] by (simp split: if_splits)
  show ?case
  proof (cases "length (pieces_bytes ln ps) \<le> n")
    case False
    then show ?thesis using step ps by (intro exI [of _ 0]) (auto simp: stops_def)
  next
    case True
    then obtain r1 where r1: "ReadRecord ops mode r = Some (Some x, r1)"
      "reading o1 (take (n - length (pieces_bytes ln ps)) X) r1" "same r r1"
      using step by auto
    obtain k r2 where "k \<le> length xs" "ReadRecords ops mode (Suc (length xs)) r1 = Some (take k xs, True, r2)"
      "mode \<noteq> kAbsoluteConsistency \<longrightarrow> reports r2 = reports r1"
      "length (pieces_bytes ln (log_pieces rc o1 (take k xs))) \<le> n - length (pieces_bytes ln ps)"
      "k < length xs \<longrightarrow> n - length (pieces_bytes ln ps) < length (pieces_bytes ln (log_pieces rc o1 (take (Suc k) xs)))"
      using Cons.IH [OF o1 r1(2) [unfolded X_def]] r1(3) Cons.prems(3,4) by (auto simp: same_def)
    then show ?thesis
      using r1 True ps by (intro exI [of _ "Suc k"]) (auto simp: same_def)
  qed
qed

end

text \<open>The POSIX sequential file as source; its reads succeed when no call of \<open>fread\<close> fails.\<close>

definition file_source :: "PosixSequentialFile SequentialFile" where
  "file_source = \<lparr>r_Read = PS_Read, r_Skip = PS_Skip\<rparr>"

definition source_good :: "PosixSequentialFile \<Rightarrow> bool" where
  "source_good f \<longleftrightarrow> set (ps_script f) \<subseteq> {None}"

interpretation file_source: log_source file_source ps_bytes source_good
proof (intro log_source.intro log_source_axioms.intro)
  show "sequential_file (r_Read file_source) (r_Skip file_source) ps_bytes"
    by (simp add: file_source_def posix_sequential.sequential_file_axioms)
  show "ok s \<and> source_good f'" if "source_good f" "r_Read file_source n f = (s, data, f')" for f n s data f'
  proof -
    have "\<nexists>e rest. ps_script f = Some e # rest" using that(1) by (auto simp: source_good_def)
    then have "PS_Read n f =
        (Status_OK, take n (ps_bytes f), f\<lparr>ps_bytes := drop n (ps_bytes f), ps_script := drop 1 (ps_script f)\<rparr>)"
      by (subst PS_Read.simps) (auto split: list.splits option.splits)
    then show ?thesis
      using that set_drop_subset [of 1 "ps_script f"]
      by (auto simp: file_source_def source_good_def ok_def Status_OK_def)
  qed
qed

text \<open>
  C17: a log that was cut at any byte gives back a prefix of the records written: those that were
  written in full before the cut, in order, and nothing else; outside \<open>kAbsoluteConsistency\<close> the cut
  is not reported as a corruption.
\<close>

theorem wal_recovers_prefix:
  assumes "file_good d" "file_contents d = []" "recycle \<Longrightarrow> ln < 2 ^ 32"
  shows "\<exists>s w. AddRecords file_dest xs (Writer_make d ln recycle manual) = Some (s, w) \<and> ok s \<and>
    (\<forall>f mode csum. source_good f \<and> ps_bytes f = take n (file_contents (dest w)) \<longrightarrow>
      (\<exists>k r. ReadRecords file_source mode (Suc (length xs)) (Reader_make f True csum 0 ln)
          = Some (take k xs, True, r) \<and> k \<le> length xs \<and>
        length (pieces_bytes ln (log_pieces recycle 0 (take k xs))) \<le> n \<and>
        (k < length xs \<longrightarrow> n < length (pieces_bytes ln (log_pieces recycle 0 (take (Suc k) xs)))) \<and>
        (length (file_contents (dest w)) \<le> n \<longrightarrow> take k xs = xs) \<and>
        (mode \<noteq> kAbsoluteConsistency \<longrightarrow> reports r = [])))"
proof -
  let ?w = "Writer_make d ln recycle manual"
  have w0: "file_good (dest ?w)" "type_crc ?w = type_crcs" "file_contents (dest ?w) = []"
    "log_number ?w = ln" "recycle_log_files ?w = recycle" "block_offset ?w = 0"
    using assms(1,2) by (simp_all add: Writer_make_def type_crcs_def)
  obtain s w where w: "AddRecords file_dest xs ?w = Some (s, w)" "ok s"
    "file_contents (dest w) = pieces_bytes ln (log_pieces recycle 0 xs)"
    using file_log.AddRecords_wrote [OF w0(1,2), of xs] unfolding w0(3-6) by auto
  have "\<exists>k r. ReadRecords file_source mode (Suc (length xs)) (Reader_make f True csum 0 ln)
          = Some (take k xs, True, r) \<and> k \<le> length xs \<and>
        length (pieces_bytes ln (log_pieces recycle 0 (take k xs))) \<le> n \<and>
        (k < length xs \<longrightarrow> n < length (pieces_bytes ln (log_pieces recycle 0 (take (Suc k) xs)))) \<and>
        (length (file_contents (dest w)) \<le> n \<longrightarrow> take k xs = xs) \<and>
        (mode \<noteq> kAbsoluteConsistency \<longrightarrow> reports r = [])"
    if f: "source_good f" "ps_bytes f = take n (file_contents (dest w))" for f mode csum
  proof -
    have "file_source.reading kBlockSize (take n (pieces_bytes ln (log_pieces recycle kBlockSize xs)))
        (Reader_make f True csum 0 ln)"
      using f w(3) by (simp add: file_source.reading_def Reader_make_def log_pieces_block_end)
    from file_source.read_log [OF le_refl this _ assms(3), of mode]
    obtain k r where k: "k \<le> length xs"
      "ReadRecords file_source mode (Suc (length xs)) (Reader_make f True csum 0 ln) = Some (take k xs, True, r)"
      "mode \<noteq> kAbsoluteConsistency \<longrightarrow> reports r = []"
      "length (pieces_bytes ln (log_pieces recycle 0 (take k xs))) \<le> n"
      "k < length xs \<longrightarrow> n < length (pieces_bytes ln (log_pieces recycle 0 (take (Suc k) xs)))"
      unfolding log_pieces_block_end by (auto simp: Reader_make_def)
    moreover have "length (pieces_bytes ln (log_pieces recycle 0 xs)) \<le> n \<longrightarrow> take k xs = xs"
      using k(5) log_pieces_prefix [of ln recycle 0 "Suc k" xs] by (cases "k < length xs") auto
    ultimately show ?thesis unfolding w(3) by blast
  qed
  then show ?thesis using w(1,2) by blast
qed

theorem wal_recovers_prefix_witness:
  "\<exists>s w. AddRecords file_dest [[1, 2, 3], []] (Writer_make sample_writer 7 True True) = Some (s, w) \<and> ok s \<and>
    (\<exists>k r. ReadRecords file_source kPointInTimeRecovery 3
        (Reader_make \<lparr>ps_filename = [], ps_bytes = take 20 (file_contents (dest w)), ps_script = [],
           ps_strerror = (\<lambda>_. [])\<rparr> True True 0 7) = Some (take k [[1, 2, 3], []], True, r) \<and> reports r = [])"
proof -
  have three: "Suc (length [[1, 2, 3], [] :: slice]) = 3" by simp
  have ln: "(7 :: u64) < 2 ^ 32" by simp
  have d: "file_good sample_writer" "file_contents sample_writer = []"
    using sample_log_ok by (simp_all add: sample_log_def file_contents_def sample_writer_def)
  obtain s w where w: "AddRecords file_dest [[1, 2, 3], []] (Writer_make sample_writer 7 True True) = Some (s, w)"
    "ok s"
    "\<And>f mode csum. source_good f \<Longrightarrow> ps_bytes f = take 20 (file_contents (dest w)) \<Longrightarrow>
      \<exists>k r. ReadRecords file_source mode 3 (Reader_make f True csum 0 7) = Some (take k [[1, 2, 3], []], True, r) \<and>
        (mode \<noteq> kAbsoluteConsistency \<longrightarrow> reports r = [])"
    using wal_recovers_prefix [OF d ln, where recycle = True and xs = "[[1, 2, 3], []]" and manual = True and n = 20] unfolding three by blast
  define f where "f = \<lparr>ps_filename = [], ps_bytes = take 20 (file_contents (dest w)), ps_script = [],
      ps_strerror = (\<lambda>_. [])\<rparr>"
  have "source_good f" "ps_bytes f = take 20 (file_contents (dest w))"
    by (simp_all add: f_def source_good_def)
  from w(3) [OF this, of kPointInTimeRecovery True]
  show ?thesis using w(1,2) unfolding f_def by blast
qed

section \<open>Records of a recycled log\<close>

text \<open>The buffer starts with a recyclable record that carries another log number.\<close>

definition old_record :: "'f Reader \<Rightarrow> bool" where
  "old_record r \<longleftrightarrow> kRecyclableHeaderSize \<le> length (buffer r) \<and> is_recyclable (record_type (buffer r)) \<and>
     ucast (DecodeFixed32 (drop 7 (buffer r))) \<noteq> rd_log_number r"

lemma RPR_old_record:
  assumes "old_record r"
  shows "\<exists>r1. ReadPhysicalRecord ops r = ((kOldRecord, [], 0), r1) \<and> old_record r1"
proof -
  define r2 where "r2 = (if end_of_buffer_offset r - of_nat (length (buffer r)) = 0
      then r\<lparr>recycled := True\<rparr> else r)"
  have "ReadPhysicalRecord ops r = ((kOldRecord, [], 0), r2)"
    unfolding ReadPhysicalRecord.simps [of ops r] Let_def r2_def [symmetric]
    using assms by (auto simp: old_record_def r2_def log_sizes)
  moreover have "old_record r2" using assms by (simp add: old_record_def r2_def)
  ultimately show ?thesis by blast
qed

lemma old_record_report [simp]: "old_record (ReportCorruption n msg r) = old_record r"
  by (simp add: ReportCorruption_def ReportDrop_def old_record_def)

lemma old_record_stuck:
  assumes "ReadRecord_loop ops mode scratch frg p r = Some y"
  shows "mode = kSkipAnyCorruptedRecords \<longrightarrow> \<not> old_record r"
proof (rule ReadRecord_loop.raw_induct [where P = "\<lambda>ops mode scratch frg p r y.
    mode = kSkipAnyCorruptedRecords \<longrightarrow> \<not> old_record r", OF _ assms], goal_cases)
  case (1 loop ops mode scratch frg p r y)
  show ?case
  proof (intro impI notI)
    assume m: "mode = kSkipAnyCorruptedRecords" and r: "old_record r"
    obtain r1 where r1: "ReadPhysicalRecord ops r = ((kOldRecord, [], 0), r1)" "old_record r1"
      using RPR_old_record [OF r] by blast
    have "loop ops mode (if frg then [] else scratch) False p
        (if frg then ReportCorruption (length scratch) ''error in middle of record'' r1 else r1) = Some y"
      using 1(2) m r1(1) by (simp add: Let_def record_types reader_codes split: if_splits)
    then have "\<not> old_record (if frg then ReportCorruption (length scratch) ''error in middle of record'' r1 else r1)"
      using 1(1) m by blast
    then show False using r1(2) by (simp split: if_splits)
  qed
qed

text \<open>
  C18: in the mode that skips corrupted records, an old record is not skipped: it stays in the buffer,
  and the call never returns.
\<close>

theorem old_record_skip_diverges:
  assumes "old_record r" "initial_offset r \<le> last_record_offset r"
  shows "ReadRecord ops kSkipAnyCorruptedRecords r = None"
proof (rule ccontr)
  assume "ReadRecord ops kSkipAnyCorruptedRecords r \<noteq> None"
  then obtain y where "ReadRecord_loop ops kSkipAnyCorruptedRecords [] False 0 r = Some y"
    using assms(2) by (auto simp: ReadRecord_def leD)
  then show False using old_record_stuck assms(1) by blast
qed

definition sample_old :: "PosixSequentialFile Reader" where
  "sample_old = (Reader_make \<lparr>ps_filename = [], ps_bytes = [], ps_script = [], ps_strerror = (\<lambda>_. [])\<rparr>
     True True 0 4294967297)\<lparr>buffer := record_header type_crcs 4294967297 kRecyclableFullType []\<rparr>"

theorem old_record_skip_diverges_witness:
  "ReadRecord file_source kSkipAnyCorruptedRecords sample_old = None"
proof -
  have "kRecyclableHeaderSize \<le> length (buffer sample_old)"
    by (simp add: sample_old_def record_types log_sizes)
  moreover have "record_type (buffer sample_old) = kRecyclableFullType"
    using record_type_header [of kRecyclableFullType type_crcs 4294967297 "[]" "[]"]
    by (simp add: sample_old_def frag_types_def)
  moreover have "DecodeFixed32 (drop 7 (buffer sample_old)) = 1"
    using header_log_number [of kRecyclableFullType type_crcs 4294967297 "[]" "[]"] by (simp add: sample_old_def)
  ultimately have "old_record sample_old"
    by (simp add: old_record_def is_recyclable_def record_types sample_old_def Reader_make_def)
  then show ?thesis
    by (rule old_record_skip_diverges) (simp add: sample_old_def Reader_make_def)
qed

text \<open>
  C19: a log number of more than 32 bits is cut when it is written and not when it is compared, so that
  every recyclable record of such a log reads as the end of the log.
\<close>

theorem large_log_number_unreadable:
  assumes "2 ^ 32 \<le> rd_log_number r" "initial_offset r = 0" "mode \<noteq> kSkipAnyCorruptedRecords"
    and "buffer r = record_header type_crcs (rd_log_number r) (fragment_type True bgn fin) data @ data @ X"
  shows "\<exists>r1. ReadRecord ops mode r = Some (None, r1)"
proof -
  have "record_type (buffer r) = fragment_type True bgn fin"
    unfolding assms(4) by (rule record_type_header) simp
  moreover have "ucast (u :: u32) < (2 :: u64) ^ 32" for u
    using unat_lt [of u] by (simp add: word_less_nat_alt unsigned_ucast_eq take_bit_nat_def)
  then have "ucast (DecodeFixed32 (drop 7 (buffer r))) \<noteq> rd_log_number r"
    using assms(1) by (metis leD)
  moreover have "kRecyclableHeaderSize \<le> length (buffer r)"
    unfolding assms(4) using fragment_type_header [of True bgn fin] by (simp add: header_size_of_def)
  ultimately have "old_record r"
    by (simp add: old_record_def fragment_type_recyclable)
  then obtain r1 where "ReadPhysicalRecord ops r = ((kOldRecord, [], 0), r1)"
    using RPR_old_record by blast
  then show ?thesis
    using assms(2,3) unfolding ReadRecord_def
    by (subst ReadRecord_loop.simps) (simp add: Let_def record_types reader_codes)
qed

theorem large_log_number_unreadable_witness:
  "\<exists>r1. ReadRecord file_source kPointInTimeRecovery sample_old = Some (None, r1)"
proof (rule large_log_number_unreadable)
  show "buffer sample_old = record_header type_crcs (rd_log_number sample_old) (fragment_type True True True) [] @ [] @ []"
    by (simp add: sample_old_def Reader_make_def fragment_type_def)
qed (simp_all add: sample_old_def Reader_make_def)

end
