(* ===== verification/WriteBatch.thy ===== *)
theory WriteBatch
  imports Coding Status DbFormat
begin

text \<open>
  \<^verbatim>\<open>include/rocksdb/write_batch.h\<close>, \<^verbatim>\<open>db/write_batch_internal.h\<close> and \<^verbatim>\<open>db/write_batch.cc\<close>: the unit of
  an atomic write, a string of records behind a sequence number and a count. Column families are
  their ids; \<open>int\<close> counts are kept as the 32 bits they are stored in.
\<close>

section \<open>State\<close>

definition DEFERRED :: u32 where "DEFERRED = push_bit 0 1"
definition HAS_PUT :: u32 where "HAS_PUT = push_bit 1 1"
definition HAS_DELETE :: u32 where "HAS_DELETE = push_bit 2 1"
definition HAS_SINGLE_DELETE :: u32 where "HAS_SINGLE_DELETE = push_bit 3 1"
definition HAS_MERGE :: u32 where "HAS_MERGE = push_bit 4 1"
definition HAS_BEGIN_PREPARE :: u32 where "HAS_BEGIN_PREPARE = push_bit 5 1"
definition HAS_END_PREPARE :: u32 where "HAS_END_PREPARE = push_bit 6 1"
definition HAS_COMMIT :: u32 where "HAS_COMMIT = push_bit 7 1"
definition HAS_ROLLBACK :: u32 where "HAS_ROLLBACK = push_bit 8 1"
definition HAS_DELETE_RANGE :: u32 where "HAS_DELETE_RANGE = push_bit 9 1"

lemmas content_flag_defs = DEFERRED_def HAS_PUT_def HAS_DELETE_def HAS_SINGLE_DELETE_def HAS_MERGE_def
  HAS_BEGIN_PREPARE_def HAS_END_PREPARE_def HAS_COMMIT_def HAS_ROLLBACK_def HAS_DELETE_RANGE_def

definition WB_kHeader :: nat where "WB_kHeader = 12"

record SavePoint =
  sp_size :: nat
  sp_count :: u32
  sp_content_flags :: u32

definition SavePoint_cleared :: SavePoint where
  "SavePoint_cleared = \<lparr>sp_size = 0, sp_count = 0, sp_content_flags = 0\<rparr>"

definition is_cleared :: "SavePoint \<Rightarrow> bool" where
  "is_cleared p \<longleftrightarrow> sp_size p = 0 \<and> sp_count p = 0 \<and> sp_content_flags p = 0"

text \<open>\<open>save_points\<close> is the stack, top first; \<open>None\<close> if it was never allocated.\<close>

record WriteBatch =
  save_points :: "SavePoint list option"
  wal_term_point :: SavePoint
  content_flags :: u32
  max_bytes :: nat
  rep :: slice

definition WB_make :: "nat \<Rightarrow> WriteBatch" where
  "WB_make mb =
     \<lparr>save_points = None, wal_term_point = SavePoint_cleared, content_flags = 0, max_bytes = mb,
      rep = replicate WB_kHeader 0\<rparr>"

definition WB_of_rep :: "slice \<Rightarrow> WriteBatch" where
  "WB_of_rep r =
     \<lparr>save_points = None, wal_term_point = SavePoint_cleared, content_flags = DEFERRED, max_bytes = 0,
      rep = r\<rparr>"

definition WB_Clear :: "WriteBatch \<Rightarrow> WriteBatch" where
  "WB_Clear b =
     b\<lparr>rep := replicate WB_kHeader 0, content_flags := 0,
       save_points := map_option (\<lambda>_. []) (save_points b), wal_term_point := SavePoint_cleared\<rparr>"

definition GetDataSize :: "WriteBatch \<Rightarrow> nat" where
  "GetDataSize b = length (rep b)"

definition WB_Count :: "WriteBatch \<Rightarrow> u32" where
  "WB_Count b = DecodeFixed32 (drop 8 (rep b))"

definition WB_SetCount :: "u32 \<Rightarrow> WriteBatch \<Rightarrow> WriteBatch" where
  "WB_SetCount n b = b\<lparr>rep := write_at (rep b) 8 (EncodeFixed32 n)\<rparr>"

definition WB_Sequence :: "WriteBatch \<Rightarrow> u64" where
  "WB_Sequence b = DecodeFixed64 (rep b)"

definition WB_SetSequence :: "u64 \<Rightarrow> WriteBatch \<Rightarrow> WriteBatch" where
  "WB_SetSequence s b = b\<lparr>rep := write_at (rep b) 0 (EncodeFixed64 s)\<rparr>"

definition MarkWalTerminationPoint :: "WriteBatch \<Rightarrow> WriteBatch" where
  "MarkWalTerminationPoint b =
     b\<lparr>wal_term_point := \<lparr>sp_size = GetDataSize b, sp_count = WB_Count b,
         sp_content_flags = content_flags b\<rparr>\<rparr>"

definition LocalSavePoint :: "WriteBatch \<Rightarrow> SavePoint" where
  "LocalSavePoint b = \<lparr>sp_size = GetDataSize b, sp_count = WB_Count b, sp_content_flags = content_flags b\<rparr>"

definition WB_commit :: "SavePoint \<Rightarrow> WriteBatch \<Rightarrow> Status \<times> WriteBatch" where
  "WB_commit p b =
     (if max_bytes b \<noteq> 0 \<and> length (rep b) > max_bytes b
      then let b = b\<lparr>rep := take (sp_size p) (rep b)\<rparr>; b = WB_SetCount (sp_count p) b
           in (MemoryLimit, b\<lparr>content_flags := sp_content_flags p\<rparr>)
      else (Status_OK, b))"

section \<open>Adding records\<close>

definition WB_push_tag :: "u32 \<Rightarrow> ValueType \<Rightarrow> ValueType \<Rightarrow> WriteBatch \<Rightarrow> WriteBatch" where
  "WB_push_tag cf t t_cf b =
     (if cf = 0 then b\<lparr>rep := rep b @ [t]\<rparr> else b\<lparr>rep := PutVarint32 (rep b @ [t_cf]) cf\<rparr>)"

definition WB_add_flag :: "u32 \<Rightarrow> WriteBatch \<Rightarrow> WriteBatch" where
  "WB_add_flag flag b = b\<lparr>content_flags := content_flags b OR flag\<rparr>"

definition WB_put_slice :: "slice \<Rightarrow> WriteBatch \<Rightarrow> WriteBatch" where
  "WB_put_slice s b = b\<lparr>rep := PutLengthPrefixedSlice (rep b) s\<rparr>"

definition WB_put_parts :: "slice list \<Rightarrow> WriteBatch \<Rightarrow> WriteBatch" where
  "WB_put_parts s b = b\<lparr>rep := PutLengthPrefixedSliceParts (rep b) s\<rparr>"

definition WB_Put :: "u32 \<Rightarrow> slice \<Rightarrow> slice \<Rightarrow> WriteBatch \<Rightarrow> Status \<times> WriteBatch" where
  "WB_Put cf key val b =
     (let save = LocalSavePoint b;
          b = WB_SetCount (WB_Count b + 1) b;
          b = WB_push_tag cf kTypeValue kTypeColumnFamilyValue b;
          b = WB_put_slice key b;
          b = WB_put_slice val b;
          b = WB_add_flag HAS_PUT b
      in WB_commit save b)"

definition WB_Put_parts :: "u32 \<Rightarrow> slice list \<Rightarrow> slice list \<Rightarrow> WriteBatch \<Rightarrow> Status \<times> WriteBatch" where
  "WB_Put_parts cf key val b =
     (let save = LocalSavePoint b;
          b = WB_SetCount (WB_Count b + 1) b;
          b = WB_push_tag cf kTypeValue kTypeColumnFamilyValue b;
          b = WB_put_parts key b;
          b = WB_put_parts val b;
          b = WB_add_flag HAS_PUT b
      in WB_commit save b)"

definition WB_InsertNoop :: "WriteBatch \<Rightarrow> Status \<times> WriteBatch" where
  "WB_InsertNoop b = (Status_OK, b\<lparr>rep := rep b @ [kTypeNoop]\<rparr>)"

definition WB_MarkEndPrepare :: "slice \<Rightarrow> WriteBatch \<Rightarrow> Status \<times> WriteBatch" where
  "WB_MarkEndPrepare xid b =
     (let b = b\<lparr>save_points := map_option (\<lambda>_. []) (save_points b)\<rparr>;
          b = b\<lparr>rep := (rep b)[12 := kTypeBeginPrepareXID]\<rparr>;
          b = b\<lparr>rep := rep b @ [kTypeEndPrepareXID]\<rparr>;
          b = WB_put_slice xid b
      in (Status_OK, b\<lparr>content_flags := content_flags b OR HAS_END_PREPARE OR HAS_BEGIN_PREPARE\<rparr>))"

definition WB_MarkCommit :: "slice \<Rightarrow> WriteBatch \<Rightarrow> Status \<times> WriteBatch" where
  "WB_MarkCommit xid b =
     (Status_OK, WB_add_flag HAS_COMMIT (WB_put_slice xid (b\<lparr>rep := rep b @ [kTypeCommitXID]\<rparr>)))"

definition WB_MarkRollback :: "slice \<Rightarrow> WriteBatch \<Rightarrow> Status \<times> WriteBatch" where
  "WB_MarkRollback xid b =
     (Status_OK, WB_add_flag HAS_ROLLBACK (WB_put_slice xid (b\<lparr>rep := rep b @ [kTypeRollbackXID]\<rparr>)))"

definition WB_Delete :: "u32 \<Rightarrow> slice \<Rightarrow> WriteBatch \<Rightarrow> Status \<times> WriteBatch" where
  "WB_Delete cf key b =
     (let save = LocalSavePoint b;
          b = WB_SetCount (WB_Count b + 1) b;
          b = WB_push_tag cf kTypeDeletion kTypeColumnFamilyDeletion b;
          b = WB_put_slice key b;
          b = WB_add_flag HAS_DELETE b
      in WB_commit save b)"

definition WB_Delete_parts :: "u32 \<Rightarrow> slice list \<Rightarrow> WriteBatch \<Rightarrow> Status \<times> WriteBatch" where
  "WB_Delete_parts cf key b =
     (let save = LocalSavePoint b;
          b = WB_SetCount (WB_Count b + 1) b;
          b = WB_push_tag cf kTypeDeletion kTypeColumnFamilyDeletion b;
          b = WB_put_parts key b;
          b = WB_add_flag HAS_DELETE b
      in WB_commit save b)"

definition WB_SingleDelete :: "u32 \<Rightarrow> slice \<Rightarrow> WriteBatch \<Rightarrow> Status \<times> WriteBatch" where
  "WB_SingleDelete cf key b =
     (let save = LocalSavePoint b;
          b = WB_SetCount (WB_Count b + 1) b;
          b = WB_push_tag cf kTypeSingleDeletion kTypeColumnFamilySingleDeletion b;
          b = WB_put_slice key b;
          b = WB_add_flag HAS_SINGLE_DELETE b
      in WB_commit save b)"

definition WB_SingleDelete_parts :: "u32 \<Rightarrow> slice list \<Rightarrow> WriteBatch \<Rightarrow> Status \<times> WriteBatch" where
  "WB_SingleDelete_parts cf key b =
     (let save = LocalSavePoint b;
          b = WB_SetCount (WB_Count b + 1) b;
          b = WB_push_tag cf kTypeSingleDeletion kTypeColumnFamilySingleDeletion b;
          b = WB_put_parts key b;
          b = WB_add_flag HAS_SINGLE_DELETE b
      in WB_commit save b)"

definition WB_DeleteRange :: "u32 \<Rightarrow> slice \<Rightarrow> slice \<Rightarrow> WriteBatch \<Rightarrow> Status \<times> WriteBatch" where
  "WB_DeleteRange cf begin_key end_key b =
     (let save = LocalSavePoint b;
          b = WB_SetCount (WB_Count b + 1) b;
          b = WB_push_tag cf kTypeRangeDeletion kTypeColumnFamilyRangeDeletion b;
          b = WB_put_slice begin_key b;
          b = WB_put_slice end_key b;
          b = WB_add_flag HAS_DELETE_RANGE b
      in WB_commit save b)"

definition WB_DeleteRange_parts :: "u32 \<Rightarrow> slice list \<Rightarrow> slice list \<Rightarrow> WriteBatch \<Rightarrow> Status \<times> WriteBatch" where
  "WB_DeleteRange_parts cf begin_key end_key b =
     (let save = LocalSavePoint b;
          b = WB_SetCount (WB_Count b + 1) b;
          b = WB_push_tag cf kTypeRangeDeletion kTypeColumnFamilyRangeDeletion b;
          b = WB_put_parts begin_key b;
          b = WB_put_parts end_key b;
          b = WB_add_flag HAS_DELETE_RANGE b
      in WB_commit save b)"

definition WB_Merge :: "u32 \<Rightarrow> slice \<Rightarrow> slice \<Rightarrow> WriteBatch \<Rightarrow> Status \<times> WriteBatch" where
  "WB_Merge cf key val b =
     (let save = LocalSavePoint b;
          b = WB_SetCount (WB_Count b + 1) b;
          b = WB_push_tag cf kTypeMerge kTypeColumnFamilyMerge b;
          b = WB_put_slice key b;
          b = WB_put_slice val b;
          b = WB_add_flag HAS_MERGE b
      in WB_commit save b)"

definition WB_Merge_parts :: "u32 \<Rightarrow> slice list \<Rightarrow> slice list \<Rightarrow> WriteBatch \<Rightarrow> Status \<times> WriteBatch" where
  "WB_Merge_parts cf key val b =
     (let save = LocalSavePoint b;
          b = WB_SetCount (WB_Count b + 1) b;
          b = WB_push_tag cf kTypeMerge kTypeColumnFamilyMerge b;
          b = WB_put_parts key b;
          b = WB_put_parts val b;
          b = WB_add_flag HAS_MERGE b
      in WB_commit save b)"

definition WB_PutLogData :: "slice \<Rightarrow> WriteBatch \<Rightarrow> Status \<times> WriteBatch" where
  "WB_PutLogData blob b =
     (let save = LocalSavePoint b;
          b = b\<lparr>rep := rep b @ [kTypeLogData]\<rparr>;
          b = WB_put_slice blob b
      in WB_commit save b)"

section \<open>Save points\<close>

definition WB_SetSavePoint :: "WriteBatch \<Rightarrow> WriteBatch" where
  "WB_SetSavePoint b =
     (let stack = (case save_points b of None \<Rightarrow> [] | Some st \<Rightarrow> st)
      in b\<lparr>save_points := Some (\<lparr>sp_size = GetDataSize b, sp_count = WB_Count b,
             sp_content_flags = content_flags b\<rparr> # stack)\<rparr>)"

definition WB_RollbackToSavePoint :: "WriteBatch \<Rightarrow> Status \<times> WriteBatch" where
  "WB_RollbackToSavePoint b =
     (case save_points b of
        Some (savepoint # stack) \<Rightarrow>
          (let b = b\<lparr>save_points := Some stack\<rparr>
           in (Status_OK,
               if sp_size savepoint = length (rep b) then b
               else if sp_size savepoint = 0 then WB_Clear b
               else (WB_SetCount (sp_count savepoint) (b\<lparr>rep := take (sp_size savepoint) (rep b)\<rparr>))
                      \<lparr>content_flags := sp_content_flags savepoint\<rparr>))
      | _ \<Rightarrow> (Status_code kNotFound kNone, b))"

definition WB_PopSavePoint :: "WriteBatch \<Rightarrow> Status \<times> WriteBatch" where
  "WB_PopSavePoint b =
     (case save_points b of
        Some (savepoint # stack) \<Rightarrow> (Status_OK, b\<lparr>save_points := Some stack\<rparr>)
      | _ \<Rightarrow> (Status_code kNotFound kNone, b))"

definition WB_SetContents :: "slice \<Rightarrow> WriteBatch \<Rightarrow> WriteBatch" where
  "WB_SetContents contents b = b\<lparr>rep := contents, content_flags := DEFERRED\<rparr>"

definition WB_Append :: "bool \<Rightarrow> WriteBatch \<Rightarrow> WriteBatch \<Rightarrow> WriteBatch" where
  "WB_Append wal_only src dst =
     (let batch_end = wal_term_point src;
          (src_len, src_count, src_flags) =
            (if wal_only \<and> \<not> is_cleared batch_end
             then (sp_size batch_end - WB_kHeader, sp_count batch_end, sp_content_flags batch_end)
             else (length (rep src) - WB_kHeader, WB_Count src, content_flags src));
          dst = WB_SetCount (WB_Count dst + src_count) dst;
          dst = dst\<lparr>rep := rep dst @ take src_len (drop WB_kHeader (rep src))\<rparr>
      in dst\<lparr>content_flags := content_flags dst OR src_flags\<rparr>)"

definition AppendedByteSize :: "nat \<Rightarrow> nat \<Rightarrow> nat" where
  "AppendedByteSize left right =
     (if left = 0 \<or> right = 0 then left + right else left + right - WB_kHeader)"

section \<open>Reading records\<close>

datatype wb_record =
  RPut u32 slice slice | RDelete u32 slice | RSingleDelete u32 slice | RDeleteRange u32 slice slice
  | RMerge u32 slice slice | RLogData slice | RNoop | RBeginPrepare | REndPrepare slice
  | RCommit slice | RRollback slice

definition ReadKeyFromWriteBatchEntry :: "bool \<Rightarrow> slice \<Rightarrow> (slice \<times> slice) option" where
  "ReadKeyFromWriteBatchEntry cf_record input =
     (let input = drop 1 input
      in if cf_record
         then case GetVarint32 input of None \<Rightarrow> None | Some (_, input) \<Rightarrow> GetLengthPrefixedSlice input
         else GetLengthPrefixedSlice input)"

definition read_cf :: "bool \<Rightarrow> slice \<Rightarrow> (u32 \<times> slice) option" where
  "read_cf cf_record input = (if cf_record then GetVarint32 input else Some (0, input))"

definition read_key_value ::
    "string \<Rightarrow> (u32 \<Rightarrow> slice \<Rightarrow> slice \<Rightarrow> wb_record) \<Rightarrow> bool \<Rightarrow> slice \<Rightarrow> Status + wb_record \<times> slice" where
  "read_key_value msg record cf_record input =
     (case read_cf cf_record input of
        None \<Rightarrow> Inl (Corruption msg)
      | Some (cf, input) \<Rightarrow>
          (case GetLengthPrefixedSlice input of
             None \<Rightarrow> Inl (Corruption msg)
           | Some (key, input) \<Rightarrow>
               (case GetLengthPrefixedSlice input of
                  None \<Rightarrow> Inl (Corruption msg)
                | Some (val, input) \<Rightarrow> Inr (record cf key val, input))))"

definition read_key ::
    "(u32 \<Rightarrow> slice \<Rightarrow> wb_record) \<Rightarrow> bool \<Rightarrow> slice \<Rightarrow> Status + wb_record \<times> slice" where
  "read_key record cf_record input =
     (case read_cf cf_record input of
        None \<Rightarrow> Inl (Corruption ''bad WriteBatch Delete'')
      | Some (cf, input) \<Rightarrow>
          (case GetLengthPrefixedSlice input of
             None \<Rightarrow> Inl (Corruption ''bad WriteBatch Delete'')
           | Some (key, input) \<Rightarrow> Inr (record cf key, input)))"

definition read_blob :: "string \<Rightarrow> (slice \<Rightarrow> wb_record) \<Rightarrow> slice \<Rightarrow> Status + wb_record \<times> slice" where
  "read_blob msg record input =
     (case GetLengthPrefixedSlice input of
        None \<Rightarrow> Inl (Corruption msg)
      | Some (blob, input) \<Rightarrow> Inr (record blob, input))"

text \<open>The tag and the slices that belong to it; the callers only pass a non-empty input.\<close>

definition ReadRecordFromWriteBatch :: "slice \<Rightarrow> Status + wb_record \<times> slice" where
  "ReadRecordFromWriteBatch inp =
     (let tag = hd inp; input = drop 1 inp
      in if tag = kTypeColumnFamilyValue \<or> tag = kTypeValue
         then read_key_value ''bad WriteBatch Put'' RPut (tag = kTypeColumnFamilyValue) input
         else if tag = kTypeColumnFamilyDeletion \<or> tag = kTypeDeletion
         then read_key RDelete (tag = kTypeColumnFamilyDeletion) input
         else if tag = kTypeColumnFamilySingleDeletion \<or> tag = kTypeSingleDeletion
         then read_key RSingleDelete (tag = kTypeColumnFamilySingleDeletion) input
         else if tag = kTypeColumnFamilyRangeDeletion \<or> tag = kTypeRangeDeletion
         then read_key_value ''bad WriteBatch DeleteRange'' RDeleteRange
                (tag = kTypeColumnFamilyRangeDeletion) input
         else if tag = kTypeColumnFamilyMerge \<or> tag = kTypeMerge
         then read_key_value ''bad WriteBatch Merge'' RMerge (tag = kTypeColumnFamilyMerge) input
         else if tag = kTypeLogData then read_blob ''bad WriteBatch Blob'' RLogData input
         else if tag = kTypeNoop then Inr (RNoop, input)
         else if tag = kTypeBeginPrepareXID then Inr (RBeginPrepare, input)
         else if tag = kTypeEndPrepareXID then read_blob ''bad EndPrepare XID'' REndPrepare input
         else if tag = kTypeCommitXID then read_blob ''bad Commit XID'' RCommit input
         else if tag = kTypeRollbackXID then read_blob ''bad Rollback XID'' RRollback input
         else Inl (Corruption ''unknown WriteBatch tag''))"

record 'h Handler =
  h_PutCF :: "u32 \<Rightarrow> slice \<Rightarrow> slice \<Rightarrow> 'h \<Rightarrow> Status \<times> 'h"
  h_DeleteCF :: "u32 \<Rightarrow> slice \<Rightarrow> 'h \<Rightarrow> Status \<times> 'h"
  h_SingleDeleteCF :: "u32 \<Rightarrow> slice \<Rightarrow> 'h \<Rightarrow> Status \<times> 'h"
  h_DeleteRangeCF :: "u32 \<Rightarrow> slice \<Rightarrow> slice \<Rightarrow> 'h \<Rightarrow> Status \<times> 'h"
  h_MergeCF :: "u32 \<Rightarrow> slice \<Rightarrow> slice \<Rightarrow> 'h \<Rightarrow> Status \<times> 'h"
  h_LogData :: "slice \<Rightarrow> 'h \<Rightarrow> 'h"
  h_MarkBeginPrepare :: "'h \<Rightarrow> Status \<times> 'h"
  h_MarkEndPrepare :: "slice \<Rightarrow> 'h \<Rightarrow> Status \<times> 'h"
  h_MarkCommit :: "slice \<Rightarrow> 'h \<Rightarrow> Status \<times> 'h"
  h_MarkRollback :: "slice \<Rightarrow> 'h \<Rightarrow> Status \<times> 'h"
  h_Continue :: "'h \<Rightarrow> bool"

text \<open>
  The switch of \<open>Iterate\<close>: the new status, whether the record counts, the handler's state. The status
  of the markers is dropped, as in the code.
\<close>

fun Iterate_switch :: "'h Handler \<Rightarrow> wb_record \<Rightarrow> Status \<Rightarrow> 'h \<Rightarrow> Status \<times> 'h" where
  "Iterate_switch h (RPut cf key val) s st = h_PutCF h cf key val st"
| "Iterate_switch h (RDelete cf key) s st = h_DeleteCF h cf key st"
| "Iterate_switch h (RSingleDelete cf key) s st = h_SingleDeleteCF h cf key st"
| "Iterate_switch h (RDeleteRange cf key val) s st = h_DeleteRangeCF h cf key val st"
| "Iterate_switch h (RMerge cf key val) s st = h_MergeCF h cf key val st"
| "Iterate_switch h (RLogData blob) s st = (s, h_LogData h blob st)"
| "Iterate_switch h RNoop s st = (s, st)"
| "Iterate_switch h RBeginPrepare s st = (s, snd (h_MarkBeginPrepare h st))"
| "Iterate_switch h (REndPrepare xid) s st = (s, snd (h_MarkEndPrepare h xid st))"
| "Iterate_switch h (RCommit xid) s st = (s, snd (h_MarkCommit h xid st))"
| "Iterate_switch h (RRollback xid) s st = (s, snd (h_MarkRollback h xid st))"

fun is_counted :: "wb_record \<Rightarrow> bool" where
  "is_counted (RPut _ _ _) = True"
| "is_counted (RDelete _ _) = True"
| "is_counted (RSingleDelete _ _) = True"
| "is_counted (RDeleteRange _ _ _) = True"
| "is_counted (RMerge _ _ _) = True"
| "is_counted _ = False"

lemma read_cf_shorter: "read_cf c input = Some (cf, rest) \<Longrightarrow> length rest \<le> length input"
  using GetVarint32_suffix by (fastforce simp: read_cf_def split: if_splits)

lemma read_shorter:
  "read_key_value msg C c input = Inr (r, rest) \<Longrightarrow> length rest \<le> length input"
  "read_key C' c input = Inr (r, rest) \<Longrightarrow> length rest \<le> length input"
  "read_blob msg C'' input = Inr (r, rest) \<Longrightarrow> length rest \<le> length input"
  by (auto simp: read_key_value_def read_key_def read_blob_def split: option.splits
      dest!: GetLengthPrefixedSlice_shorter read_cf_shorter)

lemma ReadRecord_shorter:
  assumes "ReadRecordFromWriteBatch inp = Inr (r, rest)" "inp \<noteq> []"
  shows "length rest < length inp"
proof -
  have "length rest \<le> length (drop 1 inp)"
    using assms(1) unfolding ReadRecordFromWriteBatch_def Let_def
    by (simp split: if_splits) (auto dest!: read_shorter)
  then show ?thesis using assms(2) by (cases inp) auto
qed

function Iterate_loop :: "'h Handler \<Rightarrow> slice \<Rightarrow> Status \<Rightarrow> nat \<Rightarrow> 'h \<Rightarrow> Status \<times> nat \<times> 'h" where
  "Iterate_loop h input s found st =
     (if ok s \<and> input \<noteq> [] \<and> h_Continue h st
      then case ReadRecordFromWriteBatch input of
             Inl e \<Rightarrow> (e, found, st)
           | Inr (r, input) \<Rightarrow>
               (let (s, st) = Iterate_switch h r s st
                in Iterate_loop h input s (if is_counted r then found + 1 else found) st)
      else (s, found, st))"
  by pat_completeness auto

termination Iterate_loop
  by (relation "measure (\<lambda>(h, input, s, found, st). length input)") (auto simp: ReadRecord_shorter)

declare Iterate_loop.simps [simp del]

definition Iterate :: "'h Handler \<Rightarrow> WriteBatch \<Rightarrow> 'h \<Rightarrow> Status \<times> 'h" where
  "Iterate h b st =
     (if length (rep b) < WB_kHeader then (Corruption ''malformed WriteBatch (too small)'', st)
      else let (s, found, st) = Iterate_loop h (drop WB_kHeader (rep b)) Status_OK 0 st
           in if \<not> ok s then (s, st)
              else if of_nat found \<noteq> WB_Count b then (Corruption ''WriteBatch has wrong count'', st)
              else (Status_OK, st))"

text \<open>\<open>BatchContentClassifier\<close>: the state is its \<open>content_flags\<close>.\<close>

definition BatchContentClassifier :: "u32 Handler" where
  "BatchContentClassifier =
     \<lparr>h_PutCF = (\<lambda>_ _ _ f. (Status_OK, f OR HAS_PUT)),
      h_DeleteCF = (\<lambda>_ _ f. (Status_OK, f OR HAS_DELETE)),
      h_SingleDeleteCF = (\<lambda>_ _ f. (Status_OK, f OR HAS_SINGLE_DELETE)),
      h_DeleteRangeCF = (\<lambda>_ _ _ f. (Status_OK, f OR HAS_DELETE_RANGE)),
      h_MergeCF = (\<lambda>_ _ _ f. (Status_OK, f OR HAS_MERGE)),
      h_LogData = (\<lambda>_ f. f),
      h_MarkBeginPrepare = (\<lambda>f. (Status_OK, f OR HAS_BEGIN_PREPARE)),
      h_MarkEndPrepare = (\<lambda>_ f. (Status_OK, f OR HAS_END_PREPARE)),
      h_MarkCommit = (\<lambda>_ f. (Status_OK, f OR HAS_COMMIT)),
      h_MarkRollback = (\<lambda>_ f. (Status_OK, f OR HAS_ROLLBACK)),
      h_Continue = (\<lambda>_. True)\<rparr>"

definition ComputeContentFlags :: "WriteBatch \<Rightarrow> u32 \<times> WriteBatch" where
  "ComputeContentFlags b =
     (if content_flags b AND DEFERRED \<noteq> 0
      then let rv = snd (Iterate BatchContentClassifier b 0) in (rv, b\<lparr>content_flags := rv\<rparr>)
      else (content_flags b, b))"

definition HasPut :: "WriteBatch \<Rightarrow> bool" where
  "HasPut b \<longleftrightarrow> fst (ComputeContentFlags b) AND HAS_PUT \<noteq> 0"
definition HasDelete :: "WriteBatch \<Rightarrow> bool" where
  "HasDelete b \<longleftrightarrow> fst (ComputeContentFlags b) AND HAS_DELETE \<noteq> 0"
definition HasSingleDelete :: "WriteBatch \<Rightarrow> bool" where
  "HasSingleDelete b \<longleftrightarrow> fst (ComputeContentFlags b) AND HAS_SINGLE_DELETE \<noteq> 0"
definition HasDeleteRange :: "WriteBatch \<Rightarrow> bool" where
  "HasDeleteRange b \<longleftrightarrow> fst (ComputeContentFlags b) AND HAS_DELETE_RANGE \<noteq> 0"
definition HasMerge :: "WriteBatch \<Rightarrow> bool" where
  "HasMerge b \<longleftrightarrow> fst (ComputeContentFlags b) AND HAS_MERGE \<noteq> 0"
definition HasBeginPrepare :: "WriteBatch \<Rightarrow> bool" where
  "HasBeginPrepare b \<longleftrightarrow> fst (ComputeContentFlags b) AND HAS_BEGIN_PREPARE \<noteq> 0"
definition HasEndPrepare :: "WriteBatch \<Rightarrow> bool" where
  "HasEndPrepare b \<longleftrightarrow> fst (ComputeContentFlags b) AND HAS_END_PREPARE \<noteq> 0"
definition HasCommit :: "WriteBatch \<Rightarrow> bool" where
  "HasCommit b \<longleftrightarrow> fst (ComputeContentFlags b) AND HAS_COMMIT \<noteq> 0"
definition HasRollback :: "WriteBatch \<Rightarrow> bool" where
  "HasRollback b \<longleftrightarrow> fst (ComputeContentFlags b) AND HAS_ROLLBACK \<noteq> 0"

section \<open>The records a batch holds\<close>

definition tag_bytes :: "u32 \<Rightarrow> ValueType \<Rightarrow> ValueType \<Rightarrow> slice" where
  "tag_bytes cf t t_cf = (if cf = 0 then [t] else t_cf # EncodeVarint32 cf)"

definition lp_bytes :: "slice \<Rightarrow> slice" where
  "lp_bytes s = EncodeVarint32 (of_nat (length s)) @ s"

fun record_bytes :: "wb_record \<Rightarrow> slice" where
  "record_bytes (RPut cf k v) = tag_bytes cf kTypeValue kTypeColumnFamilyValue @ lp_bytes k @ lp_bytes v"
| "record_bytes (RDelete cf k) = tag_bytes cf kTypeDeletion kTypeColumnFamilyDeletion @ lp_bytes k"
| "record_bytes (RSingleDelete cf k) =
     tag_bytes cf kTypeSingleDeletion kTypeColumnFamilySingleDeletion @ lp_bytes k"
| "record_bytes (RDeleteRange cf k v) =
     tag_bytes cf kTypeRangeDeletion kTypeColumnFamilyRangeDeletion @ lp_bytes k @ lp_bytes v"
| "record_bytes (RMerge cf k v) = tag_bytes cf kTypeMerge kTypeColumnFamilyMerge @ lp_bytes k @ lp_bytes v"
| "record_bytes (RLogData blob) = kTypeLogData # lp_bytes blob"
| "record_bytes RNoop = [kTypeNoop]"
| "record_bytes RBeginPrepare = [kTypeBeginPrepareXID]"
| "record_bytes (REndPrepare xid) = kTypeEndPrepareXID # lp_bytes xid"
| "record_bytes (RCommit xid) = kTypeCommitXID # lp_bytes xid"
| "record_bytes (RRollback xid) = kTypeRollbackXID # lp_bytes xid"

fun record_flag :: "wb_record \<Rightarrow> u32" where
  "record_flag (RPut _ _ _) = HAS_PUT"
| "record_flag (RDelete _ _) = HAS_DELETE"
| "record_flag (RSingleDelete _ _) = HAS_SINGLE_DELETE"
| "record_flag (RDeleteRange _ _ _) = HAS_DELETE_RANGE"
| "record_flag (RMerge _ _ _) = HAS_MERGE"
| "record_flag (RLogData _) = 0"
| "record_flag RNoop = 0"
| "record_flag RBeginPrepare = HAS_BEGIN_PREPARE"
| "record_flag (REndPrepare _) = HAS_END_PREPARE"
| "record_flag (RCommit _) = HAS_COMMIT"
| "record_flag (RRollback _) = HAS_ROLLBACK"

fun record_fits :: "wb_record \<Rightarrow> bool" where
  "record_fits (RPut cf k v) \<longleftrightarrow> length k < 2 ^ 32 \<and> length v < 2 ^ 32"
| "record_fits (RDelete cf k) \<longleftrightarrow> length k < 2 ^ 32"
| "record_fits (RSingleDelete cf k) \<longleftrightarrow> length k < 2 ^ 32"
| "record_fits (RDeleteRange cf k v) \<longleftrightarrow> length k < 2 ^ 32 \<and> length v < 2 ^ 32"
| "record_fits (RMerge cf k v) \<longleftrightarrow> length k < 2 ^ 32 \<and> length v < 2 ^ 32"
| "record_fits (RLogData s) \<longleftrightarrow> length s < 2 ^ 32"
| "record_fits RNoop \<longleftrightarrow> True"
| "record_fits RBeginPrepare \<longleftrightarrow> True"
| "record_fits (REndPrepare s) \<longleftrightarrow> length s < 2 ^ 32"
| "record_fits (RCommit s) \<longleftrightarrow> length s < 2 ^ 32"
| "record_fits (RRollback s) \<longleftrightarrow> length s < 2 ^ 32"

definition batch_flags :: "wb_record list \<Rightarrow> u32" where
  "batch_flags rs = foldl (\<lambda>f r. f OR record_flag r) 0 rs"

definition batch_holds :: "u64 \<Rightarrow> wb_record list \<Rightarrow> WriteBatch \<Rightarrow> bool" where
  "batch_holds seq rs b \<longleftrightarrow>
     rep b = EncodeFixed64 seq @ EncodeFixed32 (of_nat (length (filter is_counted rs))) @
       concat (map record_bytes rs) \<and>
     (content_flags b AND DEFERRED \<noteq> 0 \<or> content_flags b = batch_flags rs)"

lemma lp_read [codec_simps]:
  "length s < 2 ^ 32 \<Longrightarrow> GetLengthPrefixedSlice (lp_bytes s @ rest) = Some (s, rest)"
  using GetLengthPrefixedSlice_Put [of s rest] by (simp add: lp_bytes_def)

lemma ReadRecord_bytes:
  assumes "record_fits r"
  shows "ReadRecordFromWriteBatch (record_bytes r @ rest) = Inr (r, rest)"
  using assms
  by (cases r) (auto simp: ReadRecordFromWriteBatch_def value_type_defs read_key_value_def read_key_def read_blob_def
      read_cf_def tag_bytes_def lp_read GetVarint32_Encode Let_def)

lemma record_bytes_nonempty [simp]: "record_bytes r \<noteq> []"
  by (cases r) (simp_all add: tag_bytes_def)

subsection \<open>Iterate\<close>

text \<open>What a handler is called with, in order, up to the first call that fails.\<close>

primrec replay :: "'h Handler \<Rightarrow> wb_record list \<Rightarrow> Status \<Rightarrow> 'h \<Rightarrow> Status \<times> 'h" where
  "replay h [] s st = (s, st)"
| "replay h (r # rs) s st =
     (let (s, st) = Iterate_switch h r s st in if ok s then replay h rs s st else (s, st))"

lemma Iterate_loop_records:
  assumes "\<forall>r \<in> set rs. record_fits r" "\<And>st. h_Continue h st" "ok s"
  shows "\<exists>n. Iterate_loop h (concat (map record_bytes rs)) s found st =
      (fst (replay h rs s st), n, snd (replay h rs s st)) \<and>
    (ok (fst (replay h rs s st)) \<longrightarrow> n = found + length (filter is_counted rs))"
  using assms(1,3)
proof (induction rs arbitrary: s found st)
  case Nil
  then show ?case by (simp add: Iterate_loop.simps)
next
  case (Cons r rs)
  obtain s1 st1 where sw: "Iterate_switch h r s st = (s1, st1)" by fastforce
  have step: "Iterate_loop h (concat (map record_bytes (r # rs))) s found st =
      Iterate_loop h (concat (map record_bytes rs)) s1 (if is_counted r then found + 1 else found) st1"
    using Cons.prems assms(2) sw ReadRecord_bytes [of r] by (subst Iterate_loop.simps) simp
  show ?case
  proof (cases "ok s1")
    case True
    then show ?thesis using Cons.IH [of s1 "if is_counted r then found + 1 else found" st1] Cons.prems step sw
      by auto
  next
    case False
    then show ?thesis using step sw by (auto simp: Iterate_loop.simps [of h "concat (map record_bytes rs)"])
  qed
qed

lemma batch_holds_header:
  assumes "batch_holds seq rs b"
  shows "WB_Count b = of_nat (length (filter is_counted rs))" "WB_Sequence b = seq"
    "drop WB_kHeader (rep b) = concat (map record_bytes rs)" "\<not> length (rep b) < WB_kHeader"
  using assms by (simp_all add: batch_holds_def WB_Count_def WB_Sequence_def WB_kHeader_def codec_simps)

lemma Iterate_replay:
  assumes "batch_holds seq rs b" "\<forall>r \<in> set rs. record_fits r" "\<And>st. h_Continue h st"
  shows "Iterate h b st =
    (let (s, st) = replay h rs Status_OK st in (if ok s then Status_OK else s, st))"
proof -
  obtain n where n: "Iterate_loop h (concat (map record_bytes rs)) Status_OK 0 st =
      (fst (replay h rs Status_OK st), n, snd (replay h rs Status_OK st))"
    "ok (fst (replay h rs Status_OK st)) \<longrightarrow> n = length (filter is_counted rs)"
    using Iterate_loop_records [OF assms(2,3), of Status_OK 0 st] by auto
  show ?thesis
    unfolding Iterate_def batch_holds_header(3) [OF assms(1)] n(1)
    using batch_holds_header(1,4) [OF assms(1)] n(2) by (auto simp: split_beta Let_def)
qed

subsection \<open>Adding\<close>

definition WB_with :: "wb_record \<Rightarrow> WriteBatch \<Rightarrow> WriteBatch" where
  "WB_with r b =
     b\<lparr>rep := (if is_counted r then write_at (rep b) 8 (EncodeFixed32 (WB_Count b + 1)) else rep b) @ record_bytes r,
       content_flags := content_flags b OR record_flag r\<rparr>"

lemma WB_put_simps:
  "WB_put_slice s b = b\<lparr>rep := rep b @ lp_bytes s\<rparr>"
  "WB_put_parts ps b = b\<lparr>rep := rep b @ lp_bytes (concat ps)\<rparr>"
  by (simp_all add: WB_put_slice_def WB_put_parts_def PutLengthPrefixedSliceParts_eq PutLengthPrefixedSlice_def
      PutVarint32_def lp_bytes_def)

lemma WB_push_tag_simps: "WB_push_tag cf t t_cf b = b\<lparr>rep := rep b @ tag_bytes cf t t_cf\<rparr>"
  by (simp add: WB_push_tag_def tag_bytes_def PutVarint32_def)

lemmas WB_op_defs = WB_Put_def WB_Put_parts_def WB_Delete_def WB_Delete_parts_def WB_SingleDelete_def
  WB_SingleDelete_parts_def WB_DeleteRange_def WB_DeleteRange_parts_def WB_Merge_def WB_Merge_parts_def
  WB_PutLogData_def

lemma WB_ops_with:
  "WB_Put cf k v b = WB_commit (LocalSavePoint b) (WB_with (RPut cf k v) b)"
  "WB_Put_parts cf kp vp b = WB_commit (LocalSavePoint b) (WB_with (RPut cf (concat kp) (concat vp)) b)"
  "WB_Delete cf k b = WB_commit (LocalSavePoint b) (WB_with (RDelete cf k) b)"
  "WB_Delete_parts cf kp b = WB_commit (LocalSavePoint b) (WB_with (RDelete cf (concat kp)) b)"
  "WB_SingleDelete cf k b = WB_commit (LocalSavePoint b) (WB_with (RSingleDelete cf k) b)"
  "WB_SingleDelete_parts cf kp b = WB_commit (LocalSavePoint b) (WB_with (RSingleDelete cf (concat kp)) b)"
  "WB_DeleteRange cf k v b = WB_commit (LocalSavePoint b) (WB_with (RDeleteRange cf k v) b)"
  "WB_DeleteRange_parts cf kp vp b =
     WB_commit (LocalSavePoint b) (WB_with (RDeleteRange cf (concat kp) (concat vp)) b)"
  "WB_Merge cf k v b = WB_commit (LocalSavePoint b) (WB_with (RMerge cf k v) b)"
  "WB_Merge_parts cf kp vp b = WB_commit (LocalSavePoint b) (WB_with (RMerge cf (concat kp) (concat vp)) b)"
  "WB_PutLogData blob b = WB_commit (LocalSavePoint b) (WB_with (RLogData blob) b)"
  "WB_InsertNoop b = (Status_OK, WB_with RNoop b)"
  "WB_MarkCommit xid b = (Status_OK, WB_with (RCommit xid) b)"
  "WB_MarkRollback xid b = (Status_OK, WB_with (RRollback xid) b)"
  by (simp_all add: WB_op_defs WB_InsertNoop_def WB_MarkCommit_def WB_MarkRollback_def WB_with_def WB_put_simps
      WB_push_tag_simps WB_add_flag_def WB_SetCount_def Let_def)

datatype wb_op =
  OpPut u32 slice slice | OpPutParts u32 "slice list" "slice list"
  | OpDelete u32 slice | OpDeleteParts u32 "slice list"
  | OpSingleDelete u32 slice | OpSingleDeleteParts u32 "slice list"
  | OpDeleteRange u32 slice slice | OpDeleteRangeParts u32 "slice list" "slice list"
  | OpMerge u32 slice slice | OpMergeParts u32 "slice list" "slice list"
  | OpLogData slice | OpNoop | OpCommit slice | OpRollback slice

fun run_op :: "wb_op \<Rightarrow> WriteBatch \<Rightarrow> Status \<times> WriteBatch" where
  "run_op (OpPut cf k v) b = WB_Put cf k v b"
| "run_op (OpPutParts cf k v) b = WB_Put_parts cf k v b"
| "run_op (OpDelete cf k) b = WB_Delete cf k b"
| "run_op (OpDeleteParts cf k) b = WB_Delete_parts cf k b"
| "run_op (OpSingleDelete cf k) b = WB_SingleDelete cf k b"
| "run_op (OpSingleDeleteParts cf k) b = WB_SingleDelete_parts cf k b"
| "run_op (OpDeleteRange cf k v) b = WB_DeleteRange cf k v b"
| "run_op (OpDeleteRangeParts cf k v) b = WB_DeleteRange_parts cf k v b"
| "run_op (OpMerge cf k v) b = WB_Merge cf k v b"
| "run_op (OpMergeParts cf k v) b = WB_Merge_parts cf k v b"
| "run_op (OpLogData s) b = WB_PutLogData s b"
| "run_op OpNoop b = WB_InsertNoop b"
| "run_op (OpCommit s) b = WB_MarkCommit s b"
| "run_op (OpRollback s) b = WB_MarkRollback s b"

fun op_record :: "wb_op \<Rightarrow> wb_record" where
  "op_record (OpPut cf k v) = RPut cf k v"
| "op_record (OpPutParts cf k v) = RPut cf (concat k) (concat v)"
| "op_record (OpDelete cf k) = RDelete cf k"
| "op_record (OpDeleteParts cf k) = RDelete cf (concat k)"
| "op_record (OpSingleDelete cf k) = RSingleDelete cf k"
| "op_record (OpSingleDeleteParts cf k) = RSingleDelete cf (concat k)"
| "op_record (OpDeleteRange cf k v) = RDeleteRange cf k v"
| "op_record (OpDeleteRangeParts cf k v) = RDeleteRange cf (concat k) (concat v)"
| "op_record (OpMerge cf k v) = RMerge cf k v"
| "op_record (OpMergeParts cf k v) = RMerge cf (concat k) (concat v)"
| "op_record (OpLogData s) = RLogData s"
| "op_record OpNoop = RNoop"
| "op_record (OpCommit s) = RCommit s"
| "op_record (OpRollback s) = RRollback s"

primrec run_ops :: "wb_op list \<Rightarrow> WriteBatch \<Rightarrow> WriteBatch" where
  "run_ops [] b = b"
| "run_ops (x # xs) b = run_ops xs (snd (run_op x b))"

lemma or_zero_iff: "(a :: u32) OR b = 0 \<longleftrightarrow> a = 0 \<and> b = 0"
  by (auto simp: bit_eq_iff bit_simps)

lemma or_flag_nonzero: "(f :: u32) AND d \<noteq> 0 \<Longrightarrow> (f OR x) AND d \<noteq> 0" "x AND d \<noteq> 0 \<Longrightarrow> (f OR x) AND d \<noteq> 0"
  by (simp_all add: bit.conj_disj_distrib2 or_zero_iff)

lemma batch_flags_snoc [simp]: "batch_flags (rs @ [r]) = batch_flags rs OR record_flag r"
  by (simp add: batch_flags_def)

lemma header_write [simp]:
  "write_at (EncodeFixed64 s @ EncodeFixed32 c @ rest) 8 (EncodeFixed32 d) = EncodeFixed64 s @ EncodeFixed32 d @ rest"
  by (simp add: write_at_def)

lemma batch_holds_with [inv_intros]:
  "batch_holds seq rs b \<Longrightarrow> batch_holds seq (rs @ [r]) (WB_with r b)"
  using batch_holds_header(1) [of seq rs b]
  by (auto simp: batch_holds_def WB_with_def or_flag_nonzero add.commute)

lemma WB_commit_with:
  assumes "batch_holds seq rs b"
  shows "WB_commit (LocalSavePoint b) (WB_with r b) =
    (if max_bytes b \<noteq> 0 \<and> max_bytes b < length (rep b) + length (record_bytes r)
     then (MemoryLimit, b) else (Status_OK, WB_with r b))"
proof -
  define body where "body = concat (map record_bytes rs)"
  define c :: u32 where "c = of_nat (length (filter is_counted rs))"
  have b: "rep b = EncodeFixed64 seq @ EncodeFixed32 c @ body"
    using assms by (simp add: batch_holds_def body_def c_def)
  have c: "WB_Count b = c" using batch_holds_header(1) [OF assms] by (simp add: c_def)
  have w: "rep (WB_with r b) =
      EncodeFixed64 seq @ EncodeFixed32 (if is_counted r then c + 1 else c) @ body @ record_bytes r"
    by (simp add: WB_with_def b c)
  have "length (rep (WB_with r b)) = length (rep b) + length (record_bytes r)" by (simp add: w b)
  moreover have "WB_SetCount (WB_Count b) ((WB_with r b)\<lparr>rep := take (length (rep b)) (rep (WB_with r b))\<rparr>)
      \<lparr>content_flags := content_flags b\<rparr> = b"
    by (simp add: WB_SetCount_def c w b) (simp add: WB_with_def b [symmetric])
  ultimately show ?thesis
    by (simp add: WB_commit_def LocalSavePoint_def GetDataSize_def WB_with_def Let_def)
qed

lemma run_op_spec:
  assumes "batch_holds seq rs b"
  shows "run_op x b = (Status_OK, WB_with (op_record x) b) \<or> run_op x b = (MemoryLimit, b)"
  using WB_commit_with [OF assms] by (cases x) (auto simp: WB_ops_with)

lemma run_ops_spec:
  assumes "batch_holds seq rs b"
  shows "\<exists>rs'. run_ops xs b = foldl (\<lambda>b r. WB_with r b) b rs' \<and> batch_holds seq (rs @ rs') (run_ops xs b)"
  using assms
proof (induction xs arbitrary: b rs)
  case Nil
  then show ?case by (intro exI [of _ "[]"]) simp
next
  case (Cons x xs)
  show ?case
  proof (cases "run_op x b = (MemoryLimit, b)")
    case True
    then show ?thesis using Cons by simp
  next
    case False
    then have x: "run_op x b = (Status_OK, WB_with (op_record x) b)"
      using run_op_spec [OF Cons.prems] by blast
    obtain rs' where "run_ops xs (WB_with (op_record x) b) = foldl (\<lambda>b r. WB_with r b) (WB_with (op_record x) b) rs'"
      "batch_holds seq ((rs @ [op_record x]) @ rs') (run_ops xs (WB_with (op_record x) b))"
      using Cons.IH [OF batch_holds_with [OF Cons.prems]] by blast
    then show ?thesis using x by (intro exI [of _ "op_record x # rs'"]) simp
  qed
qed

lemma foldl_WB_with [simp]:
  "save_points (foldl (\<lambda>b r. WB_with r b) b rs) = save_points b"
  "wal_term_point (foldl (\<lambda>b r. WB_with r b) b rs) = wal_term_point b"
  "max_bytes (foldl (\<lambda>b r. WB_with r b) b rs) = max_bytes b"
  by (induction rs arbitrary: b) (simp_all add: WB_with_def)

lemma batch_holds_make [inv_intros]: "batch_holds 0 [] (WB_make mb)"
proof -
  have "replicate 12 (0 :: byte) = EncodeFixed64 0 @ EncodeFixed32 0" by code_simp
  then show ?thesis by (simp add: batch_holds_def WB_make_def WB_kHeader_def batch_flags_def)
qed

section \<open>Properties\<close>



text \<open>
  C21: an operation either appends exactly its record, and the batch stays within its limit, or reports
  \<open>MemoryLimit\<close> and leaves the batch as it was.
\<close>

theorem write_batch_op_atomic:
  assumes "batch_holds seq rs b" "x \<notin> {OpNoop} \<union> range OpCommit \<union> range OpRollback"
  shows "run_op x b = (Status_OK, WB_with (op_record x) b) \<and>
      batch_holds seq (rs @ [op_record x]) (WB_with (op_record x) b) \<and>
      (max_bytes b \<noteq> 0 \<longrightarrow> GetDataSize (WB_with (op_record x) b) \<le> max_bytes b)
    \<or> run_op x b = (MemoryLimit, b) \<and> max_bytes b \<noteq> 0 \<and>
      max_bytes b < GetDataSize b + length (record_bytes (op_record x))"
proof -
  have "length (rep (WB_with r b)) = length (rep b) + length (record_bytes r)" for r
    using assms(1) by (simp add: WB_with_def batch_holds_def)
  moreover have "run_op x b = WB_commit (LocalSavePoint b) (WB_with (op_record x) b)"
    using assms(2) by (cases x) (simp_all add: WB_ops_with)
  ultimately show ?thesis
    using WB_commit_with [OF assms(1), of "op_record x"] batch_holds_with [OF assms(1), of "op_record x"]
    by (auto simp: GetDataSize_def)
qed

theorem write_batch_op_atomic_witness:
  "run_op (OpPut 0 [1] [2]) (WB_make 15) = (MemoryLimit, WB_make 15)"
proof -
  have "GetDataSize (WB_make 15) = 12" by code_simp
  moreover have "length (record_bytes (op_record (OpPut 0 [1] [2]))) = 5" by code_simp
  moreover have "GetDataSize (WB_with (op_record (OpPut 0 [1] [2])) (WB_make 15)) = 17" by code_simp
  ultimately show ?thesis
    using write_batch_op_atomic [OF batch_holds_make, of "OpPut 0 [1] [2]" 15] by (auto simp: WB_make_def)
qed

text \<open>
  C22: rolling back to a save point undoes every operation since, the count and the flags included,
  whichever of them succeeded.
\<close>

theorem rollback_to_save_point:
  assumes "batch_holds seq rs b"
  shows "WB_RollbackToSavePoint (run_ops ops (WB_SetSavePoint b)) =
    (Status_OK, b\<lparr>save_points := Some (case save_points b of None \<Rightarrow> [] | Some st \<Rightarrow> st)\<rparr>)"
proof -
  define stack where "stack = (case save_points b of None \<Rightarrow> [] | Some st \<Rightarrow> st)"
  define sp where "sp = \<lparr>sp_size = GetDataSize b, sp_count = WB_Count b, sp_content_flags = content_flags b\<rparr>"
  define b0 where "b0 = b\<lparr>save_points := Some (sp # stack)\<rparr>"
  have b0: "WB_SetSavePoint b = b0" by (simp add: WB_SetSavePoint_def b0_def sp_def stack_def)
  have h0: "batch_holds seq rs b0" using assms by (simp add: batch_holds_def b0_def)
  obtain rs' where rs': "run_ops ops b0 = foldl (\<lambda>b r. WB_with r b) b0 rs'"
    "batch_holds seq (rs @ rs') (run_ops ops b0)"
    using run_ops_spec [OF h0] by blast
  define b1 where "b1 = run_ops ops b0"
  define body c d where "body = concat (map record_bytes rs)" and
    "c = (of_nat (length (filter is_counted rs)) :: u32)" and
    "d = (of_nat (length (filter is_counted (rs @ rs'))) :: u32)"
  have r0: "rep b = EncodeFixed64 seq @ EncodeFixed32 c @ body"
    using assms by (simp add: batch_holds_def body_def c_def)
  have r1: "rep b1 = EncodeFixed64 seq @ EncodeFixed32 d @ body @ concat (map record_bytes rs')"
    using rs'(2) by (simp add: b1_def batch_holds_def body_def d_def)
  have c: "WB_Count b = c" using batch_holds_header(1) [OF assms] by (simp add: c_def)
  have f1: "save_points b1 = Some (sp # stack)" "wal_term_point b1 = wal_term_point b" "max_bytes b1 = max_bytes b"
    using rs'(1) by (simp_all add: b1_def b0_def)
  have sz: "sp_size sp = length (rep b)" "sp_size sp \<noteq> 0" by (simp_all add: sp_def GetDataSize_def r0)
  show ?thesis
  proof (cases "length (rep b) = length (rep b1)")
    case True
    then have "rs' = []" unfolding r0 r1 by (cases rs') auto
    then have "run_ops ops b0 = b0" using rs'(1) by simp
    then show ?thesis
      unfolding b0 stack_def [symmetric] by (simp add: WB_RollbackToSavePoint_def b0_def sz(1))
  next
    case False
    have "take (sp_size sp) (rep b1) = EncodeFixed64 seq @ EncodeFixed32 d @ body"
      unfolding sz(1) r0 r1 by simp
    then have "write_at (take (sp_size sp) (rep b1)) 8 (EncodeFixed32 (sp_count sp)) = rep b"
      by (simp add: sp_def c r0)
    note rb = this
    define b2 where "b2 = b1\<lparr>save_points := Some stack, rep := rep b, content_flags := content_flags b\<rparr>"
    have "WB_RollbackToSavePoint b1 = (Status_OK, b2)"
      unfolding WB_RollbackToSavePoint_def f1(1)
      using rb sz False by (simp add: WB_SetCount_def b2_def) (simp add: sp_def)
    moreover have "b2 = b\<lparr>save_points := Some stack\<rparr>"
      by (rule WriteBatch.WriteBatch.equality) (simp_all add: b2_def f1)
    ultimately show ?thesis unfolding b0 b1_def [symmetric] stack_def [symmetric] by simp
  qed
qed

theorem rollback_to_save_point_witness:
  "WB_RollbackToSavePoint (run_ops [OpMerge 7 [1] [2], OpNoop] (WB_SetSavePoint (WB_make 20))) =
   (Status_OK, (WB_make 20)\<lparr>save_points := Some []\<rparr>)"
  using rollback_to_save_point [OF batch_holds_make, of "[OpMerge 7 [1] [2], OpNoop]" 20]
  by (simp add: WB_make_def)

lemma batch_flags_fold: "foldl (\<lambda>f r. f OR record_flag r) a rs = a OR batch_flags rs"
proof (induction rs rule: rev_induct)
  case Nil
  show ?case by (simp add: batch_flags_def)
next
  case (snoc r rs)
  then show ?case by (simp add: or.assoc)
qed

lemma batch_flags_append: "batch_flags (rs @ rs') = batch_flags rs OR batch_flags rs'"
  using batch_flags_fold [of "batch_flags rs" rs'] by (simp add: batch_flags_def)

text \<open>
  C23: appending a batch appends its records; with \<open>wal_only\<close>, those before the point that was marked
  as the end of what goes to the log.
\<close>

theorem write_batch_append:
  assumes "batch_holds seq rs dst" "batch_holds seq' rs' src"
  shows "batch_holds seq (rs @ rs') (WB_Append False src dst) \<and>
    batch_holds seq (rs @ rs') (WB_Append True (run_ops ops (MarkWalTerminationPoint src)) dst)"
proof -
  have gen: "batch_holds seq (rs @ rs')
      ((WB_SetCount (WB_Count dst + of_nat (length (filter is_counted rs'))) dst)
        \<lparr>rep := rep (WB_SetCount (WB_Count dst + of_nat (length (filter is_counted rs'))) dst) @
           concat (map record_bytes rs'), content_flags := content_flags dst OR content_flags src\<rparr>)"
    using assms batch_holds_header(1) [OF assms(1)]
    by (auto simp: batch_holds_def WB_SetCount_def batch_flags_append or_flag_nonzero)
  have len: "length (rep src) - WB_kHeader = length (concat (map record_bytes rs'))" "length (rep src) \<noteq> 0"
    using assms(2) by (simp_all add: batch_holds_def WB_kHeader_def)
  have 1: "WB_Append False src dst =
      (WB_SetCount (WB_Count dst + of_nat (length (filter is_counted rs'))) dst)
        \<lparr>rep := rep (WB_SetCount (WB_Count dst + of_nat (length (filter is_counted rs'))) dst) @
           concat (map record_bytes rs'), content_flags := content_flags dst OR content_flags src\<rparr>"
    using batch_holds_header [OF assms(2)]
    by (simp add: WB_Append_def WB_SetCount_def len Let_def)
  define src0 where "src0 = MarkWalTerminationPoint src"
  have h0: "batch_holds seq' rs' src0" using assms(2) by (simp add: src0_def MarkWalTerminationPoint_def batch_holds_def)
  obtain rs2 where rs2: "run_ops ops src0 = foldl (\<lambda>b r. WB_with r b) src0 rs2"
    "batch_holds seq' (rs' @ rs2) (run_ops ops src0)"
    using run_ops_spec [OF h0] by blast
  have wt: "wal_term_point (run_ops ops src0) =
      \<lparr>sp_size = length (rep src), sp_count = of_nat (length (filter is_counted rs')),
       sp_content_flags = content_flags src\<rparr>"
    using batch_holds_header(1) [OF assms(2)]
    by (simp add: rs2(1)) (simp add: src0_def MarkWalTerminationPoint_def GetDataSize_def)
  have 2: "WB_Append True (run_ops ops src0) dst =
      (WB_SetCount (WB_Count dst + of_nat (length (filter is_counted rs'))) dst)
        \<lparr>rep := rep (WB_SetCount (WB_Count dst + of_nat (length (filter is_counted rs'))) dst) @
           concat (map record_bytes rs'), content_flags := content_flags dst OR content_flags src\<rparr>"
    using batch_holds_header(3) [OF rs2(2)] len(2)
    by (simp add: WB_Append_def wt is_cleared_def WB_SetCount_def len(1) Let_def)
  show ?thesis using gen unfolding 1 src0_def [symmetric] 2 by blast
qed

theorem write_batch_append_witness:
  "batch_holds 0 [] (WB_Append True (run_ops [OpNoop] (MarkWalTerminationPoint (WB_make 0))) (WB_make 0))"
  using write_batch_append [OF batch_holds_make batch_holds_make, of 0 0 "[OpNoop]"] by simp

lemma replay_classifier:
  "replay BatchContentClassifier rs Status_OK f = (Status_OK, f OR batch_flags rs)"
proof (induction rs arbitrary: f)
  case Nil
  then show ?case by (simp add: batch_flags_def)
next
  case (Cons r rs)
  have "Iterate_switch BatchContentClassifier r Status_OK f = (Status_OK, f OR record_flag r)"
    by (cases r) (simp_all add: BatchContentClassifier_def)
  moreover have "batch_flags (r # rs) = record_flag r OR batch_flags rs"
    using batch_flags_append [of "[r]" rs] by (simp add: batch_flags_def)
  ultimately show ?case using Cons by (simp add: or.assoc)
qed

lemma content_flags_of:
  assumes "batch_holds seq rs b" "\<forall>r \<in> set rs. record_fits r"
  shows "fst (ComputeContentFlags b) = batch_flags rs"
proof -
  have "Iterate BatchContentClassifier b 0 = (Status_OK, batch_flags rs)"
    using Iterate_replay [OF assms, of BatchContentClassifier 0] replay_classifier [of rs 0]
    by (simp add: BatchContentClassifier_def)
  then show ?thesis
    using assms(1) by (auto simp: ComputeContentFlags_def batch_holds_def Let_def)
qed

lemma batch_flags_and: "batch_flags rs AND m \<noteq> 0 \<longleftrightarrow> (\<exists>r \<in> set rs. record_flag r AND m \<noteq> 0)"
proof (induction rs rule: rev_induct)
  case Nil
  show ?case by (simp add: batch_flags_def)
next
  case (snoc r rs)
  then show ?case by (auto simp: bit.conj_disj_distrib2 or_zero_iff)
qed

text \<open>
  C24: the flags that spare a scan of the batch answer what a scan would: each \<open>Has...\<close> is true exactly
  when the batch holds such a record.
\<close>

theorem content_flags_sound:
  assumes "batch_holds seq rs b" "\<forall>r \<in> set rs. record_fits r"
  shows "(HasPut b \<longleftrightarrow> (\<exists>cf k v. RPut cf k v \<in> set rs)) \<and>
    (HasDelete b \<longleftrightarrow> (\<exists>cf k. RDelete cf k \<in> set rs)) \<and>
    (HasSingleDelete b \<longleftrightarrow> (\<exists>cf k. RSingleDelete cf k \<in> set rs)) \<and>
    (HasDeleteRange b \<longleftrightarrow> (\<exists>cf k v. RDeleteRange cf k v \<in> set rs)) \<and>
    (HasMerge b \<longleftrightarrow> (\<exists>cf k v. RMerge cf k v \<in> set rs)) \<and>
    (HasBeginPrepare b \<longleftrightarrow> RBeginPrepare \<in> set rs) \<and>
    (HasEndPrepare b \<longleftrightarrow> (\<exists>x. REndPrepare x \<in> set rs)) \<and>
    (HasCommit b \<longleftrightarrow> (\<exists>x. RCommit x \<in> set rs)) \<and>
    (HasRollback b \<longleftrightarrow> (\<exists>x. RRollback x \<in> set rs))"
proof -
  have f: "(record_flag r AND HAS_PUT \<noteq> 0 \<longleftrightarrow> (\<exists>cf k v. r = RPut cf k v))"
    "(record_flag r AND HAS_DELETE \<noteq> 0 \<longleftrightarrow> (\<exists>cf k. r = RDelete cf k))"
    "(record_flag r AND HAS_SINGLE_DELETE \<noteq> 0 \<longleftrightarrow> (\<exists>cf k. r = RSingleDelete cf k))"
    "(record_flag r AND HAS_DELETE_RANGE \<noteq> 0 \<longleftrightarrow> (\<exists>cf k v. r = RDeleteRange cf k v))"
    "(record_flag r AND HAS_MERGE \<noteq> 0 \<longleftrightarrow> (\<exists>cf k v. r = RMerge cf k v))"
    "(record_flag r AND HAS_BEGIN_PREPARE \<noteq> 0 \<longleftrightarrow> r = RBeginPrepare)"
    "(record_flag r AND HAS_END_PREPARE \<noteq> 0 \<longleftrightarrow> (\<exists>x. r = REndPrepare x))"
    "(record_flag r AND HAS_COMMIT \<noteq> 0 \<longleftrightarrow> (\<exists>x. r = RCommit x))"
    "(record_flag r AND HAS_ROLLBACK \<noteq> 0 \<longleftrightarrow> (\<exists>x. r = RRollback x))" for r
    by (cases r; simp add: content_flag_defs)+
  show ?thesis
    unfolding HasPut_def HasDelete_def HasSingleDelete_def HasDeleteRange_def HasMerge_def HasBeginPrepare_def
      HasEndPrepare_def HasCommit_def HasRollback_def content_flags_of [OF assms] batch_flags_and f
    by blast
qed

theorem content_flags_sound_witness:
  "HasMerge (WB_with (RMerge 3 [1] [2]) (WB_make 0)) \<and> \<not> HasPut (WB_with (RMerge 3 [1] [2]) (WB_make 0))"
  using content_flags_sound [OF batch_holds_with [OF batch_holds_make], of "RMerge 3 [1] [2]" 0] by auto

text \<open>
  C25: the status a handler returns for a transaction marker is dropped: a batch of markers reports
  success whatever the handler answered.
\<close>

theorem marker_status_ignored:
  assumes "batch_holds seq rs b" "\<forall>r \<in> set rs. record_fits r" "\<And>st. h_Continue h st"
    and "\<forall>r \<in> set rs. r = RBeginPrepare \<or> r \<in> range REndPrepare \<union> range RCommit \<union> range RRollback"
  shows "fst (Iterate h b st) = Status_OK"
proof -
  have "fst (replay h rs Status_OK st) = Status_OK" for st
    using assms(4) by (induction rs arbitrary: st) (auto split: prod.splits)
  then show ?thesis using Iterate_replay [OF assms(1-3), of st] by (simp add: split_beta)
qed

definition failing_handler :: "unit Handler" where
  "failing_handler =
     \<lparr>h_PutCF = (\<lambda>_ _ _ u. (Corruption [], u)), h_DeleteCF = (\<lambda>_ _ u. (Corruption [], u)),
      h_SingleDeleteCF = (\<lambda>_ _ u. (Corruption [], u)), h_DeleteRangeCF = (\<lambda>_ _ _ u. (Corruption [], u)),
      h_MergeCF = (\<lambda>_ _ _ u. (Corruption [], u)), h_LogData = (\<lambda>_ u. u),
      h_MarkBeginPrepare = (\<lambda>u. (Corruption [], u)), h_MarkEndPrepare = (\<lambda>_ u. (Corruption [], u)),
      h_MarkCommit = (\<lambda>_ u. (Corruption [], u)), h_MarkRollback = (\<lambda>_ u. (Corruption [], u)),
      h_Continue = (\<lambda>_. True)\<rparr>"

theorem marker_status_ignored_witness:
  "fst (Iterate failing_handler (WB_with (RCommit [7]) (WB_make 0)) ()) = Status_OK"
  using marker_status_ignored [OF batch_holds_with [OF batch_holds_make], of "RCommit [7]" failing_handler 0 "()"]
  by (simp add: failing_handler_def)

text \<open>
  closing a prepare section turns the marker that was reserved at the front into its beginning,
  appends its end, forgets the save points and changes no other record.
\<close>

theorem prepare_section:
  assumes "batch_holds seq (RNoop # rs) b"
  shows "batch_holds seq (RBeginPrepare # rs @ [REndPrepare xid]) (snd (WB_MarkEndPrepare xid b)) \<and>
    save_points (snd (WB_MarkEndPrepare xid b)) \<in> {None, Some []}"
proof -
  have r: "rep b = (EncodeFixed64 seq @ EncodeFixed32 (of_nat (length (filter is_counted rs)))) @
      kTypeNoop # concat (map record_bytes rs)"
    using assms by (simp add: batch_holds_def)
  have d: "content_flags b AND DEFERRED \<noteq> 0 \<or> content_flags b = batch_flags (RNoop # rs)"
    using assms by (simp add: batch_holds_def)
  have u: "(rep b)[12 := kTypeBeginPrepareXID] =
      EncodeFixed64 seq @ EncodeFixed32 (of_nat (length (filter is_counted rs))) @
      kTypeBeginPrepareXID # concat (map record_bytes rs)"
    unfolding r by (simp add: list_update_append)
  have f: "batch_flags (RBeginPrepare # rs @ [REndPrepare xid]) =
      batch_flags (RNoop # rs) OR HAS_END_PREPARE OR HAS_BEGIN_PREPARE"
    using batch_flags_append [of "[RBeginPrepare]" "rs @ [REndPrepare xid]"] batch_flags_append [of "[RNoop]" rs]
    by (simp add: batch_flags_append batch_flags_def [of "[_]"] or.commute or.left_commute or.assoc)
  show ?thesis
  proof
    show "batch_holds seq (RBeginPrepare # rs @ [REndPrepare xid]) (snd (WB_MarkEndPrepare xid b))"
      unfolding batch_holds_def f
      using d by (auto simp: WB_MarkEndPrepare_def WB_put_simps u or_flag_nonzero Let_def)
    show "save_points (snd (WB_MarkEndPrepare xid b)) \<in> {None, Some []}"
      by (cases "save_points b") (simp_all add: WB_MarkEndPrepare_def WB_put_simps Let_def)
  qed
qed

theorem prepare_section_witness:
  "batch_holds 0 [RBeginPrepare, REndPrepare [5]] (snd (WB_MarkEndPrepare [5] (WB_with RNoop (WB_make 0))))"
  using prepare_section [of 0 "[]" "WB_with RNoop (WB_make 0)" "[5]"] batch_holds_with [OF batch_holds_make, of RNoop 0]
  by simp

lemma ReadKey_bytes:
  "length k < 2 ^ 32 \<Longrightarrow>
   ReadKeyFromWriteBatchEntry (cf \<noteq> 0) (tag_bytes cf t t_cf @ lp_bytes k @ rest) = Some (k, rest)"
  by (simp add: ReadKeyFromWriteBatchEntry_def tag_bytes_def lp_read GetVarint32_Encode)

end
