(* ===== verification/Block.thy ===== *)
theory Block
  imports IterKey Slice Status
begin

text \<open>
  \<^verbatim>\<open>table/block_builder.{h,cc}\<close> and \<^verbatim>\<open>table/block.{h,cc}\<close>: sorted blocks of prefix-compressed entries,
  their restart points, and the iterator over them. A pointer into the block is an offset. The
  read-amplification bitmap only feeds statistics and is left out.
\<close>

section \<open>Builder\<close>

record BlockBuilder =
  block_restart_interval :: nat
  use_delta_encoding :: bool
  bb_buffer :: slice
  bb_restarts :: "u32 list"
  bb_estimate :: nat
  bb_counter :: nat
  bb_finished :: bool
  bb_last_key :: slice

definition BlockBuilder_make :: "nat \<Rightarrow> bool \<Rightarrow> BlockBuilder" where
  "BlockBuilder_make interval delta =
     \<lparr>block_restart_interval = interval, use_delta_encoding = delta, bb_buffer = [], bb_restarts = [0],
      bb_estimate = 4 + 4, bb_counter = 0, bb_finished = False, bb_last_key = []\<rparr>"

definition BlockBuilder_Reset :: "BlockBuilder \<Rightarrow> BlockBuilder" where
  "BlockBuilder_Reset b =
     b\<lparr>bb_buffer := [], bb_restarts := [0], bb_estimate := 4 + 4, bb_counter := 0, bb_finished := False,
       bb_last_key := []\<rparr>"

definition EstimateSizeAfterKV :: "slice \<Rightarrow> slice \<Rightarrow> BlockBuilder \<Rightarrow> nat" where
  "EstimateSizeAfterKV key val b =
     (let estimate = bb_estimate b;
          estimate = estimate + (length key + length val);
          estimate = (if bb_counter b \<ge> block_restart_interval b then estimate + 4 else estimate);
          estimate = estimate + 4;
          estimate = estimate + VarintLength (of_nat (length key))
      in estimate + VarintLength (of_nat (length val)))"

definition BlockBuilder_Finish :: "BlockBuilder \<Rightarrow> slice \<times> BlockBuilder" where
  "BlockBuilder_Finish b =
     (let buf = fold (\<lambda>r buf. PutFixed32 buf r) (bb_restarts b) (bb_buffer b);
          buf = PutFixed32 buf (of_nat (length (bb_restarts b)))
      in (buf, b\<lparr>bb_buffer := buf, bb_finished := True\<rparr>))"

definition BlockBuilder_Add :: "slice \<Rightarrow> slice \<Rightarrow> BlockBuilder \<Rightarrow> BlockBuilder" where
  "BlockBuilder_Add key val b =
     (let (shared, b) =
            (if bb_counter b \<ge> block_restart_interval b
             then let b = b\<lparr>bb_restarts := bb_restarts b @ [of_nat (length (bb_buffer b))],
                            bb_estimate := bb_estimate b + 4, bb_counter := 0\<rparr>
                  in (0, if use_delta_encoding b then b\<lparr>bb_last_key := key\<rparr> else b)
             else if use_delta_encoding b
             then (difference_offset key (bb_last_key b), b\<lparr>bb_last_key := key\<rparr>)
             else (0, b));
          non_shared = length key - shared;
          curr_size = length (bb_buffer b);
          buf = PutVarint32Varint32Varint32 (bb_buffer b) (of_nat shared) (of_nat non_shared)
                  (of_nat (length val));
          buf = buf @ take non_shared (drop shared key);
          buf = buf @ val
      in b\<lparr>bb_buffer := buf, bb_counter := bb_counter b + 1,
           bb_estimate := bb_estimate b + (length buf - curr_size)\<rparr>)"

section \<open>Block\<close>

record Block =
  blk_data :: slice
  blk_size :: nat
  restart_offset :: u32
  blk_global_seqno :: u64
  blk_prefix_index :: "(slice \<Rightarrow> nat list) option"

definition NumRestarts :: "slice \<Rightarrow> nat \<Rightarrow> u32" where
  "NumRestarts data sz = DecodeFixed32 (drop (sz - 4) data)"

text \<open>
  \<open>restart_offset_\<close> is computed in 64 bits and cut to 32; \<open>NumRestarts() + 1\<close> wraps at 32.
\<close>

definition Block_make :: "slice \<Rightarrow> u64 \<Rightarrow> Block" where
  "Block_make contents gseq =
     (let sz = length contents;
          r0 = 0;
          (sz, r0) =
            (if sz < 4 then (0, r0)
             else let off = ucast ((ucast (of_nat sz :: u32) :: u64) - ucast (1 + NumRestarts contents sz) * 4)
                  in if unat (off :: u32) > sz - 4 then (0, off) else (sz, off))
      in \<lparr>blk_data = contents, blk_size = sz, restart_offset = r0, blk_global_seqno = gseq,
          blk_prefix_index = None\<rparr>)"

definition SetBlockPrefixIndex :: "(slice \<Rightarrow> nat list) \<Rightarrow> Block \<Rightarrow> Block" where
  "SetBlockPrefixIndex ix b = b\<lparr>blk_prefix_index := Some ix\<rparr>"

section \<open>Iterator\<close>

text \<open>A cached entry: its key is the slice in the block, or lies in the buffer of decoded keys.\<close>

record CachedPrevEntry =
  ce_offset :: nat
  ce_key_ptr :: "slice option"
  ce_key_offset :: nat
  ce_key_size :: nat
  ce_value :: "nat \<times> nat"

record BlockIter =
  bi_data :: "slice option"
  restarts :: u32
  num_restarts :: nat
  bi_current :: nat
  restart_index :: nat
  bi_key :: IterKey
  value_off :: nat
  value_len :: nat
  bi_status :: Status
  bi_prefix_index :: "(slice \<Rightarrow> nat list) option"
  key_pinned :: bool
  bi_global_seqno :: u64
  prev_entries_keys_buff :: slice
  prev_entries :: "CachedPrevEntry list"
  prev_entries_idx :: int

definition kDisableGlobalSequenceNumber :: u64 where "kDisableGlobalSequenceNumber = - 1"

definition BlockIter_init :: BlockIter where
  "BlockIter_init =
     \<lparr>bi_data = None, restarts = 0, num_restarts = 0, bi_current = 0, restart_index = 0,
      bi_key = IterKey_init, value_off = 0, value_len = 0, bi_status = Status_OK, bi_prefix_index = None,
      key_pinned = False, bi_global_seqno = kDisableGlobalSequenceNumber,
      prev_entries_keys_buff = [], prev_entries = [], prev_entries_idx = -1\<rparr>"

definition BlockIter_Initialize ::
    "slice \<Rightarrow> u32 \<Rightarrow> u32 \<Rightarrow> (slice \<Rightarrow> nat list) option \<Rightarrow> u64 \<Rightarrow> BlockIter \<Rightarrow> BlockIter" where
  "BlockIter_Initialize data rst num ix gseq it =
     it\<lparr>bi_data := Some data, restarts := rst, num_restarts := unat num, bi_current := unat rst,
        restart_index := unat num, bi_prefix_index := ix, bi_global_seqno := gseq\<rparr>"

definition BlockIter_SetStatus :: "Status \<Rightarrow> BlockIter \<Rightarrow> BlockIter" where
  "BlockIter_SetStatus s it = it\<lparr>bi_status := s\<rparr>"

definition Block_NewIterator :: "bool \<Rightarrow> Block \<Rightarrow> BlockIter" where
  "Block_NewIterator total_order_seek b =
     (if blk_size b < 2 * 4 then BlockIter_SetStatus (Corruption ''bad block contents'') BlockIter_init
      else let num = NumRestarts (blk_data b) (blk_size b)
           in if num = 0 then BlockIter_SetStatus Status_OK BlockIter_init
              else BlockIter_Initialize (blk_data b) (restart_offset b) num
                     (if total_order_seek then None else blk_prefix_index b) (blk_global_seqno b)
                     BlockIter_init)"

definition bytes_at :: "nat \<Rightarrow> BlockIter \<Rightarrow> slice" where
  "bytes_at off it = drop off (the (bi_data it))"

definition BlockIter_Valid :: "BlockIter \<Rightarrow> bool" where
  "BlockIter_Valid it \<longleftrightarrow> bi_current it < unat (restarts it)"

definition BlockIter_key :: "BlockIter \<Rightarrow> slice" where
  "BlockIter_key it = GetInternalKey (bi_key it)"

definition BlockIter_value :: "BlockIter \<Rightarrow> slice" where
  "BlockIter_value it = take (value_len it) (bytes_at (value_off it) it)"

definition NextEntryOffset :: "BlockIter \<Rightarrow> nat" where
  "NextEntryOffset it = (value_off it + value_len it) mod 2 ^ 32"

definition GetRestartPoint :: "nat \<Rightarrow> BlockIter \<Rightarrow> nat" where
  "GetRestartPoint index it = unat (DecodeFixed32 (bytes_at (unat (restarts it) + index * 4) it))"

definition SeekToRestartPoint :: "nat \<Rightarrow> BlockIter \<Rightarrow> BlockIter" where
  "SeekToRestartPoint index it =
     it\<lparr>bi_key := IterKey_Clear (bi_key it), restart_index := index,
        value_off := GetRestartPoint index it, value_len := 0\<rparr>"

definition CorruptionError :: "BlockIter \<Rightarrow> BlockIter" where
  "CorruptionError it =
     it\<lparr>bi_current := unat (restarts it), restart_index := num_restarts it,
        bi_status := Corruption ''bad entry in block'', bi_key := IterKey_Clear (bi_key it),
        value_off := 0, value_len := 0\<rparr>"

text \<open>
  \<open>p\<close> are the bytes up to the limit; the result is the three lengths and the bytes after them. The
  sum of the lengths is taken in 32 bits, as in the code.
\<close>

definition DecodeEntry :: "slice \<Rightarrow> (u32 \<times> u32 \<times> u32 \<times> slice) option" where
  "DecodeEntry p =
     (if length p < 3 then None
      else let shared = ucast (p ! 0); non_shared = ucast (p ! 1); value_length = ucast (p ! 2);
               parsed =
                 (if (shared OR non_shared OR value_length) < 128
                  then Some (shared, non_shared, value_length, drop 3 p)
                  else (case GetVarint32Ptr p of
                          None \<Rightarrow> None
                        | Some (shared, p) \<Rightarrow>
                            (case GetVarint32Ptr p of
                               None \<Rightarrow> None
                             | Some (non_shared, p) \<Rightarrow>
                                 (case GetVarint32Ptr p of
                                    None \<Rightarrow> None
                                  | Some (value_length, p) \<Rightarrow> Some (shared, non_shared, value_length, p)))))
           in (case parsed of
                 None \<Rightarrow> None
               | Some (shared, non_shared, value_length, p) \<Rightarrow>
                   if of_nat (length p) < non_shared + value_length then None
                   else Some (shared, non_shared, value_length, p)))"

definition decode_at :: "nat \<Rightarrow> BlockIter \<Rightarrow> (u32 \<times> u32 \<times> u32 \<times> nat) option" where
  "decode_at off it =
     map_option (\<lambda>(s, n, v, p). (s, n, v, unat (restarts it) - length p))
       (DecodeEntry (take (unat (restarts it) - off) (bytes_at off it)))"

function advance_restart :: "BlockIter \<Rightarrow> BlockIter" where
  "advance_restart it =
     (if restart_index it + 1 < num_restarts it \<and> GetRestartPoint (restart_index it + 1) it < bi_current it
      then advance_restart (it\<lparr>restart_index := restart_index it + 1\<rparr>) else it)"
  by pat_completeness auto
termination by (relation "measure (\<lambda>it. num_restarts it - restart_index it)") auto

declare advance_restart.simps [simp del]

definition set_key :: "nat \<Rightarrow> slice \<Rightarrow> BlockIter \<Rightarrow> BlockIter" where
  "set_key shared delta it =
     (if shared = 0 then it\<lparr>bi_key := SetInternalKey (bi_key it) delta False, key_pinned := True\<rparr>
      else it\<lparr>bi_key := TrimAppend (bi_key it) shared delta, key_pinned := False\<rparr>)"

definition apply_global_seqno :: "BlockIter \<Rightarrow> BlockIter" where
  "apply_global_seqno it =
     (if bi_global_seqno it \<noteq> kDisableGlobalSequenceNumber
      then let value_type = ExtractValueType (GetInternalKey (bi_key it));
               it = (if key_pinned it then it\<lparr>bi_key := OwnKey (bi_key it), key_pinned := False\<rparr> else it)
           in it\<lparr>bi_key := IterKey_UpdateInternalKey (bi_key it) (bi_global_seqno it) value_type\<rparr>
      else it)"

definition ParseNextKey :: "BlockIter \<Rightarrow> bool \<times> BlockIter" where
  "ParseNextKey it =
     (let it = it\<lparr>bi_current := NextEntryOffset it\<rparr>
      in if bi_current it \<ge> unat (restarts it)
         then (False, it\<lparr>bi_current := unat (restarts it), restart_index := num_restarts it\<rparr>)
         else (case decode_at (bi_current it) it of
                 None \<Rightarrow> (False, CorruptionError it)
               | Some (shared, non_shared, value_length, p) \<Rightarrow>
                   if key_size (bi_key it) < unat shared then (False, CorruptionError it)
                   else let it = set_key (unat shared) (take (unat non_shared) (bytes_at p it)) it;
                            it = apply_global_seqno it;
                            it = it\<lparr>value_off := p + unat non_shared, value_len := unat value_length\<rparr>
                        in (True, advance_restart it)))"

definition BlockIter_Next :: "BlockIter \<Rightarrow> BlockIter" where
  "BlockIter_Next it = snd (ParseNextKey it)"

subsection \<open>Progress\<close>

lemma GetVarint32Ptr_suffix:
  "GetVarint32Ptr p = Some (v, q) \<Longrightarrow> length q < length p"
  using GetVarint32_suffix [of p v q] by (auto simp: GetVarint32_def)

lemma DecodeEntry_suffix:
  assumes "DecodeEntry p = Some (s, n, v, q)"
  shows "length q + 3 \<le> length p" "\<not> of_nat (length q) < n + v"
  using assms
  by (auto simp: DecodeEntry_def Let_def split: if_splits option.splits dest!: GetVarint32Ptr_suffix)

lemma unat_add_mod: "unat ((a :: u32) + b) = (unat a + unat b) mod 2 ^ 32"
  by (simp add: unat_word_ariths)

lemma decode_at_progress:
  assumes "decode_at c it = Some (s, n, v, p)" "c < unat (restarts it)"
  shows "c + 3 \<le> p" "p \<le> unat (restarts it)"
    "(p + (unat n + unat v)) mod 2 ^ 32 = p + unat (n + v)" "p + unat (n + v) \<le> unat (restarts it)"
proof -
  define R where "R = unat (restarts it)"
  obtain q where q: "DecodeEntry (take (R - c) (bytes_at c it)) = Some (s, n, v, q)" "p = R - length q"
    using assms(1) by (auto simp: decode_at_def R_def)
  have len: "length q + 3 \<le> R - c" using DecodeEntry_suffix(1) [OF q(1)] by simp
  have R: "R < 2 ^ 32" using unat_lt [of "restarts it"] by (simp add: R_def)
  have "unat (n + v) \<le> length q"
  proof -
    have "length q < 2 ^ 32" using len R by simp
    then have "unat (of_nat (length q) :: u32) = length q" by (simp add: unat_of_nat)
    then show ?thesis using DecodeEntry_suffix(2) [OF q(1)] by (simp add: word_less_nat_alt)
  qed
  then have pl: "p + unat (n + v) \<le> R" "p + unat (n + v) < 2 ^ 32" using q(2) len R by linarith+
  show "c + 3 \<le> p" "p \<le> unat (restarts it)" using len q(2) assms(2) by (auto simp: R_def)
  show "p + unat (n + v) \<le> unat (restarts it)" using pl(1) by (simp add: R_def)
  have "(p + (unat n + unat v)) mod 2 ^ 32 = (p + unat (n + v)) mod 2 ^ 32"
    unfolding unat_add_mod by (simp add: mod_add_right_eq)
  then show "(p + (unat n + unat v)) mod 2 ^ 32 = p + unat (n + v)" using pl(2) by simp
qed

lemma advance_restart_simps [simp]:
  "bi_data (advance_restart it) = bi_data it" "restarts (advance_restart it) = restarts it"
  "num_restarts (advance_restart it) = num_restarts it" "bi_current (advance_restart it) = bi_current it"
  "bi_key (advance_restart it) = bi_key it" "value_off (advance_restart it) = value_off it"
  "value_len (advance_restart it) = value_len it" "bi_status (advance_restart it) = bi_status it"
  "bi_prefix_index (advance_restart it) = bi_prefix_index it" "key_pinned (advance_restart it) = key_pinned it"
  "bi_global_seqno (advance_restart it) = bi_global_seqno it"
  "prev_entries_keys_buff (advance_restart it) = prev_entries_keys_buff it"
  "prev_entries (advance_restart it) = prev_entries it"
  "prev_entries_idx (advance_restart it) = prev_entries_idx it"
  by (induction it rule: advance_restart.induct; subst advance_restart.simps; simp)+

lemma set_key_simps [simp]:
  "bi_data (set_key s d it) = bi_data it" "restarts (set_key s d it) = restarts it"
  "num_restarts (set_key s d it) = num_restarts it" "bi_current (set_key s d it) = bi_current it"
  "restart_index (set_key s d it) = restart_index it"
  "bi_status (set_key s d it) = bi_status it" "bi_prefix_index (set_key s d it) = bi_prefix_index it"
  "bi_global_seqno (set_key s d it) = bi_global_seqno it"
  "prev_entries_keys_buff (set_key s d it) = prev_entries_keys_buff it"
  "prev_entries (set_key s d it) = prev_entries it" "prev_entries_idx (set_key s d it) = prev_entries_idx it"
  by (simp_all add: set_key_def)

lemma apply_global_seqno_simps [simp]:
  "bi_data (apply_global_seqno it) = bi_data it" "restarts (apply_global_seqno it) = restarts it"
  "num_restarts (apply_global_seqno it) = num_restarts it" "bi_current (apply_global_seqno it) = bi_current it"
  "restart_index (apply_global_seqno it) = restart_index it"
  "bi_status (apply_global_seqno it) = bi_status it" "bi_prefix_index (apply_global_seqno it) = bi_prefix_index it"
  "bi_global_seqno (apply_global_seqno it) = bi_global_seqno it"
  "prev_entries_keys_buff (apply_global_seqno it) = prev_entries_keys_buff it"
  "prev_entries (apply_global_seqno it) = prev_entries it"
  "prev_entries_idx (apply_global_seqno it) = prev_entries_idx it"
  by (simp_all add: apply_global_seqno_def Let_def)

lemma ParseNextKey_progress:
  assumes "ParseNextKey it = (True, it')"
  shows "NextEntryOffset it < unat (restarts it) \<and> restarts it' = restarts it \<and>
    NextEntryOffset it < NextEntryOffset it' \<and> NextEntryOffset it' \<le> unat (restarts it)"
proof -
  define c where "c = NextEntryOffset it"
  have c: "c < unat (restarts it)"
    using assms by (auto simp: ParseNextKey_def c_def Let_def split: if_splits)
  obtain s n v p where d: "decode_at c (it\<lparr>bi_current := c\<rparr>) = Some (s, n, v, p)"
    and it': "restarts it' = restarts it" "value_off it' = p + unat n" "value_len it' = unat v"
    using assms c by (auto simp: ParseNextKey_def c_def [symmetric] Let_def split: if_splits option.splits)
  show ?thesis
    using decode_at_progress [OF d] c it' unfolding c_def [symmetric]
    by (simp add: NextEntryOffset_def [of it'] add.assoc)
qed

section \<open>Moving the iterator\<close>

lemma ParseNextKey_measure:
  "ParseNextKey it = (True, it') \<Longrightarrow>
   unat (restarts it') - NextEntryOffset it' < unat (restarts it) - NextEntryOffset it"
  using ParseNextKey_progress [of it it'] by auto

text \<open>The loop of \<open>Seek\<close>, up to the first key that is not below the target.\<close>

function seek_linear :: "(slice \<Rightarrow> slice \<Rightarrow> int) \<Rightarrow> slice \<Rightarrow> BlockIter \<Rightarrow> BlockIter" where
  "seek_linear cmp target it =
     (case ParseNextKey it of
        (False, it) \<Rightarrow> it
      | (True, it) \<Rightarrow>
          if cmp (GetInternalKey (bi_key it)) target \<ge> 0 then it else seek_linear cmp target it)"
  by pat_completeness auto
termination
  by (relation "measure (\<lambda>(cmp, target, it). unat (restarts it) - NextEntryOffset it)")
    (auto dest: ParseNextKey_measure [OF sym])

declare seek_linear.simps [simp del]

text \<open>
  Restart indices are natural numbers: an array of \<open>num_restarts_\<close> words that lies in the block has
  fewer than \<open>2 ^ 30\<close> of them and the sums of the searches do not reach \<open>2 ^ 32\<close>. \<open>None\<close>: the call
  returns false.
\<close>

function BinarySeek ::
    "(slice \<Rightarrow> slice \<Rightarrow> int) \<Rightarrow> slice \<Rightarrow> nat \<Rightarrow> nat \<Rightarrow> BlockIter \<Rightarrow> nat option \<times> BlockIter" where
  "BinarySeek cmp target left right it =
     (if left < right
      then let mid = (left + right + 1) div 2; region_offset = GetRestartPoint mid it
           in (case decode_at region_offset it of
                 None \<Rightarrow> (None, CorruptionError it)
               | Some (shared, non_shared, value_length, p) \<Rightarrow>
                   if shared \<noteq> 0 then (None, CorruptionError it)
                   else let mid_key = take (unat non_shared) (bytes_at p it); c = cmp mid_key target
                        in if c < 0 then BinarySeek cmp target mid right it
                           else if c > 0 then BinarySeek cmp target left (mid - 1) it
                           else BinarySeek cmp target mid mid it)
      else (Some left, it))"
  by pat_completeness auto
termination
  by (relation "measure (\<lambda>(cmp, target, left, right, it). right - left)") auto

declare BinarySeek.simps [simp del]

definition CompareBlockKey ::
    "(slice \<Rightarrow> slice \<Rightarrow> int) \<Rightarrow> nat \<Rightarrow> slice \<Rightarrow> BlockIter \<Rightarrow> int \<times> BlockIter" where
  "CompareBlockKey cmp block_index target it =
     (case decode_at (GetRestartPoint block_index it) it of
        None \<Rightarrow> (1, CorruptionError it)
      | Some (shared, non_shared, value_length, p) \<Rightarrow>
          if shared \<noteq> 0 then (1, CorruptionError it)
          else (cmp (take (unat non_shared) (bytes_at p it)) target, it))"

text \<open>\<open>None\<close>: the call returns false out of the loop.\<close>

function block_index_loop ::
    "(slice \<Rightarrow> slice \<Rightarrow> int) \<Rightarrow> slice \<Rightarrow> nat list \<Rightarrow> nat \<Rightarrow> nat \<Rightarrow> BlockIter \<Rightarrow> (nat \<times> nat) option \<times> BlockIter" where
  "block_index_loop cmp target block_ids left right it =
     (if left \<le> right
      then let mid = (right + left) div 2; (c, it) = CompareBlockKey cmp (block_ids ! mid) target it
           in if \<not> ok (bi_status it) then (None, it)
              else if c < 0 then block_index_loop cmp target block_ids (mid + 1) right it
              else if left = right then (Some (left, right), it)
              else block_index_loop cmp target block_ids left mid it
      else (Some (left, right), it))"
  by pat_completeness auto
termination
  by (relation "measure (\<lambda>(cmp, target, block_ids, left, right, it). Suc right - left)") auto

declare block_index_loop.simps [simp del]

definition BinaryBlockIndexSeek ::
    "(slice \<Rightarrow> slice \<Rightarrow> int) \<Rightarrow> slice \<Rightarrow> nat list \<Rightarrow> nat \<Rightarrow> nat \<Rightarrow> BlockIter \<Rightarrow> nat option \<times> BlockIter" where
  "BinaryBlockIndexSeek cmp target block_ids left right it =
     (let left_bound = left
      in case block_index_loop cmp target block_ids left right it of
           (None, it) \<Rightarrow> (None, it)
         | (Some (left, right), it) \<Rightarrow>
             if left = right
             then if block_ids ! left > 0 \<and>
                     (left = left_bound \<or> block_ids ! (left - 1) \<noteq> block_ids ! left - 1)
                  then let (c, it) = CompareBlockKey cmp (block_ids ! left - 1) target it
                       in if c > 0 then (None, it\<lparr>bi_current := unat (restarts it)\<rparr>)
                          else (Some (block_ids ! left), it)
                  else (Some (block_ids ! left), it)
             else (None, it\<lparr>bi_current := unat (restarts it)\<rparr>))"

definition PrefixSeek ::
    "(slice \<Rightarrow> slice \<Rightarrow> int) \<Rightarrow> (slice \<Rightarrow> nat list) \<Rightarrow> slice \<Rightarrow> BlockIter \<Rightarrow> nat option \<times> BlockIter" where
  "PrefixSeek cmp prefix_index target it =
     (let block_ids = prefix_index target
      in if length block_ids = 0 then (None, it\<lparr>bi_current := unat (restarts it)\<rparr>)
         else BinaryBlockIndexSeek cmp target block_ids 0 (length block_ids - 1) it)"

definition BlockIter_Seek :: "(slice \<Rightarrow> slice \<Rightarrow> int) \<Rightarrow> slice \<Rightarrow> BlockIter \<Rightarrow> BlockIter" where
  "BlockIter_Seek cmp target it =
     (if bi_data it = None then it
      else case (case bi_prefix_index it of
                   Some ix \<Rightarrow> PrefixSeek cmp ix target it
                 | None \<Rightarrow> BinarySeek cmp target 0 (num_restarts it - 1) it) of
             (None, it) \<Rightarrow> it
           | (Some index, it) \<Rightarrow> seek_linear cmp target (SeekToRestartPoint index it))"

definition BlockIter_SeekToFirst :: "BlockIter \<Rightarrow> BlockIter" where
  "BlockIter_SeekToFirst it =
     (if bi_data it = None then it else snd (ParseNextKey (SeekToRestartPoint 0 it)))"

function skip_to_last :: "BlockIter \<Rightarrow> BlockIter" where
  "skip_to_last it =
     (case ParseNextKey it of
        (False, it) \<Rightarrow> it
      | (True, it) \<Rightarrow> if NextEntryOffset it < unat (restarts it) then skip_to_last it else it)"
  by pat_completeness auto
termination
  by (relation "measure (\<lambda>it. unat (restarts it) - NextEntryOffset it)")
    (auto dest: ParseNextKey_measure [OF sym])

declare skip_to_last.simps [simp del]

definition BlockIter_SeekToLast :: "BlockIter \<Rightarrow> BlockIter" where
  "BlockIter_SeekToLast it =
     (if bi_data it = None then it else skip_to_last (SeekToRestartPoint (num_restarts it - 1) it))"

primrec find_restart :: "BlockIter \<Rightarrow> nat \<Rightarrow> nat \<Rightarrow> nat option" where
  "find_restart it original 0 = (if GetRestartPoint 0 it \<ge> original then None else Some 0)"
| "find_restart it original (Suc r) =
     (if GetRestartPoint (Suc r) it \<ge> original then find_restart it original r else Some (Suc r))"

definition cache_entry :: "BlockIter \<Rightarrow> BlockIter" where
  "cache_entry it =
     (let current_key = BlockIter_key it
      in if IsKeyPinned (bi_key it)
         then it\<lparr>prev_entries := prev_entries it @
                [\<lparr>ce_offset = bi_current it, ce_key_ptr = Some current_key, ce_key_offset = 0,
                  ce_key_size = length current_key, ce_value = (value_off it, value_len it)\<rparr>]\<rparr>
         else let new_key_offset = length (prev_entries_keys_buff it)
              in it\<lparr>prev_entries_keys_buff := prev_entries_keys_buff it @ current_key,
                    prev_entries := prev_entries it @
                      [\<lparr>ce_offset = bi_current it, ce_key_ptr = None, ce_key_offset = new_key_offset,
                        ce_key_size = length current_key, ce_value = (value_off it, value_len it)\<rparr>]\<rparr>)"

lemma cache_entry_simps [simp]:
  "bi_data (cache_entry it) = bi_data it" "restarts (cache_entry it) = restarts it"
  "num_restarts (cache_entry it) = num_restarts it" "bi_current (cache_entry it) = bi_current it"
  "restart_index (cache_entry it) = restart_index it" "bi_key (cache_entry it) = bi_key it"
  "value_off (cache_entry it) = value_off it" "value_len (cache_entry it) = value_len it"
  "bi_status (cache_entry it) = bi_status it" "bi_global_seqno (cache_entry it) = bi_global_seqno it"
  "bi_prefix_index (cache_entry it) = bi_prefix_index it"
  "NextEntryOffset (cache_entry it) = NextEntryOffset it"
  by (simp_all add: cache_entry_def NextEntryOffset_def Let_def)

function prev_loop :: "nat \<Rightarrow> BlockIter \<Rightarrow> BlockIter" where
  "prev_loop original it =
     (case ParseNextKey it of
        (False, it) \<Rightarrow> it
      | (True, it) \<Rightarrow>
          (let it = cache_entry it
           in if NextEntryOffset it < original then prev_loop original it else it))"
  by pat_completeness auto
termination
  by (relation "measure (\<lambda>(original, it). unat (restarts it) - NextEntryOffset it)")
    (auto dest: ParseNextKey_measure [OF sym])

declare prev_loop.simps [simp del]

definition BlockIter_Prev :: "BlockIter \<Rightarrow> BlockIter" where
  "BlockIter_Prev it =
     (if prev_entries_idx it > 0 \<and> ce_offset (prev_entries it ! nat (prev_entries_idx it)) = bi_current it
      then let it = it\<lparr>prev_entries_idx := prev_entries_idx it - 1\<rparr>;
               e = prev_entries it ! nat (prev_entries_idx it);
               (key, pinned) =
                 (case ce_key_ptr e of
                    Some k \<Rightarrow> (k, True)
                  | None \<Rightarrow> (take (ce_key_size e) (drop (ce_key_offset e) (prev_entries_keys_buff it)), False))
           in it\<lparr>key_pinned := pinned, bi_current := ce_offset e,
                 bi_key := SetInternalKey (bi_key it) key False,
                 value_off := fst (ce_value e), value_len := snd (ce_value e)\<rparr>
      else let it = it\<lparr>prev_entries_idx := -1, prev_entries := [], prev_entries_keys_buff := []\<rparr>;
               original = bi_current it
           in (case find_restart it original (restart_index it) of
                 None \<Rightarrow> it\<lparr>bi_current := unat (restarts it), restart_index := num_restarts it\<rparr>
               | Some r \<Rightarrow>
                   (let it = prev_loop original (SeekToRestartPoint r it)
                    in it\<lparr>prev_entries_idx := int (length (prev_entries it)) - 1\<rparr>)))"

function seek_below :: "(slice \<Rightarrow> slice \<Rightarrow> int) \<Rightarrow> slice \<Rightarrow> BlockIter \<Rightarrow> BlockIter" where
  "seek_below cmp target it =
     (case ParseNextKey it of
        (False, it) \<Rightarrow> it
      | (True, it) \<Rightarrow>
          if cmp (GetInternalKey (bi_key it)) target < 0 then seek_below cmp target it else it)"
  by pat_completeness auto
termination
  by (relation "measure (\<lambda>(cmp, target, it). unat (restarts it) - NextEntryOffset it)")
    (auto dest: ParseNextKey_measure [OF sym])

declare seek_below.simps [simp del]

partial_function (option) prev_while :: "(slice \<Rightarrow> slice \<Rightarrow> int) \<Rightarrow> slice \<Rightarrow> BlockIter \<Rightarrow> BlockIter option" where
  "prev_while cmp target it =
     (if BlockIter_Valid it \<and> cmp (GetInternalKey (bi_key it)) target > 0
      then prev_while cmp target (BlockIter_Prev it) else Some it)"

definition BlockIter_SeekForPrev :: "(slice \<Rightarrow> slice \<Rightarrow> int) \<Rightarrow> slice \<Rightarrow> BlockIter \<Rightarrow> BlockIter option" where
  "BlockIter_SeekForPrev cmp target it =
     (if bi_data it = None then Some it
      else case BinarySeek cmp target 0 (num_restarts it - 1) it of
             (None, it) \<Rightarrow> Some it
           | (Some index, it) \<Rightarrow>
               (let it = seek_below cmp target (SeekToRestartPoint index it)
                in if \<not> BlockIter_Valid it then Some (BlockIter_SeekToLast it)
                   else prev_while cmp target it))"

end
