(* ===== verification/BlockLayout.thy ===== *)
theory BlockLayout
  imports Block
begin

text \<open>
  The format of a block, as a predicate on a list of entries, and the proof that the builder of
  \<^verbatim>\<open>table/block_builder.cc\<close> writes it and the iterator of \<^verbatim>\<open>table/block.cc\<close> reads it.
\<close>

section \<open>The format\<close>

text \<open>An entry with the number of key bytes it shares with the entry before.\<close>

type_synonym bentry = "nat \<times> slice \<times> slice"

definition entry_bytes :: "bentry \<Rightarrow> slice" where
  "entry_bytes t = (case t of (s, k, v) \<Rightarrow>
     PutVarint32Varint32Varint32 [] (of_nat s) (of_nat (length k - s)) (of_nat (length v)) @ drop s k @ v)"

definition entries_bytes :: "bentry list \<Rightarrow> slice" where
  "entries_bytes ts = concat (map entry_bytes ts)"

definition entry_off :: "bentry list \<Rightarrow> nat \<Rightarrow> nat" where
  "entry_off ts i = length (entries_bytes (take i ts))"

abbreviation ekey :: "bentry list \<Rightarrow> nat \<Rightarrow> slice" where "ekey ts i \<equiv> fst (snd (ts ! i))"
abbreviation evalue :: "bentry list \<Rightarrow> nat \<Rightarrow> slice" where "evalue ts i \<equiv> snd (snd (ts ! i))"
abbreviation eshared :: "bentry list \<Rightarrow> nat \<Rightarrow> nat" where "eshared ts i \<equiv> fst (ts ! i)"

definition share_ok :: "bentry list \<Rightarrow> nat \<Rightarrow> bool" where
  "share_ok ts i \<longleftrightarrow>
     (if i = 0 then eshared ts 0 = 0
      else eshared ts i \<le> length (ekey ts i) \<and> eshared ts i \<le> length (ekey ts (i - 1)) \<and>
           take (eshared ts i) (ekey ts i) = take (eshared ts i) (ekey ts (i - 1)))"

text \<open>\<open>rs\<close> are the indices of the entries at the restart points.\<close>

definition layout :: "bentry list \<Rightarrow> nat list \<Rightarrow> bool" where
  "layout ts rs \<longleftrightarrow>
     (\<forall>i < length ts. share_ok ts i) \<and> rs \<noteq> [] \<and> rs ! 0 = 0 \<and> sorted_wrt (<) rs \<and>
     (\<forall>r \<in> set rs. r = 0 \<or> r < length ts \<and> eshared ts r = 0)"

definition restart_array :: "bentry list \<Rightarrow> nat list \<Rightarrow> slice" where
  "restart_array ts rs = concat (map (\<lambda>r. EncodeFixed32 (of_nat (entry_off ts r))) rs)"

definition block_bytes :: "bentry list \<Rightarrow> nat list \<Rightarrow> slice" where
  "block_bytes ts rs = entries_bytes ts @ restart_array ts rs @ EncodeFixed32 (of_nat (length rs))"

definition fits :: "bentry list \<Rightarrow> nat list \<Rightarrow> bool" where
  "fits ts rs \<longleftrightarrow> length (block_bytes ts rs) < 2 ^ 32"

section \<open>Decoding one entry\<close>

lemma u32_small_iff: "(x :: u32) < 128 \<longleftrightarrow> drop_bit 7 x = 0"
  by (simp add: word_less_nat_alt word_unat_eq_iff unat_drop_bit) (simp add: div_eq_0_iff)

lemma u32_of_nat: "n < 2 ^ 32 \<Longrightarrow> unat (of_nat n :: u32) = n"
  by (simp add: unat_of_nat)

lemma small_byte:
  fixes b :: byte
  assumes "drop_bit 7 (ucast b :: u32) = 0"
  shows "GetVarint32Ptr (b # p) = Some (ucast b, p)"
proof -
  have "\<not> bit (ucast b :: u32) 7" using arg_cong [OF assms, of "\<lambda>x. bit x 0"] by (simp add: bit_drop_bit_eq)
  then have "(ucast b :: u32) AND 128 = 0" by (simp add: and_128_eq_0_iff)
  then show ?thesis by (simp add: GetVarint32Ptr_def Let_def)
qed

text \<open>The fast path gives what the three calls of \<open>GetVarint32Ptr\<close> give.\<close>

definition DecodeEntry_slow :: "slice \<Rightarrow> (u32 \<times> u32 \<times> u32 \<times> slice) option" where
  "DecodeEntry_slow p =
     (case GetVarint32Ptr p of
        None \<Rightarrow> None
      | Some (shared, p) \<Rightarrow>
          (case GetVarint32Ptr p of
             None \<Rightarrow> None
           | Some (non_shared, p) \<Rightarrow>
               (case GetVarint32Ptr p of
                  None \<Rightarrow> None
                | Some (value_length, p) \<Rightarrow> Some (shared, non_shared, value_length, p))))"

lemma list_ge_3E:
  assumes "3 \<le> length xs"
  obtains a b c ys where "xs = a # b # c # ys"
  using assms by (auto simp: numeral_eq_Suc Suc_le_length_iff)

lemma DecodeEntry_eq:
  "DecodeEntry p =
     (if length p < 3 then None
      else case DecodeEntry_slow p of
             None \<Rightarrow> None
           | Some (s, n, v, p) \<Rightarrow> if of_nat (length p) < n + v then None else Some (s, n, v, p))"
proof (cases "length p < 3")
  case False
  then obtain a b c q where p: "p = a # b # c # q" using list_ge_3E [of p] by (metis not_less)
  show ?thesis
  proof (cases "((ucast a :: u32) OR ucast b OR ucast c) < 128")
    case True
    then have "drop_bit 7 (ucast a :: u32) = 0" "drop_bit 7 (ucast b :: u32) = 0" "drop_bit 7 (ucast c :: u32) = 0"
      by (auto simp: u32_small_iff or_eq_0_iff)
    then have "DecodeEntry_slow p = Some (ucast a, ucast b, ucast c, q)"
      by (simp add: p DecodeEntry_slow_def small_byte)
    then show ?thesis using True by (simp add: p DecodeEntry_def)
  qed (simp add: p DecodeEntry_def DecodeEntry_slow_def Let_def)
qed (simp add: DecodeEntry_def)

lemma PutVarint32x3: "PutVarint32Varint32Varint32 dst a b c = dst @ EncodeVarint32 a @ EncodeVarint32 b @ EncodeVarint32 c"
  by (simp add: PutVarint32Varint32Varint32_def)

lemma EncodeVarint32_pos: "1 \<le> length (EncodeVarint32 v)"
  by (simp add: EncodeVarint32_def)

lemma GetVarint32Ptr_Encode: "GetVarint32Ptr (EncodeVarint32 v @ r) = Some (v, r)"
  using GetVarint32_Encode [of v r] by (simp add: GetVarint32_def)

lemma DecodeEntry_entry:
  assumes "s \<le> length k" "length (entry_bytes (s, k, v) @ rest) < 2 ^ 32"
  shows "DecodeEntry (entry_bytes (s, k, v) @ rest)
    = Some (of_nat s, of_nat (length k - s), of_nat (length v), drop s k @ v @ rest)"
proof -
  let ?h = "\<lambda>x. EncodeVarint32 (of_nat x)"
  have e: "entry_bytes (s, k, v) @ rest = ?h s @ ?h (length k - s) @ ?h (length v) @ drop s k @ v @ rest"
    by (simp add: entry_bytes_def PutVarint32x3)
  have "3 \<le> length (entry_bytes (s, k, v) @ rest)"
    unfolding e using EncodeVarint32_pos [of "of_nat s"] EncodeVarint32_pos [of "of_nat (length k - s)"]
      EncodeVarint32_pos [of "of_nat (length v)"] by simp
  moreover have "DecodeEntry_slow (entry_bytes (s, k, v) @ rest)
      = Some (of_nat s, of_nat (length k - s), of_nat (length v), drop s k @ v @ rest)"
    unfolding e by (simp add: DecodeEntry_slow_def GetVarint32Ptr_Encode)
  moreover have "\<not> of_nat (length (drop s k @ v @ rest)) < (of_nat (length k - s) + of_nat (length v) :: u32)"
  proof -
    have "length (drop s k @ v @ rest) < 2 ^ 32" using assms(2) unfolding e by simp
    then have "unat (of_nat (length (drop s k @ v @ rest)) :: u32) = length (drop s k @ v @ rest)"
      "unat (of_nat (length k - s + length v) :: u32) = length k - s + length v"
      by (intro u32_of_nat; simp)+
    then show ?thesis unfolding word_less_nat_alt of_nat_add [symmetric] by simp
  qed
  ultimately show ?thesis by (simp add: DecodeEntry_eq)
qed

section \<open>Offsets\<close>

lemma entry_bytes_ge: "3 \<le> length (entry_bytes t)"
proof -
  obtain s k v where t: "t = (s, k, v)" by (cases t)
  show ?thesis
    using EncodeVarint32_pos [of "of_nat s"] EncodeVarint32_pos [of "of_nat (length k - s)"]
      EncodeVarint32_pos [of "of_nat (length v)"]
    by (simp add: t entry_bytes_def PutVarint32x3)
qed

lemma entries_bytes_simps [simp]:
  "entries_bytes [] = []" "entries_bytes (t # ts) = entry_bytes t @ entries_bytes ts"
  "entries_bytes (ts @ us) = entries_bytes ts @ entries_bytes us"
  by (simp_all add: entries_bytes_def)

lemma entries_bytes_split:
  "i < length ts \<Longrightarrow> entries_bytes ts
     = entries_bytes (take i ts) @ entry_bytes (ts ! i) @ entries_bytes (drop (Suc i) ts)"
  by (simp only: entries_bytes_simps(2,3) [symmetric] id_take_nth_drop [symmetric])

lemma entry_off_0 [simp]: "entry_off ts 0 = 0"
  by (simp add: entry_off_def)

lemma entry_off_Suc: "i < length ts \<Longrightarrow> entry_off ts (Suc i) = entry_off ts i + length (entry_bytes (ts ! i))"
  by (simp add: entry_off_def take_Suc_conv_app_nth)

lemma entry_off_length: "entry_off ts (length ts) = length (entries_bytes ts)"
  by (simp add: entry_off_def)

lemma entry_off_less: "i < j \<Longrightarrow> j \<le> length ts \<Longrightarrow> entry_off ts i < entry_off ts j"
proof (induction j)
  case (Suc j)
  then show ?case using entry_bytes_ge [of "ts ! j"] by (cases "i = j") (auto simp: entry_off_Suc)
qed simp

lemma entry_off_inj: "i \<le> length ts \<Longrightarrow> j \<le> length ts \<Longrightarrow> entry_off ts i = entry_off ts j \<longleftrightarrow> i = j"
  using entry_off_less [of i j ts] entry_off_less [of j i ts] by (cases i j rule: linorder_cases) auto

lemma entry_off_less_iff: "i \<le> length ts \<Longrightarrow> j \<le> length ts \<Longrightarrow> entry_off ts i < entry_off ts j \<longleftrightarrow> i < j"
  using entry_off_less [of i j ts] entry_off_less [of j i ts] by (cases i j rule: linorder_cases) auto

lemma entry_off_le: "i \<le> length ts \<Longrightarrow> entry_off ts i \<le> length (entries_bytes ts)"
  using entry_off_less [of i "length ts" ts] by (cases "i = length ts") (auto simp: entry_off_length)

lemma length_restart_array [simp]: "length (restart_array ts rs) = 4 * length rs"
  by (induction rs) (simp_all add: restart_array_def)

lemma restart_array_simps:
  "restart_array ts (rs @ us) = restart_array ts rs @ restart_array ts us"
  "restart_array ts (r # rs) = EncodeFixed32 (of_nat (entry_off ts r)) @ restart_array ts rs"
  by (simp_all add: restart_array_def)

lemma restart_array_at:
  assumes "j < length rs"
  shows "DecodeFixed32 (drop (4 * j) (restart_array ts rs) @ rest) = of_nat (entry_off ts (rs ! j))"
proof -
  let ?pre = "restart_array ts (take j rs)"
  have "restart_array ts rs = restart_array ts (take j rs @ rs ! j # drop (Suc j) rs)"
    by (simp only: id_take_nth_drop [OF assms, symmetric])
  then have "restart_array ts rs = ?pre @ EncodeFixed32 (of_nat (entry_off ts (rs ! j)))
      @ restart_array ts (drop (Suc j) rs)"
    by (simp only: restart_array_simps)
  moreover have "length ?pre = 4 * j" using assms by simp
  ultimately show ?thesis by (simp add: codec_simps)
qed

section \<open>Where the iterator is\<close>

text \<open>A cached entry describes entry \<open>i\<close>: its key is in the block or in the buffer of decoded keys.\<close>

definition cached :: "bentry list \<Rightarrow> slice \<Rightarrow> CachedPrevEntry \<Rightarrow> nat \<Rightarrow> bool" where
  "cached ts kb e i \<longleftrightarrow>
     i < length ts \<and> ce_offset e = entry_off ts i \<and>
     ce_value e = (entry_off ts (Suc i) - length (evalue ts i), length (evalue ts i)) \<and>
     (case ce_key_ptr e of
        Some k \<Rightarrow> k = ekey ts i
      | None \<Rightarrow> ce_key_offset e + ce_key_size e \<le> length kb \<and>
                take (ce_key_size e) (drop (ce_key_offset e) kb) = ekey ts i)"

definition cache_ok :: "bentry list \<Rightarrow> BlockIter \<Rightarrow> bool" where
  "cache_ok ts it \<longleftrightarrow>
     prev_entries_idx it < int (length (prev_entries it)) \<and>
     (\<exists>a. \<forall>m < length (prev_entries it). cached ts (prev_entries_keys_buff it) (prev_entries it ! m) (a + m))"

definition on_block :: "bentry list \<Rightarrow> nat list \<Rightarrow> BlockIter \<Rightarrow> bool" where
  "on_block ts rs it \<longleftrightarrow>
     bi_data it = Some (block_bytes ts rs) \<and> restarts it = of_nat (length (entries_bytes ts)) \<and>
     num_restarts it = length rs \<and> bi_global_seqno it = kDisableGlobalSequenceNumber \<and>
     bi_prefix_index it = None \<and> IterKey_inv (bi_key it)"

text \<open>The next entry the iterator parses is \<open>i\<close>.\<close>

definition before :: "bentry list \<Rightarrow> nat list \<Rightarrow> nat \<Rightarrow> BlockIter \<Rightarrow> bool" where
  "before ts rs i it \<longleftrightarrow>
     on_block ts rs it \<and> i \<le> length ts \<and> value_off it + value_len it = entry_off ts i \<and>
     restart_index it < length rs \<and>
     (i < length ts \<longrightarrow> eshared ts i = 0 \<or> 0 < i \<and> key_data (bi_key it) = ekey ts (i - 1))"

text \<open>The iterator is at entry \<open>i\<close>.\<close>

definition at :: "bentry list \<Rightarrow> nat list \<Rightarrow> nat \<Rightarrow> BlockIter \<Rightarrow> bool" where
  "at ts rs i it \<longleftrightarrow>
     on_block ts rs it \<and> i < length ts \<and> bi_current it = entry_off ts i \<and>
     key_data (bi_key it) = ekey ts i \<and>
     value_off it = entry_off ts (Suc i) - length (evalue ts i) \<and> value_len it = length (evalue ts i) \<and>
     restart_index it < length rs"

definition past_end :: "bentry list \<Rightarrow> nat list \<Rightarrow> BlockIter \<Rightarrow> bool" where
  "past_end ts rs it \<longleftrightarrow> on_block ts rs it \<and> bi_current it = length (entries_bytes ts)"

lemma entry_bytes_value: "length (evalue ts i) \<le> length (entry_bytes (ts ! i))"
  by (cases "ts ! i") (simp add: entry_bytes_def)

lemma at_before:
  assumes "at ts rs i it" "\<forall>i < length ts. share_ok ts i"
  shows "before ts rs (Suc i) it"
  using assms entry_bytes_value [of ts i] by (auto simp: at_def before_def entry_off_Suc)

lemma fits_bounds:
  assumes "fits ts rs"
  shows "length (entries_bytes ts) < 2 ^ 32" "unat (of_nat (length (entries_bytes ts)) :: u32) = length (entries_bytes ts)"
    "i \<le> length ts \<Longrightarrow> entry_off ts i < 2 ^ 32"
proof -
  show b: "length (entries_bytes ts) < 2 ^ 32" using assms by (simp add: fits_def block_bytes_def)
  then show "unat (of_nat (length (entries_bytes ts)) :: u32) = length (entries_bytes ts)"
    by (rule u32_of_nat)
  show "entry_off ts i < 2 ^ 32" if "i \<le> length ts" using entry_off_le [OF that] b by simp
qed

lemma bytes_at_entry:
  assumes "bi_data it = Some (block_bytes ts rs)" "i < length ts"
  shows "bytes_at (entry_off ts i) it = entry_bytes (ts ! i) @ entries_bytes (drop (Suc i) ts)
      @ restart_array ts rs @ EncodeFixed32 (of_nat (length rs))"
  unfolding bytes_at_def assms(1) block_bytes_def entries_bytes_split [OF assms(2)]
  by (simp add: entry_off_def)

lemma on_block_restart_point:
  assumes "on_block ts rs it" "fits ts rs" "j < length rs" "rs ! j \<le> length ts"
  shows "GetRestartPoint j it = entry_off ts (rs ! j)"
proof -
  have "bytes_at (length (entries_bytes ts) + j * 4) it
      = drop (4 * j) (restart_array ts rs) @ EncodeFixed32 (of_nat (length rs))"
    using assms(1,3) by (simp add: bytes_at_def on_block_def block_bytes_def mult.commute)
  then show ?thesis
    using assms fits_bounds [OF assms(2)] restart_array_at [OF assms(3)]
    by (simp add: GetRestartPoint_def on_block_def u32_of_nat)
qed

lemma decode_at_entry:
  assumes "on_block ts rs it" "fits ts rs" "i < length ts" "eshared ts i \<le> length (ekey ts i)"
  defines "p \<equiv> entry_off ts (Suc i) - length (evalue ts i) - (length (ekey ts i) - eshared ts i)"
  shows "decode_at (entry_off ts i) it
      = Some (of_nat (eshared ts i), of_nat (length (ekey ts i) - eshared ts i), of_nat (length (evalue ts i)), p)"
    "take (length (ekey ts i) - eshared ts i) (bytes_at p it) = drop (eshared ts i) (ekey ts i)"
    "p + (length (ekey ts i) - eshared ts i) + length (evalue ts i) = entry_off ts (Suc i)"
    "length (ekey ts i) - eshared ts i < 2 ^ 32" "length (evalue ts i) < 2 ^ 32"
proof -
  obtain s k v where t: "ts ! i = (s, k, v)" by (cases "ts ! i")
  let ?E = "entries_bytes ts" and ?D = "entries_bytes (drop (Suc i) ts)"
  let ?T = "restart_array ts rs @ EncodeFixed32 (of_nat (length rs))"
  have data: "bi_data it = Some (block_bytes ts rs)" "unat (restarts it) = length ?E"
    using assms(1) fits_bounds(2) [OF assms(2)] by (auto simp: on_block_def)
  have len: "length ?E = entry_off ts i + length (entry_bytes (s, k, v)) + length ?D"
    using arg_cong [OF entries_bytes_split [OF assms(3)], of length] by (simp add: t entry_off_def)
  have eb: "length (entry_bytes (s, k, v)) = length (PutVarint32Varint32Varint32 [] (of_nat s) (of_nat (length k - s)) (of_nat (length v))) + (length k - s) + length v"
    by (simp add: entry_bytes_def)
  have s: "s \<le> length k" using assms(4) by (simp add: t)
  have small: "length (entry_bytes (s, k, v) @ ?D) < 2 ^ 32" using fits_bounds(1) [OF assms(2)] len by simp
  have b: "bytes_at (entry_off ts i) it = entry_bytes (s, k, v) @ ?D @ ?T"
    using bytes_at_entry [OF data(1) assms(3)] by (simp add: t)
  have "take (length ?E - entry_off ts i) (bytes_at (entry_off ts i) it) = entry_bytes (s, k, v) @ ?D"
    using len by (simp add: b)
  then have d: "decode_at (entry_off ts i) it
      = Some (of_nat s, of_nat (length k - s), of_nat (length v), length ?E - (length k - s + (length v + length ?D)))"
    using DecodeEntry_entry [OF s small] by (simp add: decode_at_def data(2))
  have off: "entry_off ts (Suc i) = entry_off ts i + length (entry_bytes (s, k, v))"
    using assms(3) by (simp add: entry_off_Suc t)
  have p: "p = length ?E - (length k - s + (length v + length ?D))" using len off eb by (simp add: p_def t)
  show "decode_at (entry_off ts i) it
      = Some (of_nat (eshared ts i), of_nat (length (ekey ts i) - eshared ts i), of_nat (length (evalue ts i)), p)"
    using d p by (simp add: t)
  show "p + (length (ekey ts i) - eshared ts i) + length (evalue ts i) = entry_off ts (Suc i)"
    using eb off by (simp add: p_def t)
  show "length (ekey ts i) - eshared ts i < 2 ^ 32" "length (evalue ts i) < 2 ^ 32"
    using small eb by (simp_all add: t)
  have "p = entry_off ts i + length (PutVarint32Varint32Varint32 [] (of_nat s) (of_nat (length k - s)) (of_nat (length v)))"
    using eb off by (simp add: p_def t)
  then have "bytes_at p it = drop s k @ v @ ?D @ ?T"
    using arg_cong [OF b, of "drop (length (PutVarint32Varint32Varint32 [] (of_nat s) (of_nat (length k - s)) (of_nat (length v))))"]
    by (simp add: bytes_at_def entry_bytes_def add.commute)
  then show "take (length (ekey ts i) - eshared ts i) (bytes_at p it) = drop (eshared ts i) (ekey ts i)"
    by (simp add: t)
qed

section \<open>One step\<close>

definition frame :: "BlockIter \<Rightarrow> BlockIter \<Rightarrow> bool" where
  "frame it it' \<longleftrightarrow>
     bi_status it' = bi_status it \<and> prev_entries it' = prev_entries it \<and>
     prev_entries_keys_buff it' = prev_entries_keys_buff it \<and> prev_entries_idx it' = prev_entries_idx it"

lemma frame_refl [simp]: "frame it it"
  by (simp add: frame_def)

lemma frame_trans: "frame a b \<Longrightarrow> frame b c \<Longrightarrow> frame a c"
  by (simp add: frame_def)

lemma advance_restart_index: "restart_index it < num_restarts it \<Longrightarrow> restart_index (advance_restart it) < num_restarts it"
proof (induction it rule: advance_restart.induct)
  case (1 it)
  then show ?case by (subst advance_restart.simps) simp
qed

lemma ekey_le_entry_off:
  assumes "\<forall>i < length ts. share_ok ts i" "i < length ts"
  shows "eshared ts i \<le> length (ekey ts i) \<and> length (ekey ts i) \<le> entry_off ts (Suc i)"
  using assms(2)
proof (induction i)
  case 0
  obtain s k v where "ts ! 0 = (s, k, v)" by (cases "ts ! 0")
  then show ?case using assms(1) 0 by (auto simp: share_ok_def entry_off_Suc entry_bytes_def)
next
  case (Suc i)
  obtain s k v where "ts ! Suc i = (s, k, v)" by (cases "ts ! Suc i")
  moreover from this have "s \<le> length k" "s \<le> length (ekey ts i)"
    using assms(1) Suc.prems by (auto simp: share_ok_def)
  moreover have "length (ekey ts i) \<le> entry_off ts (Suc i)" using Suc by simp
  ultimately show ?case using Suc.prems by (simp add: entry_off_Suc [of "Suc i"] entry_bytes_def)
qed

lemma key_data_length: "IterKey_inv k \<Longrightarrow> length (key_data k) = key_size k"
  by (auto simp: IterKey_inv_def key_data_def split: key_ptr.splits)

lemma set_key_effect:
  assumes "IterKey_inv (bi_key it)" "s \<le> key_size (bi_key it)"
  shows "IterKey_inv (bi_key (set_key s d it))"
    "key_data (bi_key (set_key s d it)) = take s (key_data (bi_key it)) @ d"
proof -
  have inv: "IterKey_inv (bi_key it\<lparr>is_user_key := False\<rparr>)"
    using assms(1) by (cases "key_at (bi_key it)") (simp_all add: IterKey_inv_def)
  show "IterKey_inv (bi_key (set_key s d it))"
    "key_data (bi_key (set_key s d it)) = take s (key_data (bi_key it)) @ d"
    using SetKeyImpl_effect [OF inv, of d False] TrimAppend_effect [OF assms, of d]
    by (simp_all add: set_key_def SetInternalKey_def)
qed

lemma ParseNextKey_ok:
  assumes "NextEntryOffset it = c" "c < unat (restarts it)"
    "decode_at c (it\<lparr>bi_current := c\<rparr>) = Some (of_nat s, of_nat n, of_nat v, p)"
    "s < 2 ^ 32" "n < 2 ^ 32" "v < 2 ^ 32" "s \<le> key_size (bi_key it)"
  shows "ParseNextKey it = (True, advance_restart
    ((apply_global_seqno (set_key s (take n (bytes_at p (it\<lparr>bi_current := c\<rparr>))) (it\<lparr>bi_current := c\<rparr>)))
      \<lparr>value_off := p + n, value_len := v\<rparr>))"
  using assms(2,3,7) unfolding ParseNextKey_def Let_def assms(1)
  by (simp add: u32_of_nat [OF assms(4)] u32_of_nat [OF assms(5)] u32_of_nat [OF assms(6)])

lemma parse_step:
  assumes "layout ts rs" "fits ts rs" "before ts rs i it" "i < length ts"
  obtains it' where "ParseNextKey it = (True, it')" "at ts rs i it'" "frame it it'"
proof -
  let ?n = "length (ekey ts i) - eshared ts i" and ?v = "length (evalue ts i)"
  let ?p = "entry_off ts (Suc i) - ?v - ?n"
  have share: "\<forall>i < length ts. share_ok ts i" using assms(1) by (simp add: layout_def)
  have s: "eshared ts i \<le> length (ekey ts i)" using ekey_le_entry_off [OF share assms(4)] by simp
  have ob: "on_block ts rs it" and inv: "IterKey_inv (bi_key it)" and ri: "restart_index it < length rs"
    using assms(3) by (auto simp: before_def on_block_def)
  have next_off: "NextEntryOffset it = entry_off ts i"
    using assms(3,4) fits_bounds(3) [OF assms(2), of i] by (simp add: NextEntryOffset_def before_def)
  define it0 where "it0 = it\<lparr>bi_current := entry_off ts i\<rparr>"
  have ob0: "on_block ts rs it0" using ob by (simp add: it0_def on_block_def)
  note d = decode_at_entry [OF ob0 assms(2,4) s]
  have s32: "eshared ts i < 2 ^ 32"
    using ekey_le_entry_off [OF share assms(4)] fits_bounds(3) [OF assms(2), of "Suc i"] assms(4) by simp
  have prev: "eshared ts i = 0 \<or> key_data (bi_key it) = ekey ts (i - 1) \<and> 0 < i"
    using assms(3,4) by (auto simp: before_def)
  have shr: "eshared ts i \<le> key_size (bi_key it)
      \<and> take (eshared ts i) (key_data (bi_key it)) = take (eshared ts i) (ekey ts i)"
    using prev share assms(4) key_data_length [OF inv] by (auto simp: share_ok_def)
  define it1 where "it1 = set_key (eshared ts i) (drop (eshared ts i) (ekey ts i)) it0"
  have inv1: "IterKey_inv (bi_key it1)" and key1: "key_data (bi_key it1) = ekey ts i"
    using set_key_effect [of it0 "eshared ts i" "drop (eshared ts i) (ekey ts i)"] inv shr
    by (simp_all add: it1_def it0_def)
  have gs: "apply_global_seqno it1 = it1" using ob by (simp add: apply_global_seqno_def it1_def it0_def on_block_def)
  define it2 where "it2 = advance_restart (it1\<lparr>value_off := ?p + ?n, value_len := ?v\<rparr>)"
  have "restarts it = of_nat (length (entries_bytes ts))" using ob by (simp add: on_block_def)
  then have lt: "entry_off ts i < unat (restarts it)"
    using entry_off_less [OF assms(4), of ts] fits_bounds(2) [OF assms(2)] by (simp add: entry_off_length)
  have "ParseNextKey it = (True, it2)"
    unfolding ParseNextKey_ok [OF next_off lt d(1) [unfolded it0_def] s32 d(4,5) conjunct1 [OF shr]]
    unfolding it0_def [symmetric] d(2) it1_def [symmetric] gs it2_def ..
  moreover have "at ts rs i it2"
    using ob inv1 key1 d(3) assms(4) ri advance_restart_index [of "it1\<lparr>value_off := ?p + ?n, value_len := ?v\<rparr>"]
    by (simp add: at_def on_block_def it2_def) (simp add: it1_def it0_def)
  moreover have "frame it it2" by (simp add: frame_def it2_def it1_def it0_def)
  ultimately show ?thesis using that by blast
qed

lemma parse_end:
  assumes "fits ts rs" "before ts rs (length ts) it"
  obtains it' where "ParseNextKey it = (False, it')" "past_end ts rs it'" "frame it it'"
proof -
  have "NextEntryOffset it = length (entries_bytes ts)" "unat (restarts it) = length (entries_bytes ts)"
    using assms(2) fits_bounds [OF assms(1)] by (simp_all add: NextEntryOffset_def before_def on_block_def entry_off_length)
  then have "ParseNextKey it = (False, it\<lparr>bi_current := length (entries_bytes ts), restart_index := num_restarts it\<rparr>)"
    by (simp add: ParseNextKey_def Let_def)
  with that show ?thesis using assms(2) by (simp add: past_end_def on_block_def frame_def before_def)
qed

lemma at_valid:
  assumes "fits ts rs" "at ts rs i it"
  shows "BlockIter_Valid it" "BlockIter_key it = ekey ts i" "BlockIter_value it = evalue ts i"
proof -
  have i: "i < length ts" using assms(2) by (simp add: at_def)
  show "BlockIter_Valid it"
    using assms(2) fits_bounds(2) [OF assms(1)] entry_off_less [OF i, of ts]
    by (simp add: BlockIter_Valid_def at_def on_block_def entry_off_length)
  show "BlockIter_key it = ekey ts i" using assms(2) by (simp add: BlockIter_key_def GetInternalKey_def at_def)
  obtain s k v where t: "ts ! i = (s, k, v)" by (cases "ts ! i")
  let ?h = "PutVarint32Varint32Varint32 [] (of_nat s) (of_nat (length k - s)) (of_nat (length v)) @ drop s k"
  have b: "bytes_at (entry_off ts i) it = (?h @ v) @ entries_bytes (drop (Suc i) ts)
      @ restart_array ts rs @ EncodeFixed32 (of_nat (length rs))"
    using bytes_at_entry [OF _ i, of it rs] assms(2) by (simp add: at_def on_block_def t entry_bytes_def)
  have "value_off it = entry_off ts i + length ?h" "value_len it = length v"
    using assms(2) i by (simp_all add: at_def t entry_off_Suc entry_bytes_def)
  then have "bytes_at (value_off it) it = v @ entries_bytes (drop (Suc i) ts)
      @ restart_array ts rs @ EncodeFixed32 (of_nat (length rs))"
    using arg_cong [OF b, of "drop (length ?h)"] by (simp add: bytes_at_def add.commute)
  then show "BlockIter_value it = evalue ts i" using \<open>value_len it = length v\<close> by (simp add: BlockIter_value_def t)
qed

lemma past_end_invalid: "fits ts rs \<Longrightarrow> past_end ts rs it \<Longrightarrow> \<not> BlockIter_Valid it"
  using fits_bounds(2) [of ts rs] by (simp add: past_end_def BlockIter_Valid_def on_block_def)

lemma layout_restart:
  assumes "layout ts rs" "j < length rs"
  shows "rs ! j \<le> length ts" "rs ! j < length ts \<Longrightarrow> eshared ts (rs ! j) = 0"
    "0 < length ts \<Longrightarrow> rs ! j < length ts"
proof -
  have *: "rs ! j = 0 \<or> rs ! j < length ts \<and> eshared ts (rs ! j) = 0"
    using assms nth_mem [OF assms(2)] unfolding layout_def by blast
  show "rs ! j \<le> length ts" "0 < length ts \<Longrightarrow> rs ! j < length ts" using * by auto
  show "eshared ts (rs ! j) = 0" if "rs ! j < length ts"
    using * that assms(1) by (auto simp: layout_def share_ok_def)
qed

lemma seek_restart_before:
  assumes "layout ts rs" "fits ts rs" "on_block ts rs it" "j < length rs"
  shows "before ts rs (rs ! j) (SeekToRestartPoint j it)" "frame it (SeekToRestartPoint j it)"
proof -
  have inv: "IterKey_inv (IterKey_Clear (bi_key it))"
    using assms(3) by (auto simp: on_block_def IterKey_inv_def IterKey_Clear_def split: key_ptr.splits)
  then show "before ts rs (rs ! j) (SeekToRestartPoint j it)"
    using layout_restart [OF assms(1,4)] assms on_block_restart_point [OF assms(3,2,4)]
    by (auto simp: before_def SeekToRestartPoint_def on_block_def)
  show "frame it (SeekToRestartPoint j it)" by (simp add: frame_def SeekToRestartPoint_def)
qed

section \<open>Searches\<close>

text \<open>A search ends at the first entry from \<open>i\<close> on whose key is not below the target.\<close>

definition search_result ::
    "(slice \<Rightarrow> slice \<Rightarrow> int) \<Rightarrow> slice \<Rightarrow> bentry list \<Rightarrow> nat list \<Rightarrow> nat \<Rightarrow> BlockIter \<Rightarrow> bool" where
  "search_result cmp target ts rs i it \<longleftrightarrow>
     (\<exists>m \<ge> i. at ts rs m it \<and> 0 \<le> cmp (ekey ts m) target \<and> (\<forall>l. i \<le> l \<and> l < m \<longrightarrow> cmp (ekey ts l) target < 0)) \<or>
     past_end ts rs it \<and> (\<forall>l. i \<le> l \<and> l < length ts \<longrightarrow> cmp (ekey ts l) target < 0)"

lemma search_result_Suc:
  assumes "search_result cmp target ts rs (Suc i) it" "cmp (ekey ts i) target < 0"
  shows "search_result cmp target ts rs i it"
proof -
  have le: "l = i \<or> Suc i \<le> l" if "i \<le> l" for l using that by auto
  from assms(1) consider m where "Suc i \<le> m" "at ts rs m it" "0 \<le> cmp (ekey ts m) target"
      "\<forall>l. Suc i \<le> l \<and> l < m \<longrightarrow> cmp (ekey ts l) target < 0"
    | "past_end ts rs it" "\<forall>l. Suc i \<le> l \<and> l < length ts \<longrightarrow> cmp (ekey ts l) target < 0"
    unfolding search_result_def by blast
  then show ?thesis
  proof cases
    case 1
    then have "\<forall>l. i \<le> l \<and> l < m \<longrightarrow> cmp (ekey ts l) target < 0" using assms(2) le by blast
    then show ?thesis unfolding search_result_def using 1 by (intro disjI1 exI [of _ m]) simp
  next
    case 2
    then show ?thesis unfolding search_result_def using assms(2) le by blast
  qed
qed

lemma seek_linear_spec:
  assumes "layout ts rs" "fits ts rs" "before ts rs i it"
  shows "frame it (seek_linear cmp target it) \<and> search_result cmp target ts rs i (seek_linear cmp target it)"
  using assms(3)
proof (induction "length ts - i" arbitrary: i it)
  case 0
  then have i: "i = length ts" by (simp add: before_def)
  obtain it' where "ParseNextKey it = (False, it')" "past_end ts rs it'" "frame it it'"
    using parse_end [OF assms(2)] 0 i by blast
  then show ?case by (auto simp: seek_linear.simps [of _ _ it] search_result_def i)
next
  case (Suc d)
  then have i: "i < length ts" by simp
  obtain it' where p: "ParseNextKey it = (True, it')" "at ts rs i it'" "frame it it'"
    using parse_step [OF assms(1,2) Suc.prems i] by blast
  have key: "GetInternalKey (bi_key it') = ekey ts i" using p(2) by (simp add: GetInternalKey_def at_def)
  show ?case
  proof (cases "0 \<le> cmp (ekey ts i) target")
    case True
    then show ?thesis using p key by (auto simp: seek_linear.simps [of _ _ it] search_result_def)
  next
    case False
    have "before ts rs (Suc i) it'" using at_before [OF p(2)] assms(1) by (simp add: layout_def)
    then have ih: "frame it' (seek_linear cmp target it')"
      "search_result cmp target ts rs (Suc i) (seek_linear cmp target it')"
      using Suc.hyps(1) [of "Suc i" it'] Suc.hyps(2) by auto
    have "seek_linear cmp target it = seek_linear cmp target it'"
      using False p(1) key by (simp add: seek_linear.simps [of _ _ it])
    moreover have "search_result cmp target ts rs i (seek_linear cmp target it')"
      using search_result_Suc [OF ih(2)] False by simp
    ultimately show ?thesis using ih(1) frame_trans [OF p(3)] by simp
  qed
qed

lemma seek_below_eq: "seek_below cmp target it = seek_linear cmp target it"
proof (induction cmp target it rule: seek_below.induct)
  case (1 cmp target it)
  then show ?case
    by (auto simp: seek_below.simps [of _ _ it] seek_linear.simps [of _ _ it] split: bool.splits prod.splits)
qed

definition keys_sorted :: "(slice \<Rightarrow> slice \<Rightarrow> int) \<Rightarrow> bentry list \<Rightarrow> bool" where
  "keys_sorted cmp ts \<longleftrightarrow> sorted_wrt (\<lambda>a b. cmp (fst (snd a)) (fst (snd b)) < 0) ts"

lemma keys_sortedD: "keys_sorted cmp ts \<Longrightarrow> i < j \<Longrightarrow> j < length ts \<Longrightarrow> cmp (ekey ts i) (ekey ts j) < 0"
  by (auto simp: keys_sorted_def sorted_wrt_iff_nth_less)

lemma restart_order: "layout ts rs \<Longrightarrow> i < j \<Longrightarrow> j < length rs \<Longrightarrow> rs ! i < rs ! j"
  by (auto simp: layout_def sorted_wrt_iff_nth_less)

text \<open>The key at the restart point found is not above the target, the one after it is.\<close>

definition bracket :: "(slice \<Rightarrow> slice \<Rightarrow> int) \<Rightarrow> slice \<Rightarrow> bentry list \<Rightarrow> nat list \<Rightarrow> nat \<Rightarrow> nat \<Rightarrow> bool" where
  "bracket cmp target ts rs left right \<longleftrightarrow>
     left \<le> right \<and> right < length rs \<and> (left = 0 \<or> cmp (ekey ts (rs ! left)) target \<le> 0) \<and>
     (Suc right = length rs \<or> 0 < cmp (ekey ts (rs ! Suc right)) target)"

lemma decode_at_restart:
  assumes "layout ts rs" "fits ts rs" "on_block ts rs it" "j < length rs" "ts \<noteq> []"
  obtains p v n where "decode_at (GetRestartPoint j it) it = Some (0, n, v, p)"
    "take (unat n) (bytes_at p it) = ekey ts (rs ! j)"
proof -
  have r: "rs ! j < length ts" "eshared ts (rs ! j) = 0" using layout_restart [OF assms(1,4)] assms(5) by auto
  then have "GetRestartPoint j it = entry_off ts (rs ! j)"
    using on_block_restart_point [OF assms(3,2,4)] by simp
  then show ?thesis using decode_at_entry [OF assms(3,2) r(1)] r(2) that by (simp add: u32_of_nat)
qed

context comparator
begin

lemma binary_seek_spec:
  assumes "layout ts rs" "fits ts rs" "on_block ts rs it" "keys_sorted Compare ts"
    "bracket Compare target ts rs left right"
  shows "\<exists>index. BinarySeek Compare target left right it = (Some index, it) \<and> bracket Compare target ts rs index index"
  using assms(5)
proof (induction "right - left" arbitrary: left right rule: less_induct)
  case less
  show ?case
  proof (cases "left < right")
    case False
    then have "right = left" using less.prems by (simp add: bracket_def)
    then show ?thesis using less.prems by (simp add: BinarySeek.simps [of _ _ left left])
  next
    case True
    define mid where "mid = (left + right + 1) div 2"
    have mid: "left < mid" "mid \<le> right" "mid < length rs" using True less.prems by (auto simp: bracket_def mid_def)
    have ne: "ts \<noteq> []" using restart_order [OF assms(1), of 0 mid] layout_restart(1) [OF assms(1) mid(3)] mid by auto
    obtain p v n where d: "decode_at (GetRestartPoint mid it) it = Some (0, n, v, p)"
      "take (unat n) (bytes_at p it) = ekey ts (rs ! mid)"
      using decode_at_restart [OF assms(1-3) mid(3) ne] by blast
    let ?c = "Compare (ekey ts (rs ! mid)) target"
    have eq: "BinarySeek Compare target left right it =
        (if ?c < 0 then BinarySeek Compare target mid right it
         else if ?c > 0 then BinarySeek Compare target left (mid - 1) it
         else BinarySeek Compare target mid mid it)"
      unfolding BinarySeek.simps [of _ _ left right] mid_def [symmetric] Let_def using True d by simp
    consider "?c < 0" | "?c > 0" | "?c = 0" by linarith
    then show ?thesis
    proof cases
      case 1
      then have "bracket Compare target ts rs mid right" using less.prems mid by (simp add: bracket_def)
      then show ?thesis using less.hyps [of right mid] 1 mid by (simp add: eq)
    next
      case 2
      then have "bracket Compare target ts rs left (mid - 1)" using less.prems mid by (auto simp: bracket_def)
      then show ?thesis using less.hyps [of "mid - 1" left] 2 mid by (simp add: eq)
    next
      case 3
      have "0 < Compare (ekey ts (rs ! Suc mid)) target" if "Suc mid < length rs"
      proof -
        have "Compare (ekey ts (rs ! mid)) (ekey ts (rs ! Suc mid)) < 0"
          using keys_sortedD [OF assms(4)] restart_order [OF assms(1), of mid "Suc mid"] that ne
            layout_restart(3) [OF assms(1) that] by simp
        then show ?thesis
          using compare_eq_left [OF 3] compare_eq_sym compare_le_less_trans [of target "ekey ts (rs ! mid)"]
            compare_eq_sym [of target "ekey ts (rs ! mid)"] 3 compare_flip [of target] by auto
      qed
      then have "bracket Compare target ts rs mid mid" using 3 mid(3) by (cases "Suc mid = length rs") (auto simp: bracket_def)
      then show ?thesis using 3 by (simp add: eq BinarySeek.simps [of _ _ mid mid])
    qed
  qed
qed

end

lemma search_result_extend:
  assumes "search_result cmp target ts rs i it" "\<forall>l < i. cmp (ekey ts l) target < 0"
  shows "search_result cmp target ts rs 0 it"
proof -
  have le: "\<And>l. l < i \<or> i \<le> l" by auto
  from assms(1) consider m where "i \<le> m" "at ts rs m it" "0 \<le> cmp (ekey ts m) target"
      "\<forall>l. i \<le> l \<and> l < m \<longrightarrow> cmp (ekey ts l) target < 0"
    | "past_end ts rs it" "\<forall>l. i \<le> l \<and> l < length ts \<longrightarrow> cmp (ekey ts l) target < 0"
    unfolding search_result_def by blast
  then show ?thesis
  proof cases
    case 1
    then have "\<forall>l. 0 \<le> l \<and> l < m \<longrightarrow> cmp (ekey ts l) target < 0" using assms(2) le by blast
    then show ?thesis unfolding search_result_def using 1 by (intro disjI1 exI [of _ m]) simp
  next
    case 2
    then show ?thesis unfolding search_result_def using assms(2) le by blast
  qed
qed

context comparator
begin

lemma seek_search:
  assumes "layout ts rs" "fits ts rs" "on_block ts rs it" "keys_sorted Compare ts"
  obtains index it' where "BinarySeek Compare target 0 (num_restarts it - 1) it = (Some index, it)"
    "it' = seek_linear Compare target (SeekToRestartPoint index it)" "frame it it'"
    "search_result Compare target ts rs 0 it'"
proof -
  have "0 < length rs" using assms(1) by (simp add: layout_def)
  moreover have num: "num_restarts it = length rs" using assms(3) by (simp add: on_block_def)
  ultimately have "bracket Compare target ts rs 0 (num_restarts it - 1)" by (auto simp: bracket_def)
  then obtain index where bs: "BinarySeek Compare target 0 (num_restarts it - 1) it = (Some index, it)"
      "bracket Compare target ts rs index index"
    using binary_seek_spec [OF assms] by blast
  then have ix: "index < length rs" by (simp add: bracket_def)
  note b = seek_restart_before [OF assms(1-3) ix]
  let ?it = "seek_linear Compare target (SeekToRestartPoint index it)"
  note s = seek_linear_spec [OF assms(1,2) b(1), of Compare target]
  have below: "Compare (ekey ts l) target < 0" if "l < rs ! index" for l
  proof -
    have "rs ! 0 = 0" using assms(1) by (simp add: layout_def)
    then have "index \<noteq> 0" using that by (intro notI) simp
    then have le: "Compare (ekey ts (rs ! index)) target \<le> 0" using bs(2) by (simp add: bracket_def)
    have "rs ! index < length ts" using layout_restart [OF assms(1) ix] that by (cases "length ts") simp_all
    then have "Compare (ekey ts l) (ekey ts (rs ! index)) < 0" using keys_sortedD [OF assms(4) that] by simp
    then show ?thesis using le by (rule compare_less_le_trans)
  qed
  then have "search_result Compare target ts rs 0 ?it" using s search_result_extend by blast
  then show ?thesis using that bs(1) s b(2) frame_trans by blast
qed

end

section \<open>Going to the last entry and back\<close>

lemma skip_to_last_spec:
  assumes "layout ts rs" "fits ts rs" "before ts rs i it" "i < length ts"
  shows "frame it (skip_to_last it) \<and> at ts rs (length ts - 1) (skip_to_last it)"
  using assms(3,4)
proof (induction "length ts - i" arbitrary: i it)
  case (Suc d)
  obtain it' where p: "ParseNextKey it = (True, it')" "at ts rs i it'" "frame it it'"
    using parse_step [OF assms(1,2) Suc.prems] by blast
  have b: "before ts rs (Suc i) it'" using at_before [OF p(2)] assms(1) by (simp add: layout_def)
  have n: "NextEntryOffset it' = entry_off ts (Suc i)"
    using b fits_bounds(3) [OF assms(2), of "Suc i"] Suc.prems by (simp add: before_def NextEntryOffset_def)
  have r: "unat (restarts it') = entry_off ts (length ts)"
    using b fits_bounds(2) [OF assms(2)] by (simp add: before_def on_block_def entry_off_length)
  show ?case
  proof (cases "Suc i < length ts")
    case True
    then have "skip_to_last it = skip_to_last it'"
      using p(1) n r by (simp add: skip_to_last.simps [of it] entry_off_less)
    then show ?thesis using Suc.hyps(1) [OF _ b True] Suc.hyps(2) p(3) frame_trans by auto
  next
    case False
    then have "length ts = Suc i" using Suc.prems by simp
    moreover from this have "skip_to_last it = it'" using p(1) n r by (simp add: skip_to_last.simps [of it])
    ultimately show ?thesis using p by auto
  qed
qed simp

lemma skip_to_last_empty:
  assumes "fits ts rs" "before ts rs 0 it" "ts = []"
  shows "frame it (skip_to_last it) \<and> past_end ts rs (skip_to_last it)"
proof -
  have "before ts rs (length ts) it" using assms(2,3) by simp
  then obtain it' where "ParseNextKey it = (False, it')" "past_end ts rs it'" "frame it it'"
    using parse_end [OF assms(1)] by blast
  then show ?thesis by (simp add: skip_to_last.simps [of it])
qed

lemma SeekToLast_spec:
  assumes "layout ts rs" "fits ts rs" "on_block ts rs it"
  shows "frame it (BlockIter_SeekToLast it) \<and>
    (if ts = [] then past_end ts rs (BlockIter_SeekToLast it) else at ts rs (length ts - 1) (BlockIter_SeekToLast it))"
proof -
  have j: "num_restarts it - 1 < length rs" using assms by (simp add: layout_def on_block_def)
  note b = seek_restart_before [OF assms j]
  have e: "BlockIter_SeekToLast it = skip_to_last (SeekToRestartPoint (num_restarts it - 1) it)"
    using assms(3) by (simp add: BlockIter_SeekToLast_def on_block_def)
  show ?thesis
  proof (cases "ts = []")
    case True
    then have "rs ! (num_restarts it - 1) = 0" using layout_restart(1) [OF assms(1) j] by simp
    then have "before ts rs 0 (SeekToRestartPoint (num_restarts it - 1) it)" using b(1) by simp
    then show ?thesis using skip_to_last_empty [OF assms(2) _ True] frame_trans [OF b(2)] e True by simp
  next
    case False
    then have "rs ! (num_restarts it - 1) < length ts" using layout_restart(3) [OF assms(1) j] by simp
    then show ?thesis using skip_to_last_spec [OF assms(1,2) b(1)] frame_trans [OF b(2)] e False by simp
  qed
qed

lemma SeekToFirst_spec:
  assumes "layout ts rs" "fits ts rs" "on_block ts rs it"
  shows "frame it (BlockIter_SeekToFirst it) \<and>
    (if ts = [] then past_end ts rs (BlockIter_SeekToFirst it) else at ts rs 0 (BlockIter_SeekToFirst it))"
proof -
  have "0 < length rs" "rs ! 0 = 0" using assms(1) by (auto simp: layout_def)
  then have b: "before ts rs 0 (SeekToRestartPoint 0 it)" "frame it (SeekToRestartPoint 0 it)"
    using seek_restart_before [OF assms, of 0] by auto
  have e: "BlockIter_SeekToFirst it = snd (ParseNextKey (SeekToRestartPoint 0 it))"
    using assms(3) by (simp add: BlockIter_SeekToFirst_def on_block_def)
  show ?thesis
  proof (cases "ts = []")
    case True
    then have "before ts rs (length ts) (SeekToRestartPoint 0 it)" using b(1) by simp
    then obtain it' where "ParseNextKey (SeekToRestartPoint 0 it) = (False, it')" "past_end ts rs it'"
        "frame (SeekToRestartPoint 0 it) it'"
      using parse_end [OF assms(2)] by blast
    then show ?thesis using frame_trans [OF b(2)] e True by simp
  next
    case False
    then obtain it' where "ParseNextKey (SeekToRestartPoint 0 it) = (True, it')" "at ts rs 0 it'"
        "frame (SeekToRestartPoint 0 it) it'"
      using parse_step [OF assms(1,2) b(1)] by blast
    then show ?thesis using frame_trans [OF b(2)] e False by simp
  qed
qed

lemma Next_spec:
  assumes "layout ts rs" "fits ts rs" "at ts rs i it"
  shows "frame it (BlockIter_Next it) \<and>
    (if Suc i < length ts then at ts rs (Suc i) (BlockIter_Next it) else past_end ts rs (BlockIter_Next it))"
proof -
  have b: "before ts rs (Suc i) it" using at_before [OF assms(3)] assms(1) by (simp add: layout_def)
  show ?thesis
  proof (cases "Suc i < length ts")
    case True
    then obtain it' where "ParseNextKey it = (True, it')" "at ts rs (Suc i) it'" "frame it it'"
      using parse_step [OF assms(1,2) b] by blast
    then show ?thesis using True by (simp add: BlockIter_Next_def)
  next
    case False
    then have "Suc i = length ts" using assms(3) by (simp add: at_def)
    then have "before ts rs (length ts) it" using b by simp
    then obtain it' where "ParseNextKey it = (False, it')" "past_end ts rs it'" "frame it it'"
      using parse_end [OF assms(2)] by blast
    then show ?thesis using False by (simp add: BlockIter_Next_def)
  qed
qed

section \<open>Stepping back\<close>

lemma cached_append: "cached ts kb e i \<Longrightarrow> cached ts (kb @ x) e i"
  by (auto simp: cached_def split: option.splits)

definition cache_run :: "bentry list \<Rightarrow> BlockIter \<Rightarrow> nat \<Rightarrow> bool" where
  "cache_run ts it b \<longleftrightarrow>
     (\<forall>m < length (prev_entries it). cached ts (prev_entries_keys_buff it) (prev_entries it ! m) (b + m))"

lemma cache_entry_spec:
  assumes "at ts rs a it" "cache_run ts it b" "length (prev_entries it) = a - b" "b \<le> a"
  shows "at ts rs a (cache_entry it)" "cache_run ts (cache_entry it) b"
    "length (prev_entries (cache_entry it)) = Suc a - b" "bi_status (cache_entry it) = bi_status it"
proof -
  show "at ts rs a (cache_entry it)" using assms(1) by (simp add: at_def on_block_def)
  have key: "BlockIter_key it = ekey ts a" using assms(1) by (simp add: BlockIter_key_def GetInternalKey_def at_def)
  obtain e x where ce: "prev_entries (cache_entry it) = prev_entries it @ [e]"
      "prev_entries_keys_buff (cache_entry it) = prev_entries_keys_buff it @ x"
      "cached ts (prev_entries_keys_buff it @ x) e a"
  proof (cases "IsKeyPinned (bi_key it)")
    case True
    then show ?thesis using that [of _ "[]"] assms(1) key
      by (simp add: cache_entry_def Let_def cached_def at_def)
  next
    case False
    then show ?thesis using that [of _ "ekey ts a"] assms(1) key
      by (simp add: cache_entry_def Let_def cached_def at_def)
  qed
  show len: "length (prev_entries (cache_entry it)) = Suc a - b" using ce(1) assms(3,4) by simp
  show "cache_run ts (cache_entry it) b"
    unfolding cache_run_def
  proof (intro allI impI)
    fix m assume "m < length (prev_entries (cache_entry it))"
    then consider "m < length (prev_entries it)" | "m = length (prev_entries it)" using ce(1) by fastforce
    then show "cached ts (prev_entries_keys_buff (cache_entry it)) (prev_entries (cache_entry it) ! m) (b + m)"
    proof cases
      case 1
      then show ?thesis using assms(2) cached_append by (simp add: ce cache_run_def nth_append)
    next
      case 2
      then show ?thesis using ce assms(3,4) by (simp add: nth_append)
    qed
  qed
qed simp

lemma prev_loop_spec:
  assumes "layout ts rs" "fits ts rs" "i \<le> length ts"
    "before ts rs a it" "a < i" "cache_run ts it b" "length (prev_entries it) = a - b" "b \<le> a"
  shows "at ts rs (i - 1) (prev_loop (entry_off ts i) it) \<and> bi_status (prev_loop (entry_off ts i) it) = bi_status it \<and>
    cache_run ts (prev_loop (entry_off ts i) it) b"
  using assms(4-8)
proof (induction "i - a" arbitrary: a it)
  case (Suc d)
  have a: "a < length ts" using Suc.prems(2) assms(3) by simp
  obtain it' where p: "ParseNextKey it = (True, it')" "at ts rs a it'" "frame it it'"
    using parse_step [OF assms(1,2) Suc.prems(1) a] by blast
  have "cache_run ts it' b" "length (prev_entries it') = a - b"
    using Suc.prems p(3) by (simp_all add: cache_run_def frame_def)
  note ce = cache_entry_spec [OF p(2) this Suc.prems(5)]
  have bf: "before ts rs (Suc a) (cache_entry it')" using at_before [OF ce(1)] assms(1) by (simp add: layout_def)
  have n: "NextEntryOffset (cache_entry it') = entry_off ts (Suc a)"
    using bf fits_bounds(3) [OF assms(2), of "Suc a"] a by (simp add: before_def NextEntryOffset_def)
  have st: "bi_status (cache_entry it') = bi_status it" using p(3) by (simp add: frame_def)
  show ?case
  proof (cases "Suc a < i")
    case True
    then have "prev_loop (entry_off ts i) it = prev_loop (entry_off ts i) (cache_entry it')"
      using p(1) n entry_off_less [OF True assms(3)] by (simp add: prev_loop.simps [of _ it] del: cache_entry_simps)
    then show ?thesis
      using Suc.hyps(1) [OF _ bf True ce(2,3)] Suc.hyps(2) Suc.prems(5) st by simp
  next
    case False
    then have i: "i = Suc a" using Suc.prems(2) by simp
    then have "prev_loop (entry_off ts i) it = cache_entry it'"
      using p(1) n by (simp add: prev_loop.simps [of _ it] del: cache_entry_simps)
    then show ?thesis using ce i st by simp
  qed
qed simp

lemma find_restart_spec:
  assumes "layout ts rs" "fits ts rs" "on_block ts rs it" "i \<le> length ts" "j < length rs"
  shows "if i = 0 then find_restart it (entry_off ts i) j = None
    else \<exists>r < length rs. rs ! r < i \<and> find_restart it (entry_off ts i) j = Some r"
  using assms(5)
proof (induction j)
  case 0
  have "rs ! 0 = 0" using assms(1) by (simp add: layout_def)
  then have "GetRestartPoint 0 it = 0" using on_block_restart_point [OF assms(3,2) 0] by simp
  then show ?case using entry_off_less [of 0 i ts] assms(4) 0 \<open>rs ! 0 = 0\<close> by (cases "i = 0") auto
next
  case (Suc j)
  have le: "rs ! Suc j \<le> length ts" by (rule layout_restart [OF assms(1) Suc.prems])
  have g: "GetRestartPoint (Suc j) it = entry_off ts (rs ! Suc j)"
    by (rule on_block_restart_point [OF assms(3,2) Suc.prems le])
  show ?case
  proof (cases "rs ! Suc j < i")
    case True
    then show ?thesis using g entry_off_less [OF True assms(4)] Suc.prems by auto
  next
    case False
    then have "entry_off ts i \<le> entry_off ts (rs ! Suc j)"
      using entry_off_less_iff [OF le assms(4)] by simp
    then have "find_restart it (entry_off ts i) (Suc j) = find_restart it (entry_off ts i) j" by (simp add: g)
    then show ?thesis using Suc.IH [OF Suc_lessD [OF Suc.prems]] by (simp only:)
  qed
qed

lemma find_restart_clear [simp]:
  "find_restart (it\<lparr>prev_entries_idx := x, prev_entries := y, prev_entries_keys_buff := z\<rparr>) n j
   = find_restart it n j"
  by (induction j) (simp_all add: GetRestartPoint_def bytes_at_def)

lemma Prev_scan:
  assumes "layout ts rs" "fits ts rs" "at ts rs i it"
    "\<not> (prev_entries_idx it > 0 \<and> ce_offset (prev_entries it ! nat (prev_entries_idx it)) = bi_current it)"
  shows "bi_status (BlockIter_Prev it) = bi_status it \<and> cache_ok ts (BlockIter_Prev it) \<and>
    (if i = 0 then past_end ts rs (BlockIter_Prev it) else at ts rs (i - 1) (BlockIter_Prev it))"
proof -
  define it0 where "it0 = it\<lparr>prev_entries_idx := -1, prev_entries := [], prev_entries_keys_buff := []\<rparr>"
  have ob: "on_block ts rs it0" and ri: "restart_index it < length rs" and i: "i < length ts"
    and cur: "bi_current it = entry_off ts i"
    using assms(3) by (auto simp: at_def on_block_def it0_def)
  have unat: "unat (restarts it) = length (entries_bytes ts)"
    using assms(3) fits_bounds(2) [OF assms(2)] by (simp add: at_def on_block_def)
  have eq: "BlockIter_Prev it =
      (case find_restart it0 (entry_off ts i) (restart_index it) of
         None \<Rightarrow> it0\<lparr>bi_current := unat (restarts it), restart_index := num_restarts it\<rparr>
       | Some r \<Rightarrow>
           (let it = prev_loop (entry_off ts i) (SeekToRestartPoint r it0)
            in it\<lparr>prev_entries_idx := int (length (prev_entries it)) - 1\<rparr>))"
    unfolding BlockIter_Prev_def if_not_P [OF assms(4)] Let_def it0_def by (simp add: cur cong: option.case_cong)
  note f = find_restart_spec [OF assms(1,2) ob less_imp_le [OF i] ri]
  show ?thesis
  proof (cases "i = 0")
    case True
    then show ?thesis
      using f ob unat by (simp add: eq past_end_def on_block_def cache_ok_def) (simp add: it0_def)
  next
    case False
    then obtain r where r: "r < length rs" "rs ! r < i"
        "find_restart it0 (entry_off ts i) (restart_index it) = Some r"
      using f by auto
    note b = seek_restart_before [OF assms(1,2) ob r(1)]
    let ?p = "prev_loop (entry_off ts i) (SeekToRestartPoint r it0)"
    have "cache_run ts (SeekToRestartPoint r it0) (rs ! r)" "length (prev_entries (SeekToRestartPoint r it0)) = rs ! r - rs ! r"
      by (simp_all add: cache_run_def SeekToRestartPoint_def it0_def)
    note pl = prev_loop_spec [OF assms(1,2) less_imp_le [OF i] b(1) r(2) this order_refl]
    then have "at ts rs (i - 1) (BlockIter_Prev it)" "cache_ok ts (BlockIter_Prev it)"
      by (auto simp: eq r(3) Let_def at_def on_block_def cache_ok_def cache_run_def)
    moreover have "bi_status (BlockIter_Prev it) = bi_status it"
      using pl b(2) by (simp add: eq r(3) Let_def frame_def) (simp add: it0_def)
    ultimately show ?thesis using False by simp
  qed
qed

lemma Prev_cached:
  assumes "layout ts rs" "fits ts rs" "at ts rs i it" "cache_ok ts it"
    "prev_entries_idx it > 0" "ce_offset (prev_entries it ! nat (prev_entries_idx it)) = bi_current it"
  shows "bi_status (BlockIter_Prev it) = bi_status it \<and> cache_ok ts (BlockIter_Prev it) \<and>
    0 < i \<and> at ts rs (i - 1) (BlockIter_Prev it)"
proof -
  obtain k where k: "prev_entries_idx it = int (Suc k)"
    using assms(5) by (metis gr0_conv_Suc zero_less_imp_eq_int)
  then have nk: "nat (prev_entries_idx it) = Suc k" "nat (prev_entries_idx it - 1) = k" by auto
  obtain a where len: "Suc k < length (prev_entries it)"
      and run: "\<And>m. m < length (prev_entries it) \<Longrightarrow> cached ts (prev_entries_keys_buff it) (prev_entries it ! m) (a + m)"
    using assms(4) k by (auto simp: cache_ok_def)
  have i: "i < length ts" "bi_current it = entry_off ts i" using assms(3) by (auto simp: at_def)
  have "ce_offset (prev_entries it ! Suc k) = entry_off ts i" using assms(6) i nk by simp
  moreover have "a + Suc k < length ts" "ce_offset (prev_entries it ! Suc k) = entry_off ts (a + Suc k)"
    using run [OF len] unfolding cached_def by blast+
  ultimately have ai: "a + Suc k = i"
    using iffD1 [OF entry_off_inj [OF less_imp_le less_imp_le [OF i(1)]], of "a + Suc k"] by metis
  let ?e = "prev_entries it ! k"
  define key where "key = (case ce_key_ptr ?e of Some k \<Rightarrow> k
     | None \<Rightarrow> take (ce_key_size ?e) (drop (ce_key_offset ?e) (prev_entries_keys_buff it)))"
  have c: "cached ts (prev_entries_keys_buff it) ?e (i - 1)" using run [of k] len ai by auto
  then have key: "key = ekey ts (i - 1)" by (auto simp: key_def cached_def split: option.splits)
  have inv: "IterKey_inv (bi_key it\<lparr>is_user_key := False\<rparr>)"
    using assms(3) by (cases "key_at (bi_key it)") (simp_all add: at_def on_block_def IterKey_inv_def)
  note sk = SetKeyImpl_effect [OF inv, of key False]
  have eq: "BlockIter_Prev it = it\<lparr>prev_entries_idx := int k, key_pinned := (ce_key_ptr ?e \<noteq> None),
      bi_current := ce_offset ?e, bi_key := SetInternalKey (bi_key it) key False,
      value_off := fst (ce_value ?e), value_len := snd (ce_value ?e)\<rparr>"
    unfolding BlockIter_Prev_def using assms(5,6) k
    by (simp add: nk key_def Let_def split: option.splits)
  have "at ts rs (i - 1) (BlockIter_Prev it)"
    using assms(3) sk c ai key by (simp add: eq at_def on_block_def SetInternalKey_def cached_def)
  moreover have "cache_ok ts (BlockIter_Prev it)"
    using assms(4) len by (simp add: eq cache_ok_def)
  ultimately show ?thesis using ai by (simp add: eq)
qed

lemma Prev_spec:
  assumes "layout ts rs" "fits ts rs" "at ts rs i it" "cache_ok ts it"
  shows "bi_status (BlockIter_Prev it) = bi_status it \<and> cache_ok ts (BlockIter_Prev it) \<and>
    (if i = 0 then past_end ts rs (BlockIter_Prev it) else at ts rs (i - 1) (BlockIter_Prev it))"
proof (cases "prev_entries_idx it > 0 \<and> ce_offset (prev_entries it ! nat (prev_entries_idx it)) = bi_current it")
  case True
  then show ?thesis using Prev_cached [OF assms] by simp
qed (rule Prev_scan [OF assms(1-3)])

section \<open>The iterator refines a cursor\<close>

text \<open>
  What \<open>InternalIterator\<close> promises: a cursor into the sorted list of keys. \<open>Next\<close> and \<open>Prev\<close> are for a
  valid iterator only.
\<close>

datatype iter_op = OpSeekToFirst | OpSeekToLast | OpSeek slice | OpSeekForPrev slice | OpNext | OpPrev

primrec cursor_step :: "(slice \<Rightarrow> slice \<Rightarrow> int) \<Rightarrow> slice list \<Rightarrow> iter_op \<Rightarrow> nat option \<Rightarrow> nat option" where
  "cursor_step cmp ks OpSeekToFirst c = (if ks = [] then None else Some 0)"
| "cursor_step cmp ks OpSeekToLast c = (if ks = [] then None else Some (length ks - 1))"
| "cursor_step cmp ks (OpSeek target) c = find (\<lambda>i. 0 \<le> cmp (ks ! i) target) [0..<length ks]"
| "cursor_step cmp ks (OpSeekForPrev target) c = find (\<lambda>i. cmp (ks ! i) target \<le> 0) (rev [0..<length ks])"
| "cursor_step cmp ks OpNext c = (case c of None \<Rightarrow> None | Some i \<Rightarrow> if Suc i < length ks then Some (Suc i) else None)"
| "cursor_step cmp ks OpPrev c = (case c of None \<Rightarrow> None | Some i \<Rightarrow> if i = 0 then None else Some (i - 1))"

primrec BlockIter_step :: "(slice \<Rightarrow> slice \<Rightarrow> int) \<Rightarrow> iter_op \<Rightarrow> BlockIter \<Rightarrow> BlockIter option" where
  "BlockIter_step cmp OpSeekToFirst it = Some (BlockIter_SeekToFirst it)"
| "BlockIter_step cmp OpSeekToLast it = Some (BlockIter_SeekToLast it)"
| "BlockIter_step cmp (OpSeek target) it = Some (BlockIter_Seek cmp target it)"
| "BlockIter_step cmp (OpSeekForPrev target) it = BlockIter_SeekForPrev cmp target it"
| "BlockIter_step cmp OpNext it = Some (if BlockIter_Valid it then BlockIter_Next it else it)"
| "BlockIter_step cmp OpPrev it = Some (if BlockIter_Valid it then BlockIter_Prev it else it)"

definition cursor_rel :: "bentry list \<Rightarrow> nat list \<Rightarrow> nat option \<Rightarrow> BlockIter \<Rightarrow> bool" where
  "cursor_rel ts rs c it \<longleftrightarrow>
     cache_ok ts it \<and> bi_status it = Status_OK \<and>
     (case c of None \<Rightarrow> past_end ts rs it | Some i \<Rightarrow> at ts rs i it)"

lemma find_first:
  assumes "m < n" "P m" "\<And>l. l < m \<Longrightarrow> \<not> P l"
  shows "find P [0..<n] = Some m"
  unfolding find_Some_iff using assms by (intro exI [of _ m]) auto

lemma find_last:
  assumes "m < n" "P m" "\<And>l. m < l \<Longrightarrow> l < n \<Longrightarrow> \<not> P l"
  shows "find P (rev [0..<n]) = Some m"
  unfolding find_Some_iff using assms
  by (intro exI [of _ "n - Suc m"]) (auto simp: rev_nth)

lemma find_none: "\<forall>l < n. \<not> P l \<Longrightarrow> find P [0..<n] = None" "\<forall>l < n. \<not> P l \<Longrightarrow> find P (rev [0..<n]) = None"
  by (auto simp: find_None_iff)

lemma frame_cursor: "frame it it' \<Longrightarrow> cache_ok ts it \<Longrightarrow> bi_status it = Status_OK \<Longrightarrow> cache_ok ts it' \<and> bi_status it' = Status_OK"
  by (simp add: frame_def cache_ok_def)

lemma cursor_rel_on_block: "cursor_rel ts rs c it \<Longrightarrow> on_block ts rs it"
  by (auto simp: cursor_rel_def at_def past_end_def split: option.splits)

lemma cursor_rel_valid: "fits ts rs \<Longrightarrow> cursor_rel ts rs c it \<Longrightarrow> BlockIter_Valid it \<longleftrightarrow> c \<noteq> None"
  using at_valid(1) past_end_invalid by (auto simp: cursor_rel_def split: option.splits)

lemma search_result_cases:
  assumes "search_result cmp target ts rs 0 it"
  obtains m where "at ts rs m it" "0 \<le> cmp (ekey ts m) target" "\<forall>l < m. cmp (ekey ts l) target < 0"
    | "past_end ts rs it" "\<forall>l < length ts. cmp (ekey ts l) target < 0"
proof -
  have "(\<exists>m. at ts rs m it \<and> 0 \<le> cmp (ekey ts m) target \<and> (\<forall>l < m. cmp (ekey ts l) target < 0)) \<or>
      past_end ts rs it \<and> (\<forall>l < length ts. cmp (ekey ts l) target < 0)"
    using assms unfolding search_result_def by simp
  then show ?thesis using that by blast
qed

lemma prev_while_spec:
  assumes "layout ts rs" "fits ts rs" "at ts rs i it" "cache_ok ts it" "bi_status it = Status_OK"
  shows "\<exists>it'. prev_while cmp target it = Some it' \<and>
    cursor_rel ts rs (find (\<lambda>i. cmp (ekey ts i) target \<le> 0) (rev [0..<Suc i])) it'"
  using assms(3-5)
proof (induction i arbitrary: it)
  case 0
  have key: "GetInternalKey (bi_key it) = ekey ts 0" using 0 by (simp add: at_def GetInternalKey_def)
  note v = at_valid(1) [OF assms(2) 0(1)]
  show ?case
  proof (cases "cmp (ekey ts 0) target > 0")
    case True
    note p = Prev_spec [OF assms(1,2) 0(1,2)]
    then have "prev_while cmp target (BlockIter_Prev it) = Some (BlockIter_Prev it)"
      using past_end_invalid [OF assms(2)] by (subst prev_while.simps) simp
    then show ?thesis
      using True v key p 0(3) by (subst prev_while.simps) (auto simp: cursor_rel_def)
  next
    case False
    then show ?thesis using v key 0 by (subst prev_while.simps) (simp add: cursor_rel_def)
  qed
next
  case (Suc i)
  have key: "GetInternalKey (bi_key it) = ekey ts (Suc i)" using Suc.prems by (simp add: at_def GetInternalKey_def)
  note v = at_valid(1) [OF assms(2) Suc.prems(1)]
  show ?case
  proof (cases "cmp (ekey ts (Suc i)) target > 0")
    case True
    note p = Prev_spec [OF assms(1,2) Suc.prems(1,2)]
    then have "\<exists>it'. prev_while cmp target (BlockIter_Prev it) = Some it' \<and>
        cursor_rel ts rs (find (\<lambda>i. cmp (ekey ts i) target \<le> 0) (rev [0..<Suc i])) it'"
      using Suc.IH Suc.prems(3) by simp
    then show ?thesis using True v key by (subst prev_while.simps) simp
  next
    case False
    then show ?thesis using v key Suc.prems by (subst prev_while.simps) (simp add: cursor_rel_def)
  qed
qed

context comparator
begin

lemma Seek_refines:
  assumes "layout ts rs" "fits ts rs" "keys_sorted Compare ts" "cursor_rel ts rs c it"
  shows "cursor_rel ts rs (cursor_step Compare (map (fst \<circ> snd) ts) (OpSeek target) c) (BlockIter_Seek Compare target it)"
proof -
  have ob: "on_block ts rs it" using assms(4) by (rule cursor_rel_on_block)
  obtain index it' where s: "BinarySeek Compare target 0 (num_restarts it - 1) it = (Some index, it)"
      "it' = seek_linear Compare target (SeekToRestartPoint index it)" "frame it it'"
      "search_result Compare target ts rs 0 it'"
    using seek_search [OF assms(1,2) ob assms(3)] by blast
  have e: "BlockIter_Seek Compare target it = it'"
    using ob s(1,2) by (simp add: BlockIter_Seek_def on_block_def)
  have fr: "cache_ok ts it'" "bi_status it' = Status_OK"
    using frame_cursor [OF s(3)] assms(4) by (auto simp: cursor_rel_def)
  from s(4) show ?thesis
  proof (cases rule: search_result_cases)
    case (1 m)
    then have "m < length ts" by (simp add: at_def)
    moreover from this have "find (\<lambda>i. 0 \<le> Compare (map (fst \<circ> snd) ts ! i) target) [0..<length ts] = Some m"
      using 1 by (intro find_first) auto
    ultimately show ?thesis using 1(1) fr by (simp add: e cursor_rel_def)
  next
    case 2
    then have "find (\<lambda>i. 0 \<le> Compare (map (fst \<circ> snd) ts ! i) target) [0..<length ts] = None"
      by (intro find_none) auto
    then show ?thesis using 2(1) fr by (simp add: e cursor_rel_def)
  qed
qed

end

lemma find_skip: "find P xs = None \<Longrightarrow> find P (xs @ ys) = find P ys"
  by (induction xs) (auto split: if_splits)

context comparator
begin

lemma SeekForPrev_refines:
  assumes "layout ts rs" "fits ts rs" "keys_sorted Compare ts" "cursor_rel ts rs c it"
  shows "\<exists>it'. BlockIter_SeekForPrev Compare target it = Some it' \<and>
    cursor_rel ts rs (cursor_step Compare (map (fst \<circ> snd) ts) (OpSeekForPrev target) c) it'"
proof -
  have ob: "on_block ts rs it" using assms(4) by (rule cursor_rel_on_block)
  obtain index it' where s: "BinarySeek Compare target 0 (num_restarts it - 1) it = (Some index, it)"
      "it' = seek_linear Compare target (SeekToRestartPoint index it)" "frame it it'"
      "search_result Compare target ts rs 0 it'"
    using seek_search [OF assms(1,2) ob assms(3)] by blast
  have e: "BlockIter_SeekForPrev Compare target it =
      (if \<not> BlockIter_Valid it' then Some (BlockIter_SeekToLast it') else prev_while Compare target it')"
    using ob s(1,2) by (simp add: BlockIter_SeekForPrev_def on_block_def seek_below_eq Let_def)
  have fr: "cache_ok ts it'" "bi_status it' = Status_OK"
    using frame_cursor [OF s(3)] assms(4) by (auto simp: cursor_rel_def)
  let ?P = "\<lambda>i. Compare (ekey ts i) target \<le> 0"
  have spec: "cursor_step Compare (map (fst \<circ> snd) ts) (OpSeekForPrev target) c = find ?P (rev [0..<length ts])"
    by (auto intro!: find_cong)
  from s(4) show ?thesis
  proof (cases rule: search_result_cases)
    case (1 m)
    have m: "m < length ts" using 1(1) by (simp add: at_def)
    have above: "\<not> ?P l" if "m < l" "l < length ts" for l
      using keys_sortedD [OF assms(3) that] 1(2) compare_le_less_trans [of target "ekey ts m" "ekey ts l"]
        compare_le_flip [of target "ekey ts m"] compare_flip [of target "ekey ts l"] by simp
    have "[0..<length ts] = [0..<Suc m] @ [Suc m..<length ts]"
      using upt_add_eq_append [of 0 "Suc m" "length ts - Suc m", OF le0] unfolding le_add_diff_inverse [OF Suc_leI [OF m]] .
    then have "rev [0..<length ts] = rev [Suc m..<length ts] @ rev [0..<Suc m]" by (simp del: upt_Suc)
    moreover have "find ?P (rev [Suc m..<length ts]) = None" using above by (auto simp: find_None_iff)
    ultimately have "find ?P (rev [0..<length ts]) = find ?P (rev [0..<Suc m])"
      by (simp add: find_skip del: upt_Suc)
    then show ?thesis
      using prev_while_spec [OF assms(1,2) 1(1) fr, of Compare target] at_valid(1) [OF assms(2) 1(1)]
      unfolding e spec by (simp del: upt_Suc)
  next
    case 2
    note l = SeekToLast_spec [OF assms(1,2), of it']
    have ob': "on_block ts rs it'" using 2(1) by (simp add: past_end_def)
    have inv: "\<not> BlockIter_Valid it'" by (rule past_end_invalid [OF assms(2) 2(1)])
    have "find ?P (rev [0..<length ts]) = (if ts = [] then None else Some (length ts - 1))"
      using 2(2) by (auto intro!: find_last simp: less_imp_le)
    then show ?thesis using l [OF ob'] inv frame_cursor [OF _ fr] unfolding e spec by (cases "ts = []") (simp_all add: cursor_rel_def)
  qed
qed

lemma step_refines:
  assumes "layout ts rs" "fits ts rs" "keys_sorted Compare ts" "cursor_rel ts rs c it"
  shows "\<exists>it'. BlockIter_step Compare op it = Some it' \<and>
    cursor_rel ts rs (cursor_step Compare (map (fst \<circ> snd) ts) op c) it'"
proof -
  have ob: "on_block ts rs it" by (rule cursor_rel_on_block [OF assms(4)])
  have fr: "cache_ok ts it" "bi_status it = Status_OK" using assms(4) by (auto simp: cursor_rel_def)
  note v = cursor_rel_valid [OF assms(2,4)]
  show ?thesis
  proof (cases op)
    case OpSeekToFirst
    then show ?thesis using SeekToFirst_spec [OF assms(1,2) ob] frame_cursor [OF _ fr] by (auto simp: cursor_rel_def)
  next
    case OpSeekToLast
    then show ?thesis using SeekToLast_spec [OF assms(1,2) ob] frame_cursor [OF _ fr] by (auto simp: cursor_rel_def)
  next
    case (OpSeek target)
    then show ?thesis using Seek_refines [OF assms] by simp
  next
    case (OpSeekForPrev target)
    then show ?thesis using SeekForPrev_refines [OF assms] by simp
  next
    case OpNext
    show ?thesis
    proof (cases c)
      case None
      then show ?thesis using OpNext v assms(4) by simp
    next
      case (Some i)
      then have "at ts rs i it" using assms(4) by (simp add: cursor_rel_def)
      then show ?thesis using OpNext Some v Next_spec [OF assms(1,2)] frame_cursor [OF _ fr] by (simp add: cursor_rel_def)
    qed
  next
    case OpPrev
    show ?thesis
    proof (cases c)
      case None
      then show ?thesis using OpPrev v assms(4) by simp
    next
      case (Some i)
      then have "at ts rs i it" using assms(4) by (simp add: cursor_rel_def)
      note p = Prev_spec [OF assms(1,2) this fr(1)]
      show ?thesis using OpPrev Some v p fr by (cases "i = 0") (simp_all add: cursor_rel_def)
    qed
  qed
qed

end

text \<open>A sequence of calls.\<close>

primrec cursor_run :: "(slice \<Rightarrow> slice \<Rightarrow> int) \<Rightarrow> slice list \<Rightarrow> iter_op list \<Rightarrow> nat option \<Rightarrow> nat option" where
  "cursor_run cmp ks [] c = c"
| "cursor_run cmp ks (op # ops) c = cursor_run cmp ks ops (cursor_step cmp ks op c)"

primrec BlockIter_run :: "(slice \<Rightarrow> slice \<Rightarrow> int) \<Rightarrow> iter_op list \<Rightarrow> BlockIter \<Rightarrow> BlockIter option" where
  "BlockIter_run cmp [] it = Some it"
| "BlockIter_run cmp (op # ops) it =
     (case BlockIter_step cmp op it of None \<Rightarrow> None | Some it \<Rightarrow> BlockIter_run cmp ops it)"

context comparator
begin

lemma run_refines:
  assumes "layout ts rs" "fits ts rs" "keys_sorted Compare ts" "cursor_rel ts rs c it"
  shows "\<exists>it'. BlockIter_run Compare ops it = Some it' \<and>
    cursor_rel ts rs (cursor_run Compare (map (fst \<circ> snd) ts) ops c) it'"
  using assms(4)
proof (induction ops arbitrary: c it)
  case (Cons op ops)
  obtain it1 where it1: "BlockIter_step Compare op it = Some it1"
      "cursor_rel ts rs (cursor_step Compare (map (fst \<circ> snd) ts) op c) it1"
    using step_refines [OF assms(1-3) Cons.prems] by blast
  then show ?case using Cons.IH [OF it1(2)] by (simp only: cursor_run.simps BlockIter_run.simps option.case)
qed simp

end

section \<open>The builder writes the format\<close>

definition builder_inv :: "bentry list \<Rightarrow> nat list \<Rightarrow> BlockBuilder \<Rightarrow> bool" where
  "builder_inv ts rs b \<longleftrightarrow>
     1 \<le> block_restart_interval b \<and> layout ts rs \<and> bb_buffer b = entries_bytes ts \<and>
     bb_restarts b = map (\<lambda>r. of_nat (entry_off ts r)) rs \<and>
     bb_counter b = length ts - last rs \<and>
     (use_delta_encoding b \<longrightarrow> bb_last_key b = (if ts = [] then [] else ekey ts (length ts - 1))) \<and>
     bb_estimate b = length (bb_buffer b) + 4 * length rs + 4"

lemma make_inv: "1 \<le> k \<Longrightarrow> builder_inv [] [0] (BlockBuilder_make k d)"
  by (simp add: builder_inv_def BlockBuilder_make_def layout_def)

lemma Reset_inv: "1 \<le> block_restart_interval b \<Longrightarrow> builder_inv [] [0] (BlockBuilder_Reset b)"
  by (simp add: builder_inv_def BlockBuilder_Reset_def layout_def)

lemma entry_off_append: "r \<le> length ts \<Longrightarrow> entry_off (ts @ us) r = entry_off ts r"
  by (simp add: entry_off_def)

lemma longest_common_prefix_takes:
  "take (length (longest_common_prefix a b)) a = longest_common_prefix a b"
  "take (length (longest_common_prefix a b)) b = longest_common_prefix a b"
  by (induction a b rule: longest_common_prefix.induct) auto

lemma layout_append:
  assumes "layout ts rs" "share_ok (ts @ [t]) (length ts)"
  shows "layout (ts @ [t]) rs"
proof -
  have "share_ok (ts @ [t]) i" if "i < length ts" for i
    using that assms(1) by (auto simp: layout_def share_ok_def nth_append)
  then have "\<forall>i < length (ts @ [t]). share_ok (ts @ [t]) i"
    using assms(2) by (auto simp: less_Suc_eq)
  moreover have "\<forall>r \<in> set rs. r = 0 \<or> r < length (ts @ [t]) \<and> eshared (ts @ [t]) r = 0"
    using assms(1) by (auto simp: layout_def nth_append)
  ultimately show ?thesis using assms(1) unfolding layout_def by blast
qed

lemma layout_append_restart:
  assumes "layout ts rs" "last rs < length ts"
  shows "layout (ts @ [(0, k, v)]) (rs @ [length ts])"
proof -
  have "share_ok (ts @ [(0, k, v)]) (length ts)" using assms(2) by (simp add: share_ok_def)
  then have l: "layout (ts @ [(0, k, v)]) rs" by (rule layout_append [OF assms(1)])
  have "r \<le> last rs" if r: "r \<in> set rs" for r
  proof -
    have "sorted rs" using assms(1) by (auto simp: layout_def intro: sorted_wrt_mono_rel [of _ "(<)"])
    moreover obtain j where "j < length rs" "r = rs ! j" using r by (auto simp: in_set_conv_nth)
    moreover have "rs \<noteq> []" using r by auto
    ultimately show ?thesis using sorted_nth_mono [of rs j "length rs - 1"] by (simp add: last_conv_nth)
  qed
  then have "sorted_wrt (<) (rs @ [length ts])" using l assms(2) by (fastforce simp: layout_def sorted_wrt_append)
  moreover have "rs \<noteq> []" "rs ! 0 = 0" using assms(1) by (auto simp: layout_def)
  ultimately show ?thesis using l by (auto simp: layout_def nth_append)
qed

definition shared_with_last :: "slice \<Rightarrow> BlockBuilder \<Rightarrow> nat" where
  "shared_with_last key b =
     (if bb_counter b < block_restart_interval b \<and> use_delta_encoding b
      then length (longest_common_prefix key (bb_last_key b)) else 0)"

lemma Add_eq:
  fixes key val b
  defines "restart \<equiv> block_restart_interval b \<le> bb_counter b"
    and "e \<equiv> entry_bytes (shared_with_last key b, key, val)"
  shows "BlockBuilder_Add key val b =
    b\<lparr>bb_buffer := bb_buffer b @ e,
      bb_restarts := bb_restarts b @ (if restart then [of_nat (length (bb_buffer b))] else []),
      bb_counter := (if restart then 1 else bb_counter b + 1),
      bb_estimate := bb_estimate b + (if restart then 4 else 0) + length e,
      bb_last_key := (if use_delta_encoding b then key else bb_last_key b)\<rparr>"
proof -
  have "shared_with_last key b \<le> length key"
    using longest_common_prefix_takes(1) [of key "bb_last_key b"]
    by (auto simp: shared_with_last_def) (metis length_take min.cobounded1)
  then show ?thesis
    by (auto simp: BlockBuilder_Add_def Let_def shared_with_last_def restart_def e_def entry_bytes_def
        PutVarint32x3 difference_offset_eq)
qed

lemma Add_inv:
  assumes "builder_inv ts rs b"
  shows "\<exists>s rs'. builder_inv (ts @ [(s, key, val)]) rs' (BlockBuilder_Add key val b)"
proof (cases "block_restart_interval b \<le> bb_counter b")
  case True
  have s: "shared_with_last key b = 0" using True by (simp add: shared_with_last_def)
  have rs: "last rs < length ts" "\<forall>r \<in> set rs. r \<le> length ts"
    using True assms by (auto simp: builder_inv_def layout_def)
  then have "layout (ts @ [(0, key, val)]) (rs @ [length ts])"
    using assms by (intro layout_append_restart) (auto simp: builder_inv_def)
  then have "builder_inv (ts @ [(0, key, val)]) (rs @ [length ts]) (BlockBuilder_Add key val b)"
    using assms True rs(2)
    by (simp add: builder_inv_def Add_eq s entry_off_append entry_off_length)
  then show ?thesis by blast
next
  case False
  let ?s = "shared_with_last key b"
  let ?ts = "ts @ [(?s, key, val)]"
  have "share_ok ?ts (length ts)"
  proof -
    have "?s \<le> length key \<and> (ts \<noteq> [] \<longrightarrow> ?s = 0 \<or> ?s \<le> length (ekey ts (length ts - 1)) \<and>
        take ?s key = take ?s (ekey ts (length ts - 1))) \<and> (ts = [] \<longrightarrow> ?s = 0)"
      using assms False longest_common_prefix_takes [of key "bb_last_key b"]
      by (auto simp: shared_with_last_def builder_inv_def) (metis length_take min.cobounded1)+
    then show ?thesis by (cases "ts = []") (auto simp: share_ok_def nth_append)
  qed
  then have "layout ?ts rs" using assms by (intro layout_append) (auto simp: builder_inv_def)
  moreover have le: "\<forall>r \<in> set rs. r \<le> length ts" "rs \<noteq> []"
    using assms by (auto simp: builder_inv_def layout_def)
  moreover have "last rs \<le> length ts" using bspec [OF le(1) last_in_set [OF le(2)]] .
  ultimately have "builder_inv ?ts rs (BlockBuilder_Add key val b)"
    using assms False by (simp add: builder_inv_def Add_eq entry_off_append Suc_diff_le)
  then show ?thesis by blast
qed

definition AddAll :: "(slice \<times> slice) list \<Rightarrow> BlockBuilder \<Rightarrow> BlockBuilder" where
  "AddAll es b = fold (\<lambda>(k, v). BlockBuilder_Add k v) es b"

lemma AddAll_inv:
  "builder_inv ts rs b \<Longrightarrow> \<exists>us rs'. map snd us = es \<and> builder_inv (ts @ us) rs' (AddAll es b)"
proof (induction es arbitrary: ts rs b)
  case Nil
  then show ?case by (auto simp: AddAll_def)
next
  case (Cons e es)
  obtain k v where e: "e = (k, v)" by (cases e)
  obtain s rs1 where "builder_inv (ts @ [(s, k, v)]) rs1 (BlockBuilder_Add k v b)"
    using Add_inv [OF Cons.prems] by blast
  from Cons.IH [OF this] obtain us rs' where "map snd us = es"
      "builder_inv ((ts @ [(s, k, v)]) @ us) rs' (AddAll es (BlockBuilder_Add k v b))"
    by blast
  then have "map snd ((s, k, v) # us) = e # es \<and> builder_inv (ts @ (s, k, v) # us) rs' (AddAll (e # es) b)"
    by (simp add: AddAll_def e)
  then show ?case by (intro exI)
qed

lemma fold_put_restarts: "fold (\<lambda>r buf. PutFixed32 buf r) rs bs = bs @ concat (map EncodeFixed32 rs)"
  by (induction rs arbitrary: bs) (simp_all add: PutFixed32_def)

lemma Finish_bytes:
  assumes "builder_inv ts rs b"
  shows "fst (BlockBuilder_Finish b) = block_bytes ts rs" "length (block_bytes ts rs) = bb_estimate b"
proof -
  show "fst (BlockBuilder_Finish b) = block_bytes ts rs"
    using assms unfolding BlockBuilder_Finish_def Let_def fold_put_restarts
    by (simp add: builder_inv_def PutFixed32_def block_bytes_def restart_array_def comp_def)
  show "length (block_bytes ts rs) = bb_estimate b" using assms by (simp add: builder_inv_def block_bytes_def)
qed

lemma NewIterator_cursor:
  assumes "layout ts rs" "fits ts rs"
  shows "cursor_rel ts rs None (Block_NewIterator True (Block_make (block_bytes ts rs) kDisableGlobalSequenceNumber))"
proof -
  let ?d = "block_bytes ts rs" and ?E = "length (entries_bytes ts)"
  have len: "length ?d = ?E + 4 * length rs + 4" by (simp add: block_bytes_def)
  have small: "?E + 4 * length rs + 4 < 2 ^ 32" using assms(2) by (simp add: fits_def len)
  have rs: "0 < length rs" "length rs < 2 ^ 32" using assms(1) small by (auto simp: layout_def)
  have num: "NumRestarts ?d (length ?d) = of_nat (length rs)"
    using DecodeFixed32_Encode [of "of_nat (length rs)" "[]"]
    by (simp add: NumRestarts_def len) (simp add: block_bytes_def)
  have u: "unat (of_nat (length rs) :: u32) = length rs" using rs by (simp add: u32_of_nat)
  define off where "off = (ucast ((ucast (of_nat (length ?d) :: u32) :: u64) - ucast (1 + NumRestarts ?d (length ?d)) * 4) :: u32)"
  have ucast_of_nat: "(ucast (of_nat n :: u32) :: u64) = of_nat n" if "n < 2 ^ 32" for n
    using that by (simp add: word_unat_eq_iff unat_ucast_up u32_of_nat) (simp add: unat_of_nat)
  have "off = ucast ((of_nat (?E + 4 * (1 + length rs)) :: u64) - of_nat (1 + length rs) * 4)"
    using ucast_of_nat [of "length ?d"] ucast_of_nat [of "1 + length rs"] small unfolding off_def num
    by (simp add: len)
  then have off: "off = of_nat ?E"
    using small by (simp add: word_unat_eq_iff unsigned_ucast_eq unat_of_nat take_bit_eq_mod)
  have unoff: "unat off = ?E" using off small by (simp add: u32_of_nat)
  have blk: "Block_make ?d kDisableGlobalSequenceNumber = \<lparr>blk_data = ?d, blk_size = length ?d, restart_offset = off,
      blk_global_seqno = kDisableGlobalSequenceNumber, blk_prefix_index = None\<rparr>"
    unfolding Block_make_def Let_def off_def [symmetric] using unoff len by simp
  have "(of_nat (length rs) :: u32) \<noteq> 0" using u rs(1) by (metis less_numeral_extra(3) unat_0)
  moreover have "\<not> length ?d < 2 * 4" using len rs(1) by (cases rs) simp_all
  ultimately have it: "Block_NewIterator True (Block_make ?d kDisableGlobalSequenceNumber)
      = BlockIter_Initialize ?d off (of_nat (length rs)) None kDisableGlobalSequenceNumber BlockIter_init"
    unfolding Block_NewIterator_def blk Block.simps Let_def by (simp add: num)
  show ?thesis
    unfolding it using u unoff off IterKey_init_inv
    by (simp add: cursor_rel_def cache_ok_def past_end_def on_block_def BlockIter_Initialize_def BlockIter_init_def)
qed

definition BuildBlock :: "nat \<Rightarrow> bool \<Rightarrow> (slice \<times> slice) list \<Rightarrow> slice" where
  "BuildBlock interval delta es = fst (BlockBuilder_Finish (AddAll es (BlockBuilder_make interval delta)))"

lemma BuildBlock_layout:
  assumes "1 \<le> interval"
  obtains ts rs where "map snd ts = es" "layout ts rs" "BuildBlock interval delta es = block_bytes ts rs"
proof -
  obtain ts rs where "map snd ts = es" "builder_inv ts rs (AddAll es (BlockBuilder_make interval delta))"
    using AddAll_inv [OF make_inv [OF assms], of es delta] by auto
  moreover from this have "layout ts rs" by (simp add: builder_inv_def)
  ultimately show ?thesis using that Finish_bytes(1) by (simp add: BuildBlock_def)
qed

lemma EncodeVarint64_bound: "unat v < 2 ^ (7 * length (EncodeVarint64 v))"
proof (induction v rule: EncodeVarint64.induct)
  case (1 v)
  show ?case
  proof (cases "128 \<le> v")
    case True
    then have "unat v div 2 ^ 7 < 2 ^ (7 * length (EncodeVarint64 (drop_bit 7 v)))"
      using 1 by (simp add: unat_drop_bit)
    then have "unat v < 2 ^ 7 * 2 ^ (7 * length (EncodeVarint64 (drop_bit 7 v)))"
      by (simp add: div_less_iff_less_mult mult.commute)
    then show ?thesis using True by (simp add: EncodeVarint64.simps [of v] power_add)
  next
    case False
    then show ?thesis by (simp add: EncodeVarint64.simps [of v] word_le_nat_alt)
  qed
qed

lemma VarintLength_mono: "unat v \<le> unat w \<Longrightarrow> VarintLength v \<le> VarintLength w"
  using length_EncodeVarint64_le [of v "length (EncodeVarint64 w)"] EncodeVarint64_bound [of w]
  by (simp add: length_EncodeVarint64) (metis EncodeVarint64_nonempty length_EncodeVarint64 length_greater_0_conv)

lemma length_Encode_of_nat:
  assumes "n < 2 ^ 32"
  shows "length (EncodeVarint32 (of_nat n)) = VarintLength (of_nat n)"
proof -
  have "(ucast (of_nat n :: u32) :: u64) = of_nat n"
    using assms by (simp add: word_unat_eq_iff unat_ucast_up u32_of_nat) (simp add: unat_of_nat)
  then show ?thesis by (simp add: length_EncodeVarint32)
qed



section \<open>Properties\<close>

text \<open>C26: whatever sequence of calls is made on the iterator over a block the builder wrote from
  entries with strictly increasing keys, it terminates without error and is at the entry the cursor of the
  specification is at: \<open>Seek\<close> at the first key not below the target, \<open>SeekForPrev\<close> at the last one not
  above it, \<open>Next\<close> and \<open>Prev\<close> one entry on and back, with the key and value that were added.\<close>

theorem block_iterator_refines_cursor:
  assumes "comparator cmp" "1 \<le> interval" "sorted_wrt (\<lambda>a b. cmp (fst a) (fst b) < 0) es"
    "length (BuildBlock interval delta es) < 2 ^ 32"
  shows "\<exists>it. BlockIter_run cmp ops (Block_NewIterator True
        (Block_make (BuildBlock interval delta es) kDisableGlobalSequenceNumber)) = Some it \<and>
      bi_status it = Status_OK \<and>
      (case cursor_run cmp (map fst es) ops None of
         None \<Rightarrow> \<not> BlockIter_Valid it
       | Some i \<Rightarrow> BlockIter_Valid it \<and> i < length es \<and> BlockIter_key it = fst (es ! i) \<and> BlockIter_value it = snd (es ! i))"
proof -
  obtain ts rs where ts: "map snd ts = es" "layout ts rs" "BuildBlock interval delta es = block_bytes ts rs"
    using BuildBlock_layout [OF assms(2)] by metis
  have fit: "fits ts rs" using assms(4) by (simp add: fits_def ts(3))
  have ks: "map (fst \<circ> snd) ts = map fst es" using ts(1) by auto
  have sorted: "keys_sorted cmp ts"
    using assms(3) unfolding ts(1) [symmetric] by (simp add: keys_sorted_def sorted_wrt_map)
  obtain it where it: "BlockIter_run cmp ops (Block_NewIterator True
        (Block_make (block_bytes ts rs) kDisableGlobalSequenceNumber)) = Some it"
      "cursor_rel ts rs (cursor_run cmp (map fst es) ops None) it"
    using comparator.run_refines [OF assms(1) ts(2) fit sorted NewIterator_cursor [OF ts(2) fit]] unfolding ks by blast
  have "bi_status it = Status_OK" using it(2) by (simp add: cursor_rel_def)
  moreover have "case cursor_run cmp (map fst es) ops None of None \<Rightarrow> \<not> BlockIter_Valid it
       | Some i \<Rightarrow> BlockIter_Valid it \<and> i < length es \<and> BlockIter_key it = fst (es ! i) \<and> BlockIter_value it = snd (es ! i)"
  proof (cases "cursor_run cmp (map fst es) ops None")
    case None
    then show ?thesis using it(2) cursor_rel_valid [OF fit it(2)] by simp
  next
    case (Some i)
    then have a: "at ts rs i it" using it(2) by (simp add: cursor_rel_def)
    then have "i < length ts" by (simp add: at_def)
    then show ?thesis using Some at_valid [OF fit a] ts(1) by auto
  qed
  ultimately show ?thesis using it(1) ts(3) by auto
qed

text \<open>The hypotheses hold of a block of three entries, two of them with a common prefix.\<close>

theorem block_iterator_refines_cursor_witness:
  "\<exists>it. BlockIter_run Bytewise_Compare [OpSeek [97, 99], OpPrev] (Block_NewIterator True
      (Block_make (BuildBlock 2 True [([97], [1]), ([97, 98], [2]), ([98], [3])]) kDisableGlobalSequenceNumber)) = Some it \<and>
    BlockIter_key it = [97, 98] \<and> BlockIter_value it = [2]"
proof -
  have len: "length (BuildBlock 2 True [([97], [1]), ([97, 98], [2]), ([98], [3])]) < 2 ^ 32"
    by (simp add: BuildBlock_def AddAll_def Add_eq BlockBuilder_make_def BlockBuilder_Finish_def shared_with_last_def
        entry_bytes_def PutVarint32x3 EncodeVarint32_def PutFixed32_def Let_def)
  have "cursor_run Bytewise_Compare [[97], [97, 98], [98]] [OpSeek [97, 99], OpPrev] None = Some 1"
    by code_simp
  moreover have "sorted_wrt (\<lambda>a b. Bytewise_Compare (fst a) (fst b) < 0) [([97], [1]), ([97, 98], [2 :: byte]), ([98], [3 :: byte])]"
    by code_simp
  ultimately show ?thesis
    using block_iterator_refines_cursor [OF bytewise.comparator_axioms _ _ len, of "[OpSeek [97, 99], OpPrev]"] by auto
qed

text \<open>C27: the size the builder reports is the size of the finished block, and the estimate for one more
  entry is never below the size after adding it, for keys below 256 MB.\<close>

theorem block_size_estimate:
  fixes es delta
  assumes "1 \<le> interval" "length key < 2 ^ 28" "length val < 2 ^ 32"
  defines "b \<equiv> AddAll es (BlockBuilder_make interval delta)"
  shows "length (fst (BlockBuilder_Finish b)) = bb_estimate b \<and>
    bb_estimate (BlockBuilder_Add key val b) \<le> EstimateSizeAfterKV key val b"
proof
  obtain ts rs where "builder_inv ts rs b"
    using AddAll_inv [OF make_inv [OF assms(1)], of es delta] unfolding b_def by auto
  then show "length (fst (BlockBuilder_Finish b)) = bb_estimate b" using Finish_bytes by simp
  let ?s = "shared_with_last key b" and ?r = "if block_restart_interval b \<le> bb_counter b then 4 else 0"
  have s: "?s \<le> length key"
    using longest_common_prefix_takes(1) [of key "bb_last_key b"]
    by (auto simp: shared_with_last_def) (metis length_take min.cobounded1)
  define m where "m = length key - ?s"
  have "length (entry_bytes (?s, key, val)) = VarintLength (of_nat ?s) + VarintLength (of_nat m)
      + VarintLength (of_nat (length val)) + m + length val"
    using s assms(2,3) unfolding entry_bytes_def prod.case m_def [symmetric] PutVarint32x3
    by (simp add: length_Encode_of_nat m_def [symmetric])
      (simp add: length_Encode_of_nat m_def del: of_nat_diff)
  moreover have "VarintLength (of_nat ?s) \<le> 4"
    using length_EncodeVarint64_le [of "of_nat ?s" 4] s assms(2) by (simp add: length_EncodeVarint64 unat_of_nat)
  moreover have "VarintLength (of_nat m) \<le> VarintLength (of_nat (length key))"
    using assms(2) by (intro VarintLength_mono) (simp add: unat_of_nat m_def del: of_nat_diff)
  moreover have "m \<le> length key" by (simp add: m_def)
  ultimately have "length (entry_bytes (?s, key, val)) \<le> length key + length val + 4 + VarintLength (of_nat (length key))
      + VarintLength (of_nat (length val))"
    by linarith
  then show "bb_estimate (BlockBuilder_Add key val b) \<le> EstimateSizeAfterKV key val b"
    by (simp add: Add_eq EstimateSizeAfterKV_def Let_def)
qed

theorem block_size_estimate_witness:
  "bb_estimate (BlockBuilder_Add [98] [2] (AddAll [([97], [1])] (BlockBuilder_make 16 True)))
   \<le> EstimateSizeAfterKV [98] [2] (AddAll [([97], [1])] (BlockBuilder_make 16 True))"
  using block_size_estimate [of 16 "[98]" "[2]" "[([97], [1])]" True] by simp

text \<open>C28: \<open>DecodeEntry\<close> adds the two lengths in 32 bits: an entry whose key and value lengths
  sum to \<open>2 ^ 32\<close> is accepted whatever is left of the block, and its key extends past the limit.\<close>

theorem decode_entry_length_wraps:
  assumes "0 < n"
  shows "DecodeEntry (PutVarint32Varint32Varint32 [] s n (- n) @ rest) = Some (s, n, - n, rest) \<and>
    unat n + unat (- n) = 2 ^ 32"
proof
  have "3 \<le> length (PutVarint32Varint32Varint32 [] s n (- n) @ rest)"
    using EncodeVarint32_pos [of s] EncodeVarint32_pos [of n] EncodeVarint32_pos [of "- n"]
    by (simp add: PutVarint32x3)
  then show "DecodeEntry (PutVarint32Varint32Varint32 [] s n (- n) @ rest) = Some (s, n, - n, rest)"
    by (simp add: DecodeEntry_eq DecodeEntry_slow_def PutVarint32x3 GetVarint32Ptr_Encode)
  show "unat n + unat (- n) = 2 ^ 32"
  proof -
    have "(unat n + unat (- n)) mod 2 ^ 32 = 0" using unat_add_mod [of n "- n"] by simp
    moreover have "0 < unat n" using assms by (simp add: word_less_nat_alt)
    moreover have "unat n + unat (- n) < 2 * 2 ^ 32" using unat_lt [of n] unat_lt [of "- n"] by simp
    ultimately show ?thesis by (auto simp: mod_eq_0_iff_dvd dvd_def)
  qed
qed

text \<open>The hypothesis holds of a length of \<open>2 ^ 31\<close>: the entry is accepted with nothing after it.\<close>

theorem decode_entry_length_wraps_witness:
  "DecodeEntry (PutVarint32Varint32Varint32 [] 0 (2 ^ 31) (- (2 ^ 31)) @ []) = Some (0, 2 ^ 31, - (2 ^ 31), [])"
  using decode_entry_length_wraps [of "2 ^ 31" 0 "[]"] by simp

text \<open>C29: the check of \<open>Block::Block\<close> for a restart count the block is too small for misses counts
  from \<open>2 ^ 30\<close> on: a block of eight bytes is accepted with \<open>2 ^ 30\<close> restart points.\<close>

theorem block_restart_count_wraps:
  "let b = Block_make ([0, 0, 0, 0] @ EncodeFixed32 (2 ^ 30)) g in
     blk_size b = 8 \<and> restart_offset b = 4 \<and> num_restarts (Block_NewIterator True b) = 2 ^ 30 \<and>
     blk_size b < unat (restart_offset b) + 4 * num_restarts (Block_NewIterator True b)"
proof -
  let ?c = "[0, 0, 0, 0] @ EncodeFixed32 (2 ^ 30)"
  have num: "NumRestarts ?c 8 = 2 ^ 30"
    using DecodeFixed32_Encode [of "2 ^ 30" "[]"] by (simp add: NumRestarts_def)
  have len: "length ?c = 8" by simp
  have "ucast ((ucast (of_nat 8 :: u32) :: u64) - ucast (1 + (2 ^ 30 :: u32)) * 4) = (4 :: u32)"
    by simp
  then have b: "Block_make ?c g = \<lparr>blk_data = ?c, blk_size = 8, restart_offset = 4, blk_global_seqno = g, blk_prefix_index = None\<rparr>"
    unfolding Block_make_def Let_def len num by simp
  have "(2 ^ 30 :: u32) \<noteq> 0" "unat (2 ^ 30 :: u32) = 2 ^ 30" by simp_all
  then have "num_restarts (Block_NewIterator True (Block_make ?c g)) = 2 ^ 30"
    unfolding b Block_NewIterator_def Block.simps Let_def by (simp add: BlockIter_Initialize_def num [simplified])
  then show ?thesis unfolding Let_def b by simp
qed


end
