(* ===== verification/Heap.thy ===== *)
theory Heap
  imports Prelude "HOL-Library.Multiset"
begin

text \<open>
  \<^verbatim>\<open>class BinaryHeap\<close> of \<^verbatim>\<open>util/heap.h\<close>. The comparison, which orders by less-than while the top is
  the maximum, is an argument of the operations, because the order of iterators changes as they move. The
  cache of the child that was compared last with the root is \<open>None\<close> for \<^verbatim>\<open>port::kMaxSizet\<close>, which no
  size reaches. An operation on an empty heap is \<open>None\<close>, where the code asserts.
\<close>

record 'a BinaryHeap =
  hp_data :: "'a list"
  root_cmp_cache :: "nat option"

definition BinaryHeap_make :: "'a BinaryHeap" where
  "BinaryHeap_make = \<lparr>hp_data = [], root_cmp_cache = None\<rparr>"

definition reset_root_cmp_cache :: "'a BinaryHeap \<Rightarrow> 'a BinaryHeap" where
  "reset_root_cmp_cache h = h\<lparr>root_cmp_cache := None\<rparr>"

definition heap_empty :: "'a BinaryHeap \<Rightarrow> bool" where
  "heap_empty h \<longleftrightarrow> hp_data h = []"

definition heap_top :: "'a BinaryHeap \<Rightarrow> 'a option" where
  "heap_top h = (if heap_empty h then None else Some (hd (hp_data h)))"

definition heap_clear :: "'a BinaryHeap \<Rightarrow> 'a BinaryHeap" where
  "heap_clear h = reset_root_cmp_cache (h\<lparr>hp_data := []\<rparr>)"

definition get_parent :: "nat \<Rightarrow> nat" where
  "get_parent index = (index - 1) div 2"

definition get_left :: "nat \<Rightarrow> nat" where
  "get_left index = 2 * index + 1"

text \<open>The value \<open>v\<close> is held outside the array while the hole it left moves up or down.\<close>

function upheap_loop :: "('a \<Rightarrow> 'a \<Rightarrow> bool) \<Rightarrow> 'a \<Rightarrow> nat \<Rightarrow> 'a list \<Rightarrow> nat \<times> 'a list" where
  "upheap_loop cmp v index data =
     (if index > 0
      then let parent = get_parent index
           in if \<not> cmp (data ! parent) v then (index, data)
              else upheap_loop cmp v parent (data[index := data ! parent])
      else (index, data))"
  by pat_completeness auto
termination by (relation "measure (\<lambda>(cmp, v, index, data). index)") (auto simp: get_parent_def)

definition upheap :: "('a \<Rightarrow> 'a \<Rightarrow> bool) \<Rightarrow> nat \<Rightarrow> 'a BinaryHeap \<Rightarrow> 'a BinaryHeap" where
  "upheap cmp index h =
     (let v = hp_data h ! index; (index, data) = upheap_loop cmp v index (hp_data h)
      in reset_root_cmp_cache (h\<lparr>hp_data := data[index := v]\<rparr>))"

definition pick_child :: "('a \<Rightarrow> 'a \<Rightarrow> bool) \<Rightarrow> nat option \<Rightarrow> nat \<Rightarrow> 'a list \<Rightarrow> nat" where
  "pick_child cmp cache index data =
     (let left = get_left index; right = left + 1;
          picked = (if right < length data \<and> cmp (data ! left) (data ! right) then right else left)
      in if index = 0 then (case cache of None \<Rightarrow> picked | Some c \<Rightarrow> if c < length data then c else picked)
         else picked)"

lemma pick_child_bounds:
  "get_left index < length data \<Longrightarrow> index \<noteq> 0 \<or> cache = None \<Longrightarrow>
   index < pick_child cmp cache index data \<and> pick_child cmp cache index data < length data"
  by (auto simp: pick_child_def get_left_def Let_def)

text \<open>
  A cached child other than the two children of the root is not a value the code can store; the loop
  gives up there, so that it ends for every heap.
\<close>

function downheap_loop :: "('a \<Rightarrow> 'a \<Rightarrow> bool) \<Rightarrow> nat option \<Rightarrow> 'a \<Rightarrow> nat option \<Rightarrow> nat \<Rightarrow> 'a list \<Rightarrow> nat \<times> nat option \<times> 'a list" where
  "downheap_loop cmp cache v picked index data =
     (if get_left index \<ge> length data then (index, picked, data)
      else let p = pick_child cmp cache index data
           in if \<not> cmp v (data ! p) \<or> \<not> (index < p \<and> p < length data) then (index, Some p, data)
              else downheap_loop cmp cache v (Some p) p (data[index := data ! p]))"
  by pat_completeness auto
termination by (relation "measure (\<lambda>(cmp, cache, v, picked, index, data). length data - index)") auto

declare upheap_loop.simps [simp del] downheap_loop.simps [simp del]

definition downheap :: "('a \<Rightarrow> 'a \<Rightarrow> bool) \<Rightarrow> nat \<Rightarrow> 'a BinaryHeap \<Rightarrow> 'a BinaryHeap" where
  "downheap cmp index h =
     (let v = hp_data h ! index; (index, picked, data) = downheap_loop cmp (root_cmp_cache h) v None index (hp_data h);
          h = (if index = 0 then h\<lparr>root_cmp_cache := picked\<rparr> else reset_root_cmp_cache h)
      in h\<lparr>hp_data := data[index := v]\<rparr>)"

definition heap_push :: "('a \<Rightarrow> 'a \<Rightarrow> bool) \<Rightarrow> 'a \<Rightarrow> 'a BinaryHeap \<Rightarrow> 'a BinaryHeap" where
  "heap_push cmp v h = (let h = h\<lparr>hp_data := hp_data h @ [v]\<rparr> in upheap cmp (length (hp_data h) - 1) h)"

definition heap_replace_top :: "('a \<Rightarrow> 'a \<Rightarrow> bool) \<Rightarrow> 'a \<Rightarrow> 'a BinaryHeap \<Rightarrow> 'a BinaryHeap option" where
  "heap_replace_top cmp v h =
     (if heap_empty h then None else Some (downheap cmp 0 (h\<lparr>hp_data := (hp_data h)[0 := v]\<rparr>)))"

definition heap_pop :: "('a \<Rightarrow> 'a \<Rightarrow> bool) \<Rightarrow> 'a BinaryHeap \<Rightarrow> 'a BinaryHeap option" where
  "heap_pop cmp h =
     (if heap_empty h then None
      else let h = h\<lparr>hp_data := butlast ((hp_data h)[0 := last (hp_data h)])\<rparr>
           in Some (if \<not> heap_empty h then downheap cmp 0 h else reset_root_cmp_cache h))"

section \<open>The heap order\<close>

text \<open>What the heap relies on: the comparison is a strict weak order.\<close>

locale heap_order =
  fixes cmp :: "'a \<Rightarrow> 'a \<Rightarrow> bool"
  assumes asym: "cmp a b \<Longrightarrow> \<not> cmp b a"
    and not_trans: "\<not> cmp a b \<Longrightarrow> \<not> cmp b c \<Longrightarrow> \<not> cmp a c"

definition is_heap :: "('a \<Rightarrow> 'a \<Rightarrow> bool) \<Rightarrow> 'a list \<Rightarrow> bool" where
  "is_heap cmp xs \<longleftrightarrow> (\<forall>i. 0 < i \<and> i < length xs \<longrightarrow> \<not> cmp (xs ! get_parent i) (xs ! i))"

definition cache_max :: "('a \<Rightarrow> 'a \<Rightarrow> bool) \<Rightarrow> nat option \<Rightarrow> 'a list \<Rightarrow> bool" where
  "cache_max cmp cache xs \<longleftrightarrow>
     (\<forall>c. cache = Some c \<longrightarrow> c < length xs \<longrightarrow> c \<in> {1, 2} \<and> (\<forall>j \<in> {1, 2}. j < length xs \<longrightarrow> \<not> cmp (xs ! c) (xs ! j)))"

definition heap_ok :: "('a \<Rightarrow> 'a \<Rightarrow> bool) \<Rightarrow> 'a BinaryHeap \<Rightarrow> bool" where
  "heap_ok cmp h \<longleftrightarrow> is_heap cmp (hp_data h) \<and> cache_max cmp (root_cmp_cache h) (hp_data h)"

text \<open>The heap order but for the value at \<open>i\<close>, which may be greater than its parent, or less than its children.\<close>

definition heap_up :: "('a \<Rightarrow> 'a \<Rightarrow> bool) \<Rightarrow> nat \<Rightarrow> 'a list \<Rightarrow> bool" where
  "heap_up cmp i xs \<longleftrightarrow>
     (\<forall>k. 0 < k \<and> k < length xs \<longrightarrow> (k \<noteq> i \<longrightarrow> \<not> cmp (xs ! get_parent k) (xs ! k)) \<and>
       (get_parent k = i \<and> 0 < i \<longrightarrow> \<not> cmp (xs ! get_parent i) (xs ! k)))"

definition heap_down :: "('a \<Rightarrow> 'a \<Rightarrow> bool) \<Rightarrow> nat \<Rightarrow> 'a list \<Rightarrow> bool" where
  "heap_down cmp i xs \<longleftrightarrow>
     (\<forall>k. 0 < k \<and> k < length xs \<longrightarrow> (get_parent k \<noteq> i \<longrightarrow> \<not> cmp (xs ! get_parent k) (xs ! k)) \<and>
       (get_parent k = i \<and> 0 < i \<longrightarrow> \<not> cmp (xs ! get_parent i) (xs ! k)))"

lemma get_parent_less: "0 < i \<Longrightarrow> get_parent i < i"
  by (simp add: get_parent_def)

lemma children: "0 < k \<Longrightarrow> get_parent k = i \<longleftrightarrow> k = get_left i \<or> k = get_left i + 1"
  by (auto simp: get_parent_def get_left_def)

lemma pick_child_hole: "pick_child cmp cache i (data[i := v]) = pick_child cmp cache i data"
  by (cases cache) (simp_all add: pick_child_def get_left_def Let_def)

lemma cache_max_root: "cache_max cmp cache (data[0 := v]) = cache_max cmp cache data"
  by (auto simp: cache_max_def nth_list_update split: if_splits)

lemma cache_max_mono:
  assumes "cache_max cmp cache xs" "length ys \<le> length xs" "\<And>k. 0 < k \<Longrightarrow> k < length ys \<Longrightarrow> ys ! k = xs ! k"
  shows "cache_max cmp cache ys"
proof -
  have nz: "0 < k" if "k \<in> {1, 2 :: nat}" for k using that by auto
  show ?thesis unfolding cache_max_def
  proof (intro allI impI conjI ballI)
    fix c
    assume c: "cache = Some c" "c < length ys"
    then have x: "c \<in> {1, 2}" "\<And>j. j \<in> {1, 2} \<Longrightarrow> j < length xs \<Longrightarrow> \<not> cmp (xs ! c) (xs ! j)"
      using assms(1,2) by (auto simp: cache_max_def)
    show "c \<in> {1, 2}" by (rule x(1))
    fix j :: nat
    assume j: "j \<in> {1, 2}" "j < length ys"
    then show "\<not> cmp (ys ! c) (ys ! j)"
      using x(2) [OF j(1)] assms(2) assms(3) [OF nz [OF x(1)] c(2)] assms(3) [OF nz [OF j(1)] j(2)] by simp
  qed
qed

context heap_order
begin

lemma irrefl [simp]: "\<not> cmp a a"
  using asym by blast

lemma heap_up_step:
  assumes "heap_up cmp i xs" "0 < i" "i < length xs" "cmp (xs ! get_parent i) (xs ! i)"
  shows "heap_up cmp (get_parent i) (xs[i := xs ! get_parent i, get_parent i := xs ! i])"
proof -
  let ?p = "get_parent i"
  let ?ys = "xs[i := xs ! ?p, ?p := xs ! i]"
  have p: "?p < i" using assms(2) by (rule get_parent_less)
  have nv: "\<not> cmp (xs ! i) (xs ! ?p)" using assms(4) by (rule asym)
  have nth: "?ys ! k = (if k = ?p then xs ! i else if k = i then xs ! ?p else xs ! k)" if "k < length xs" for k
    using that p by (simp add: nth_list_update)
  show ?thesis unfolding heap_up_def
  proof (intro allI impI, elim conjE)
    fix k
    assume k: "0 < k" "k < length ?ys"
    have pk: "get_parent k < k" using k(1) by (rule get_parent_less)
    then have lt: "get_parent k < length xs" "k < length xs" using k by auto
    have u: "k \<noteq> i \<Longrightarrow> \<not> cmp (xs ! get_parent k) (xs ! k)" "get_parent k = i \<Longrightarrow> \<not> cmp (xs ! ?p) (xs ! k)"
      using assms(1,2) k by (auto simp: heap_up_def)
    have "\<not> cmp (?ys ! get_parent k) (?ys ! k)" if "k \<noteq> ?p"
    proof (cases "k = i")
      case True
      then show ?thesis using nv p nth [OF lt(1)] nth [OF lt(2)] by simp
    next
      case False
      then show ?thesis using that u nv not_trans [of "xs ! i" "xs ! ?p" "xs ! k"] nth [OF lt(1)] nth [OF lt(2)] by auto
    qed
    moreover have "\<not> cmp (?ys ! get_parent ?p) (?ys ! k)" if "get_parent k = ?p" "0 < ?p"
    proof -
      have "get_parent ?p < ?p" using that(2) by (rule get_parent_less)
      then have y: "?ys ! get_parent ?p = xs ! get_parent ?p" "k \<noteq> ?p" using p that(1) pk nth [of "get_parent ?p"] lt by auto
      have pp: "\<not> cmp (xs ! get_parent ?p) (xs ! ?p)" using assms(1,3) that(2) p by (auto simp: heap_up_def)
      show ?thesis
      proof (cases "k = i")
        case True
        then show ?thesis using pp y nth [OF lt(2)] by simp
      next
        case False
        then have "\<not> cmp (xs ! ?p) (xs ! k)" using u(1) that(1) by simp
        then show ?thesis using not_trans [OF pp] y nth [OF lt(2)] False by simp
      qed
    qed
    ultimately show "(k \<noteq> ?p \<longrightarrow> \<not> cmp (?ys ! get_parent k) (?ys ! k)) \<and>
        (get_parent k = ?p \<and> 0 < ?p \<longrightarrow> \<not> cmp (?ys ! get_parent ?p) (?ys ! k))" by blast
  qed
qed

lemma heap_up_done: "heap_up cmp i xs \<Longrightarrow> i = 0 \<or> \<not> cmp (xs ! get_parent i) (xs ! i) \<Longrightarrow> is_heap cmp xs"
  unfolding heap_up_def is_heap_def by (metis neq0_conv)

lemma upheap_loop_spec:
  assumes "heap_up cmp i (data[i := v])" "i < length data"
  shows "case upheap_loop cmp v i data of (j, data') \<Rightarrow>
    is_heap cmp (data'[j := v]) \<and> mset (data'[j := v]) = mset (data[i := v])"
  using assms
proof (induction i arbitrary: data rule: less_induct)
  case (less i)
  let ?xs = "data[i := v]" and ?p = "get_parent i"
  show ?case
  proof (cases "0 < i \<and> cmp (data ! ?p) v")
    case False
    then have "upheap_loop cmp v i data = (i, data)" by (subst upheap_loop.simps) (auto simp: Let_def)
    moreover have "is_heap cmp ?xs"
      using False less.prems get_parent_less [of i] by (intro heap_up_done [OF less.prems(1)]) (auto simp: nth_list_update)
    ultimately show ?thesis by simp
  next
    case True
    then have p: "?p < i" using get_parent_less by blast
    have x: "?xs ! ?p = data ! ?p" "?xs ! i = v" using p less.prems(2) by auto
    let ?data = "data[i := data ! ?p]"
    have eq: "?data[?p := v] = ?xs[i := ?xs ! ?p, ?p := ?xs ! i]" using x by simp
    have "heap_up cmp ?p (?data[?p := v])"
      unfolding eq using True x less.prems by (intro heap_up_step) auto
    moreover have "mset (?data[?p := v]) = mset ?xs"
      unfolding eq using less.prems(2) p by (intro mset_swap) auto
    moreover have "upheap_loop cmp v i data = upheap_loop cmp v ?p ?data" using True by (subst upheap_loop.simps) (simp add: Let_def)
    ultimately show ?thesis using less.IH [OF p, of ?data] p less.prems(2) by simp
  qed
qed

lemma push_ok:
  assumes "heap_ok cmp h"
  shows "heap_ok cmp (heap_push cmp v h)" "mset (hp_data (heap_push cmp v h)) = add_mset v (mset (hp_data h))"
proof -
  let ?xs = "hp_data h @ [v]" and ?n = "length (hp_data h)"
  have "heap_up cmp ?n ?xs"
    unfolding heap_up_def
  proof (intro allI impI, elim conjE)
    fix k
    assume k: "0 < k" "k < length ?xs"
    then have "get_parent k < k" using get_parent_less by blast
    then show "(k \<noteq> ?n \<longrightarrow> \<not> cmp (?xs ! get_parent k) (?xs ! k)) \<and>
        (get_parent k = ?n \<and> 0 < ?n \<longrightarrow> \<not> cmp (?xs ! get_parent ?n) (?xs ! k))"
      using assms k by (auto simp: heap_ok_def is_heap_def nth_append)
  qed
  then have "heap_up cmp ?n (?xs[?n := v])" by simp
  from upheap_loop_spec [OF this] obtain j data' where j: "upheap_loop cmp v ?n ?xs = (j, data')" "is_heap cmp (data'[j := v])"
      "mset (data'[j := v]) = mset ?xs"
    by auto
  then have eq: "heap_push cmp v h = h\<lparr>hp_data := data'[j := v], root_cmp_cache := None\<rparr>"
    by (simp add: heap_push_def upheap_def reset_root_cmp_cache_def Let_def)
  show "heap_ok cmp (heap_push cmp v h)" using j(2) by (simp add: eq heap_ok_def cache_max_def)
  show "mset (hp_data (heap_push cmp v h)) = add_mset v (mset (hp_data h))" using j(3) by (simp add: eq)
qed

lemma heap_down_step:
  assumes "heap_down cmp i xs" "0 < p" "p < length xs" "get_parent p = i"
    "\<And>k. 0 < k \<Longrightarrow> k < length xs \<Longrightarrow> get_parent k = i \<Longrightarrow> \<not> cmp (xs ! p) (xs ! k)" "cmp (xs ! i) (xs ! p)"
  shows "heap_down cmp p (xs[i := xs ! p, p := xs ! i])"
proof -
  let ?ys = "xs[i := xs ! p, p := xs ! i]"
  have p: "i < p" using assms(2,4) get_parent_less by blast
  have nv: "\<not> cmp (xs ! p) (xs ! i)" using assms(6) by (rule asym)
  have nth: "?ys ! k = (if k = p then xs ! i else if k = i then xs ! p else xs ! k)" if "k < length xs" for k
    using that p assms(3) by (simp add: nth_list_update)
  show ?thesis unfolding heap_down_def
  proof (intro allI impI, elim conjE)
    fix k
    assume k: "0 < k" "k < length ?ys"
    have pk: "get_parent k < k" using k(1) by (rule get_parent_less)
    then have lt: "get_parent k < length xs" "k < length xs" using k by auto
    have d: "get_parent k \<noteq> i \<Longrightarrow> \<not> cmp (xs ! get_parent k) (xs ! k)"
      using assms(1) k by (auto simp: heap_down_def)
    have "\<not> cmp (?ys ! get_parent k) (?ys ! k)" if "get_parent k \<noteq> p"
    proof (cases "k = i")
      case True
      have "0 < i \<longrightarrow> \<not> cmp (xs ! get_parent i) (xs ! p)" using assms(1-4) by (auto simp: heap_down_def)
      then show ?thesis using True k p that pk nth [OF lt(1)] nth [OF lt(2)] by auto
    next
      case False
      then show ?thesis using that d nv assms(5) [OF k(1) lt(2)] nth [OF lt(1)] nth [OF lt(2)] assms(4) by auto
    qed
    moreover have "\<not> cmp (?ys ! get_parent p) (?ys ! k)" if "get_parent k = p"
    proof -
      have "k \<noteq> i" "k \<noteq> p" using that pk p by auto
      then show ?thesis using d that p assms(4) nth [OF lt(2)] nth [of i] assms(3) by auto
    qed
    ultimately show "(get_parent k \<noteq> p \<longrightarrow> \<not> cmp (?ys ! get_parent k) (?ys ! k)) \<and>
        (get_parent k = p \<and> 0 < p \<longrightarrow> \<not> cmp (?ys ! get_parent p) (?ys ! k))" by blast
  qed
qed

lemma heap_down_done:
  assumes "heap_down cmp i xs" "\<And>k. 0 < k \<Longrightarrow> k < length xs \<Longrightarrow> get_parent k = i \<Longrightarrow> \<not> cmp (xs ! i) (xs ! k)"
  shows "is_heap cmp xs"
  unfolding is_heap_def
proof (intro allI impI, elim conjE)
  fix k
  assume "0 < k" "k < length xs"
  then show "\<not> cmp (xs ! get_parent k) (xs ! k)"
    using assms by (cases "get_parent k = i") (auto simp: heap_down_def)
qed

text \<open>The child that is picked, cached or not, is a greatest one.\<close>

lemma pick_child_max:
  assumes "get_left i < length xs" "i = 0 \<longrightarrow> cache_max cmp cache xs"
  defines "p \<equiv> pick_child cmp cache i xs"
  shows "0 < p" "p < length xs" "get_parent p = i" "\<And>k. 0 < k \<Longrightarrow> k < length xs \<Longrightarrow> get_parent k = i \<Longrightarrow> \<not> cmp (xs ! p) (xs ! k)"
proof -
  define q where "q = (if get_left i + 1 < length xs \<and> cmp (xs ! get_left i) (xs ! (get_left i + 1)) then get_left i + 1 else get_left i)"
  have q: "0 < q" "q < length xs" "get_parent q = i" using assms(1) by (auto simp: q_def get_left_def get_parent_def)
  have qmax: "\<not> cmp (xs ! q) (xs ! k)" if "0 < k" "k < length xs" "get_parent k = i" for k
    using that asym children [of k i] by (auto simp: q_def)
  have "0 < p \<and> p < length xs \<and> get_parent p = i \<and> (\<forall>k. 0 < k \<and> k < length xs \<and> get_parent k = i \<longrightarrow> \<not> cmp (xs ! p) (xs ! k))"
  proof (cases "i = 0 \<and> (\<exists>c. cache = Some c \<and> c < length xs)")
    case True
    then obtain c where c: "cache = Some c" "c < length xs" and i: "i = 0" by auto
    then have "p = c" by (simp add: p_def pick_child_def Let_def)
    moreover have "c \<in> {1, 2}" "\<forall>j \<in> {1, 2}. j < length xs \<longrightarrow> \<not> cmp (xs ! c) (xs ! j)"
      using assms(2) c i by (auto simp: cache_max_def)
    moreover have "0 < k \<Longrightarrow> get_parent k = 0 \<Longrightarrow> k \<in> {1, 2}" for k using children [of k 0] by (auto simp: get_left_def)
    ultimately show ?thesis using c(2) i by (auto simp: get_parent_def)
  next
    case False
    then have "p = q" unfolding p_def q_def pick_child_def Let_def by (auto split: option.splits)
    then show ?thesis using q qmax by auto
  qed
  then show "0 < p" "p < length xs" "get_parent p = i" "\<And>k. 0 < k \<Longrightarrow> k < length xs \<Longrightarrow> get_parent k = i \<Longrightarrow> \<not> cmp (xs ! p) (xs ! k)"
    by auto
qed

lemma downheap_loop_spec:
  assumes "heap_down cmp i (data[i := v])" "i < length data" "i = 0 \<longrightarrow> cache_max cmp cache data"
  shows "case downheap_loop cmp cache v picked i data of (j, picked', data') \<Rightarrow>
    is_heap cmp (data'[j := v]) \<and> mset (data'[j := v]) = mset (data[i := v]) \<and> i \<le> j \<and>
    (j = 0 \<longrightarrow> data' = data \<and> (picked' = picked \<and> length data \<le> 1 \<or> cache_max cmp picked' data))"
  using assms
proof (induction "length data - i" arbitrary: i data picked rule: less_induct)
  case less
  let ?xs = "data[i := v]" and ?p = "pick_child cmp cache i data"
  show ?case
  proof (cases "get_left i < length data")
    case False
    have "is_heap cmp ?xs"
      using less.prems(1) False children by (intro heap_down_done [of i]) (auto simp: get_left_def)
    moreover have "downheap_loop cmp cache v picked i data = (i, picked, data)"
      using False by (subst downheap_loop.simps) simp
    ultimately show ?thesis using False by (auto simp: get_left_def)
  next
    case True
    have c: "i = 0 \<longrightarrow> cache_max cmp cache ?xs" using less.prems(3) by (auto simp: cache_max_root)
    note m = pick_child_max [of i ?xs cache, unfolded pick_child_hole length_list_update, OF True c]
    have ip: "i < ?p" using get_parent_less [OF m(1)] m(3) by simp
    have x: "?xs ! ?p = data ! ?p" "?xs ! i = v" using ip m(2) by auto
    show ?thesis
    proof (cases "cmp v (data ! ?p)")
      case False
      have "is_heap cmp ?xs"
      proof (rule heap_down_done [OF less.prems(1)])
        fix k
        assume "0 < k" "k < length ?xs" "get_parent k = i"
        then show "\<not> cmp (?xs ! i) (?xs ! k)" using not_trans [of v "data ! ?p"] False m(4) [of k] x by simp
      qed
      moreover have "downheap_loop cmp cache v picked i data = (i, Some ?p, data)"
        using True False by (subst downheap_loop.simps) (simp add: Let_def)
      moreover have "cache_max cmp (Some ?p) data" if "i = 0"
      proof -
        have "?p \<in> {1, 2}" using m(1,3) children [of ?p 0] that by (auto simp: get_left_def)
        moreover have "\<not> cmp (data ! ?p) (data ! j)" if "j \<in> {1, 2}" "j < length data" for j
          using m(4) [of j] that \<open>i = 0\<close> x by (auto simp: get_parent_def)
        ultimately show ?thesis by (auto simp: cache_max_def)
      qed
      ultimately show ?thesis by simp
    next
      case True': True
      let ?data = "data[i := data ! ?p]"
      have eq: "?data[?p := v] = ?xs[i := ?xs ! ?p, ?p := ?xs ! i]" using x by simp
      have "heap_down cmp ?p (?data[?p := v])"
        unfolding eq using less.prems True' m x by (intro heap_down_step) auto
      moreover have "mset (?data[?p := v]) = mset ?xs"
        unfolding eq using less.prems(2) m(2) by (intro mset_swap) auto
      moreover have "downheap_loop cmp cache v picked i data = downheap_loop cmp cache v (Some ?p) ?p ?data"
        using True True' ip m(2) by (subst downheap_loop.simps) (simp add: Let_def)
      moreover have "length ?data - ?p < length data - i" using ip m(2) by simp
      ultimately show ?thesis using less.hyps [of ?data ?p "Some ?p"] ip m(2) by (auto split: prod.splits)
    qed
  qed
qed

lemma downheap_root:
  assumes "heap_down cmp 0 (hp_data h)" "hp_data h \<noteq> []" "cache_max cmp (root_cmp_cache h) (hp_data h)"
  shows "heap_ok cmp (downheap cmp 0 h)" "mset (hp_data (downheap cmp 0 h)) = mset (hp_data h)"
proof -
  let ?v = "hp_data h ! 0"
  have d: "(hp_data h)[0 := ?v] = hp_data h" by simp
  obtain j picked data' where l: "downheap_loop cmp (root_cmp_cache h) ?v None 0 (hp_data h) = (j, picked, data')"
    by (cases "downheap_loop cmp (root_cmp_cache h) ?v None 0 (hp_data h)")
  have s: "is_heap cmp (data'[j := ?v])" "mset (data'[j := ?v]) = mset (hp_data h)"
      "j = 0 \<Longrightarrow> data' = hp_data h \<and> (picked = None \<or> cache_max cmp picked (hp_data h))"
    using downheap_loop_spec [of 0 "hp_data h" ?v "root_cmp_cache h" None] assms l unfolding d by auto
  have eq: "downheap cmp 0 h = (if j = 0 then h\<lparr>root_cmp_cache := picked\<rparr> else h\<lparr>root_cmp_cache := None\<rparr>)\<lparr>hp_data := data'[j := ?v]\<rparr>"
    using l by (simp add: downheap_def reset_root_cmp_cache_def)
  show "mset (hp_data (downheap cmp 0 h)) = mset (hp_data h)" using s(2) by (simp add: eq)
  have "cache_max cmp (root_cmp_cache (downheap cmp 0 h)) (data'[j := ?v])"
    using s(3) by (auto simp: eq cache_max_def)
  then show "heap_ok cmp (downheap cmp 0 h)" using s(1) by (simp add: eq heap_ok_def)
qed

lemma heap_down_root: "(\<And>k. 0 < k \<Longrightarrow> k < length xs \<Longrightarrow> get_parent k \<noteq> 0 \<Longrightarrow> \<not> cmp (xs ! get_parent k) (xs ! k)) \<Longrightarrow> heap_down cmp 0 xs"
  by (auto simp: heap_down_def)

text \<open>The value at the root may have changed, as long as the order below it is that of a heap.\<close>

lemma replace_top_ok:
  assumes "hp_data h = x # xs" "\<And>k. 0 < k \<Longrightarrow> k < length (hp_data h) \<Longrightarrow> get_parent k \<noteq> 0 \<Longrightarrow> \<not> cmp (hp_data h ! get_parent k) (hp_data h ! k)"
    "cache_max cmp (root_cmp_cache h) (hp_data h)"
  shows "\<exists>h'. heap_replace_top cmp v h = Some h' \<and> heap_ok cmp h' \<and> mset (hp_data h') = add_mset v (mset xs)"
proof -
  let ?h = "h\<lparr>hp_data := v # xs\<rparr>"
  have nth: "(v # xs) ! k = hp_data h ! k" if "0 < k" for k using that assms(1) by (cases k) auto
  have "heap_down cmp 0 (hp_data ?h)"
    using assms(1,2) nth by (intro heap_down_root) simp
  moreover have "cache_max cmp (root_cmp_cache ?h) (hp_data ?h)"
    using assms(1,3) cache_max_root [of cmp "root_cmp_cache h" "hp_data h" v] by simp
  ultimately show ?thesis
    using downheap_root [of ?h] assms(1) by (simp add: heap_replace_top_def heap_empty_def)
qed

lemma pop_ok:
  assumes "hp_data h = x # xs" "\<And>k. 0 < k \<Longrightarrow> k < length (hp_data h) \<Longrightarrow> get_parent k \<noteq> 0 \<Longrightarrow> \<not> cmp (hp_data h ! get_parent k) (hp_data h ! k)"
    "cache_max cmp (root_cmp_cache h) (hp_data h)"
  shows "\<exists>h'. heap_pop cmp h = Some h' \<and> heap_ok cmp h' \<and> mset (hp_data h') = mset xs"
proof (cases "xs = []")
  case True
  then show ?thesis
    using assms(1) by (simp add: heap_pop_def heap_empty_def Let_def reset_root_cmp_cache_def heap_ok_def is_heap_def cache_max_def)
next
  case False
  let ?ys = "last xs # butlast xs"
  let ?h = "h\<lparr>hp_data := ?ys\<rparr>"
  have ys: "butlast ((hp_data h)[0 := last (hp_data h)]) = ?ys" using assms(1) False by simp
  have nth: "?ys ! k = hp_data h ! k" if "0 < k" "k < length ?ys" for k
    using that assms(1) by (cases k) (auto simp: nth_butlast)
  have len: "length ?ys = length xs" "length (hp_data h) = Suc (length xs)" using False assms(1) by auto
  have "\<not> cmp (?ys ! get_parent k) (?ys ! k)" if "0 < k" "k < length ?ys" "get_parent k \<noteq> 0" for k
    using assms(2) [of k] nth [of k] nth [of "get_parent k"] that len get_parent_less [of k] by simp
  then have "heap_down cmp 0 (hp_data ?h)" by (intro heap_down_root) simp
  moreover have "cache_max cmp (root_cmp_cache ?h) (hp_data ?h)"
    using cache_max_mono [OF assms(3), of ?ys] nth len by simp
  moreover have "mset ?ys = mset xs"
    using arg_cong [OF append_butlast_last_id [OF False], of mset] by simp
  ultimately show ?thesis
    using downheap_root [of ?h] assms(1) False ys by (simp add: heap_pop_def heap_empty_def Let_def)
qed

lemma top_max:
  assumes "is_heap cmp xs" "i < length xs"
  shows "\<not> cmp (xs ! 0) (xs ! i)"
  using assms(2)
proof (induction i rule: less_induct)
  case (less i)
  show ?case
  proof (cases "i = 0")
    case False
    then have p: "get_parent i < i" using get_parent_less by blast
    then have "\<not> cmp (xs ! 0) (xs ! get_parent i)" using less by simp
    moreover have "\<not> cmp (xs ! get_parent i) (xs ! i)" using assms(1) less.prems False by (simp add: is_heap_def)
    ultimately show ?thesis by (rule not_trans)
  qed simp
qed

end

end
