(* ===== verification/MergingIterator.thy ===== *)
theory MergingIterator
  imports BlockLayout Heap "HOL-Library.Monad_Syntax"
begin

text \<open>
  \<^verbatim>\<open>class MergingIterator\<close> of \<^verbatim>\<open>table/merging_iterator.cc\<close>, with the wrapper of
  \<^verbatim>\<open>table/iterator_wrapper.h\<close> and the comparators of \<^verbatim>\<open>table/iter_heap.h\<close>. The children are iterators of
  any implementation, given by its operations; the heaps hold indices of children. An operation is \<open>None\<close>
  when a child does not return or an assertion fails. \<open>Comparator::Equal\<close> is \<open>Compare\<close> giving zero, as
  \<^verbatim>\<open>comparator.h\<close> requires. Pinning is left out.
\<close>

record 'it iter_ops =
  io_Valid :: "'it \<Rightarrow> bool"
  io_key :: "'it \<Rightarrow> slice"
  io_value :: "'it \<Rightarrow> slice"
  io_status :: "'it \<Rightarrow> Status"
  io_move :: "iter_op \<Rightarrow> 'it \<Rightarrow> 'it option"

record 'it IteratorWrapper =
  w_iter :: 'it
  w_valid :: bool
  w_key :: slice

definition W_Update :: "'it iter_ops \<Rightarrow> 'it IteratorWrapper \<Rightarrow> 'it IteratorWrapper" where
  "W_Update ops w =
     (let w = w\<lparr>w_valid := io_Valid ops (w_iter w)\<rparr>
      in if w_valid w then w\<lparr>w_key := io_key ops (w_iter w)\<rparr> else w)"

definition W_Set :: "'it iter_ops \<Rightarrow> 'it \<Rightarrow> 'it IteratorWrapper" where
  "W_Set ops it = W_Update ops \<lparr>w_iter = it, w_valid = False, w_key = []\<rparr>"

definition W_move :: "'it iter_ops \<Rightarrow> iter_op \<Rightarrow> 'it IteratorWrapper \<Rightarrow> 'it IteratorWrapper option" where
  "W_move ops op w = do { it \<leftarrow> io_move ops op (w_iter w); Some (W_Update ops (w\<lparr>w_iter := it\<rparr>)) }"

type_synonym 'it children = "'it IteratorWrapper list"

definition MaxIteratorLess :: "(slice \<Rightarrow> slice \<Rightarrow> int) \<Rightarrow> 'it children \<Rightarrow> nat \<Rightarrow> nat \<Rightarrow> bool" where
  "MaxIteratorLess cmp cs a b \<longleftrightarrow> cmp (w_key (cs ! a)) (w_key (cs ! b)) < 0"

definition MinIteratorLess :: "(slice \<Rightarrow> slice \<Rightarrow> int) \<Rightarrow> 'it children \<Rightarrow> nat \<Rightarrow> nat \<Rightarrow> bool" where
  "MinIteratorLess cmp cs a b \<longleftrightarrow> cmp (w_key (cs ! a)) (w_key (cs ! b)) > 0"

datatype Direction = kForward | kReverse

record 'it MergingIterator =
  mi_children :: "'it children"
  mi_current :: "nat option"
  mi_direction :: Direction
  minHeap :: "nat BinaryHeap"
  maxHeap :: "nat BinaryHeap option"
  prefix_seek_mode :: bool

definition MI_Valid :: "'it MergingIterator \<Rightarrow> bool" where
  "MI_Valid m \<longleftrightarrow> mi_current m \<noteq> None"

definition CurrentForward :: "'it MergingIterator \<Rightarrow> nat option option" where
  "CurrentForward m = (if mi_direction m = kForward then Some (heap_top (minHeap m)) else None)"

definition CurrentReverse :: "'it MergingIterator \<Rightarrow> nat option option" where
  "CurrentReverse m = (if mi_direction m = kReverse then do { h \<leftarrow> maxHeap m; Some (heap_top h) } else None)"

definition ClearHeaps :: "'it MergingIterator \<Rightarrow> 'it MergingIterator" where
  "ClearHeaps m = m\<lparr>minHeap := heap_clear (minHeap m), maxHeap := map_option heap_clear (maxHeap m)\<rparr>"

definition InitMaxHeap :: "'it MergingIterator \<Rightarrow> 'it MergingIterator" where
  "InitMaxHeap m = (case maxHeap m of None \<Rightarrow> m\<lparr>maxHeap := Some BinaryHeap_make\<rparr> | Some h \<Rightarrow> m)"

text \<open>The loops over the children: each is moved by \<open>f\<close> and, if it is valid then, pushed on the heap.\<close>

primrec move_children ::
    "(nat \<Rightarrow> 'it IteratorWrapper \<Rightarrow> 'it IteratorWrapper option) \<Rightarrow> ('it children \<Rightarrow> nat \<Rightarrow> nat \<Rightarrow> bool) \<Rightarrow> nat list \<Rightarrow>
     'it children \<Rightarrow> nat BinaryHeap \<Rightarrow> ('it children \<times> nat BinaryHeap) option" where
  "move_children f lt [] cs h = Some (cs, h)"
| "move_children f lt (i # is) cs h =
     do { w \<leftarrow> f i (cs ! i);
          let cs = cs[i := w] in move_children f lt is cs (if w_valid w then heap_push (lt cs) i h else h) }"

definition to_forward ::
    "(slice \<Rightarrow> slice \<Rightarrow> int) \<Rightarrow> (nat \<Rightarrow> 'it IteratorWrapper \<Rightarrow> 'it IteratorWrapper option) \<Rightarrow> 'it MergingIterator \<Rightarrow>
     'it MergingIterator option" where
  "to_forward cmp f m =
     (let m = ClearHeaps m
      in do { (cs, h) \<leftarrow> move_children f (MinIteratorLess cmp) [0..<length (mi_children m)] (mi_children m) (minHeap m);
              Some (m\<lparr>mi_children := cs, minHeap := h, mi_direction := kForward\<rparr>) })"

definition to_reverse ::
    "(slice \<Rightarrow> slice \<Rightarrow> int) \<Rightarrow> (nat \<Rightarrow> 'it IteratorWrapper \<Rightarrow> 'it IteratorWrapper option) \<Rightarrow> 'it MergingIterator \<Rightarrow>
     'it MergingIterator option" where
  "to_reverse cmp f m =
     (let m = InitMaxHeap (ClearHeaps m)
      in do { mh \<leftarrow> maxHeap m;
              (cs, h) \<leftarrow> move_children f (MaxIteratorLess cmp) [0..<length (mi_children m)] (mi_children m) mh;
              Some (m\<lparr>mi_children := cs, maxHeap := Some h, mi_direction := kReverse\<rparr>) })"

definition set_current_forward :: "'it MergingIterator \<Rightarrow> 'it MergingIterator option" where
  "set_current_forward m = do { c \<leftarrow> CurrentForward m; Some (m\<lparr>mi_current := c\<rparr>) }"

definition set_current_reverse :: "'it MergingIterator \<Rightarrow> 'it MergingIterator option" where
  "set_current_reverse m = do { c \<leftarrow> CurrentReverse m; Some (m\<lparr>mi_current := c\<rparr>) }"

definition MI_make :: "'it iter_ops \<Rightarrow> (slice \<Rightarrow> slice \<Rightarrow> int) \<Rightarrow> 'it list \<Rightarrow> bool \<Rightarrow> 'it MergingIterator option" where
  "MI_make ops cmp its prefix_mode =
     (let cs = map (W_Set ops) its
      in do { (cs, h) \<leftarrow> move_children (\<lambda>i w. Some w) (MinIteratorLess cmp) [0..<length cs] cs BinaryHeap_make;
              set_current_forward \<lparr>mi_children = cs, mi_current = None, mi_direction = kForward, minHeap = h,
                maxHeap = None, prefix_seek_mode = prefix_mode\<rparr> })"

text \<open>A valid iterator that is added is pushed by the address of a local copy of its wrapper.\<close>

definition MI_AddIterator :: "'it iter_ops \<Rightarrow> 'it \<Rightarrow> 'it MergingIterator \<Rightarrow> 'it MergingIterator option" where
  "MI_AddIterator ops it m =
     (if mi_direction m \<noteq> kForward then None
      else let m = m\<lparr>mi_children := mi_children m @ [W_Set ops it]\<rparr>
           in if w_valid (last (mi_children m)) then None else Some m)"

definition MI_SeekToFirst :: "'it iter_ops \<Rightarrow> (slice \<Rightarrow> slice \<Rightarrow> int) \<Rightarrow> 'it MergingIterator \<Rightarrow> 'it MergingIterator option" where
  "MI_SeekToFirst ops cmp m = do { m \<leftarrow> to_forward cmp (\<lambda>i. W_move ops OpSeekToFirst) m; set_current_forward m }"

definition MI_SeekToLast :: "'it iter_ops \<Rightarrow> (slice \<Rightarrow> slice \<Rightarrow> int) \<Rightarrow> 'it MergingIterator \<Rightarrow> 'it MergingIterator option" where
  "MI_SeekToLast ops cmp m = do { m \<leftarrow> to_reverse cmp (\<lambda>i. W_move ops OpSeekToLast) m; set_current_reverse m }"

definition MI_Seek :: "'it iter_ops \<Rightarrow> (slice \<Rightarrow> slice \<Rightarrow> int) \<Rightarrow> slice \<Rightarrow> 'it MergingIterator \<Rightarrow> 'it MergingIterator option" where
  "MI_Seek ops cmp target m = do { m \<leftarrow> to_forward cmp (\<lambda>i. W_move ops (OpSeek target)) m; set_current_forward m }"

definition MI_SeekForPrev :: "'it iter_ops \<Rightarrow> (slice \<Rightarrow> slice \<Rightarrow> int) \<Rightarrow> slice \<Rightarrow> 'it MergingIterator \<Rightarrow> 'it MergingIterator option" where
  "MI_SeekForPrev ops cmp target m =
     do { m \<leftarrow> to_reverse cmp (\<lambda>i. W_move ops (OpSeekForPrev target)) m; set_current_reverse m }"

definition next_child ::
    "'it iter_ops \<Rightarrow> (slice \<Rightarrow> slice \<Rightarrow> int) \<Rightarrow> nat \<Rightarrow> slice \<Rightarrow> nat \<Rightarrow> 'it IteratorWrapper \<Rightarrow> 'it IteratorWrapper option" where
  "next_child ops cmp cur key i w =
     (if i = cur then Some w
      else do { w \<leftarrow> W_move ops (OpSeek key) w;
                if w_valid w \<and> cmp key (w_key w) = 0 then W_move ops OpNext w else Some w })"

definition MI_Next :: "'it iter_ops \<Rightarrow> (slice \<Rightarrow> slice \<Rightarrow> int) \<Rightarrow> 'it MergingIterator \<Rightarrow> 'it MergingIterator option" where
  "MI_Next ops cmp m =
     do { cur \<leftarrow> mi_current m;
          m \<leftarrow> (if mi_direction m \<noteq> kForward
                then to_forward cmp (next_child ops cmp cur (w_key (mi_children m ! cur))) m
                else Some m);
          c \<leftarrow> CurrentForward m;
          if c \<noteq> Some cur then None
          else do { w \<leftarrow> W_move ops OpNext (mi_children m ! cur);
               let cs = (mi_children m)[cur := w];
               h \<leftarrow> (if w_valid w then heap_replace_top (MinIteratorLess cmp cs) cur (minHeap m)
                     else heap_pop (MinIteratorLess cmp cs) (minHeap m));
               set_current_forward (m\<lparr>mi_children := cs, minHeap := h\<rparr>) } }"

definition prev_child ::
    "'it iter_ops \<Rightarrow> (slice \<Rightarrow> slice \<Rightarrow> int) \<Rightarrow> bool \<Rightarrow> nat \<Rightarrow> slice \<Rightarrow> nat \<Rightarrow> 'it IteratorWrapper \<Rightarrow> 'it IteratorWrapper option" where
  "prev_child ops cmp prefix_mode cur key i w =
     (if i = cur then Some w
      else if \<not> prefix_mode
      then do { w \<leftarrow> W_move ops (OpSeek key) w; W_move ops (if w_valid w then OpPrev else OpSeekToLast) w }
      else do { w \<leftarrow> W_move ops (OpSeekForPrev key) w;
                if w_valid w \<and> cmp key (w_key w) = 0 then W_move ops OpPrev w else Some w })"

definition MI_Prev :: "'it iter_ops \<Rightarrow> (slice \<Rightarrow> slice \<Rightarrow> int) \<Rightarrow> 'it MergingIterator \<Rightarrow> 'it MergingIterator option" where
  "MI_Prev ops cmp m =
     do { cur \<leftarrow> mi_current m;
          m \<leftarrow> (if mi_direction m \<noteq> kReverse
                then do { m \<leftarrow> to_reverse cmp (prev_child ops cmp (prefix_seek_mode m) cur (w_key (mi_children m ! cur))) m;
                          if \<not> prefix_seek_mode m then set_current_reverse m else Some m }
                else Some m);
          cur \<leftarrow> mi_current m;
          c \<leftarrow> CurrentReverse m;
          if c \<noteq> Some cur then None
          else do { w \<leftarrow> W_move ops OpPrev (mi_children m ! cur);
               let cs = (mi_children m)[cur := w];
               mh \<leftarrow> maxHeap m;
               h \<leftarrow> (if w_valid w then heap_replace_top (MaxIteratorLess cmp cs) cur mh
                     else heap_pop (MaxIteratorLess cmp cs) mh);
               set_current_reverse (m\<lparr>mi_children := cs, maxHeap := Some h\<rparr>) } }"

definition MI_key :: "'it MergingIterator \<Rightarrow> slice option" where
  "MI_key m = map_option (\<lambda>c. w_key (mi_children m ! c)) (mi_current m)"

definition MI_value :: "'it iter_ops \<Rightarrow> 'it MergingIterator \<Rightarrow> slice option" where
  "MI_value ops m = map_option (\<lambda>c. io_value ops (w_iter (mi_children m ! c))) (mi_current m)"

primrec first_error :: "Status list \<Rightarrow> Status \<Rightarrow> Status" where
  "first_error [] s = s"
| "first_error (t # ts) s = (if \<not> ok t then t else first_error ts t)"

definition MI_status :: "'it iter_ops \<Rightarrow> 'it MergingIterator \<Rightarrow> Status" where
  "MI_status ops m = first_error (map (\<lambda>w. io_status ops (w_iter w)) (mi_children m)) Status_OK"

text \<open>The virtual calls of the interface, by name.\<close>

primrec MI_move :: "'it iter_ops \<Rightarrow> (slice \<Rightarrow> slice \<Rightarrow> int) \<Rightarrow> iter_op \<Rightarrow> 'it MergingIterator \<Rightarrow> 'it MergingIterator option" where
  "MI_move ops cmp OpSeekToFirst m = MI_SeekToFirst ops cmp m"
| "MI_move ops cmp OpSeekToLast m = MI_SeekToLast ops cmp m"
| "MI_move ops cmp (OpSeek target) m = MI_Seek ops cmp target m"
| "MI_move ops cmp (OpSeekForPrev target) m = MI_SeekForPrev ops cmp target m"
| "MI_move ops cmp OpNext m = MI_Next ops cmp m"
| "MI_move ops cmp OpPrev m = MI_Prev ops cmp m"

text \<open>What \<^verbatim>\<open>NewMergingIterator\<close> gives: an empty iterator, its only child, or a merging iterator.\<close>

datatype 'it InternalIterator = EmptyInternalIterator Status | OnlyChild 'it | Merging "'it MergingIterator"

definition NewMergingIterator ::
    "'it iter_ops \<Rightarrow> (slice \<Rightarrow> slice \<Rightarrow> int) \<Rightarrow> 'it list \<Rightarrow> bool \<Rightarrow> 'it InternalIterator option" where
  "NewMergingIterator ops cmp list prefix_mode =
     (if length list = 0 then Some (EmptyInternalIterator Status_OK)
      else if length list = 1 then Some (OnlyChild (list ! 0))
      else map_option Merging (MI_make ops cmp list prefix_mode))"

definition empty_move :: "iter_op \<Rightarrow> Status \<Rightarrow> Status option" where
  "empty_move op s = (if op = OpNext \<or> op = OpPrev then None else Some s)"

text \<open>\<open>key\<close> and \<open>value\<close> of an iterator that is not valid fail an assertion; the empty slice stands for it.\<close>

definition iterator_ops :: "'it iter_ops \<Rightarrow> (slice \<Rightarrow> slice \<Rightarrow> int) \<Rightarrow> 'it InternalIterator iter_ops" where
  "iterator_ops ops cmp = \<lparr>
     io_Valid = (\<lambda>it. case it of EmptyInternalIterator s \<Rightarrow> False | OnlyChild c \<Rightarrow> io_Valid ops c | Merging m \<Rightarrow> MI_Valid m),
     io_key = (\<lambda>it. case it of EmptyInternalIterator s \<Rightarrow> [] | OnlyChild c \<Rightarrow> io_key ops c
        | Merging m \<Rightarrow> (case MI_key m of None \<Rightarrow> [] | Some k \<Rightarrow> k)),
     io_value = (\<lambda>it. case it of EmptyInternalIterator s \<Rightarrow> [] | OnlyChild c \<Rightarrow> io_value ops c
        | Merging m \<Rightarrow> (case MI_value ops m of None \<Rightarrow> [] | Some v \<Rightarrow> v)),
     io_status = (\<lambda>it. case it of EmptyInternalIterator s \<Rightarrow> s | OnlyChild c \<Rightarrow> io_status ops c | Merging m \<Rightarrow> MI_status ops m),
     io_move = (\<lambda>op it. case it of EmptyInternalIterator s \<Rightarrow> map_option EmptyInternalIterator (empty_move op s)
        | OnlyChild c \<Rightarrow> map_option OnlyChild (io_move ops op c) | Merging m \<Rightarrow> map_option Merging (MI_move ops cmp op m)) \<rparr>"

text \<open>\<^verbatim>\<open>MergeIteratorBuilder\<close>. An iterator that is added while valid makes it \<open>None\<close>, as in \<open>MI_AddIterator\<close>.\<close>

record 'it MergeIteratorBuilder =
  merge_iter :: "'it MergingIterator"
  first_iter :: "'it option"
  use_merging_iter :: bool

definition MergeIteratorBuilder_make ::
    "'it iter_ops \<Rightarrow> (slice \<Rightarrow> slice \<Rightarrow> int) \<Rightarrow> bool \<Rightarrow> 'it MergeIteratorBuilder option" where
  "MergeIteratorBuilder_make ops cmp prefix_mode =
     do { m \<leftarrow> MI_make ops cmp [] prefix_mode; Some \<lparr>merge_iter = m, first_iter = None, use_merging_iter = False\<rparr> }"

definition MergeIteratorBuilder_AddIterator ::
    "'it iter_ops \<Rightarrow> 'it \<Rightarrow> 'it MergeIteratorBuilder \<Rightarrow> 'it MergeIteratorBuilder option" where
  "MergeIteratorBuilder_AddIterator ops it b =
     do { b \<leftarrow> (case first_iter b of
                 Some first \<Rightarrow> if use_merging_iter b then Some b
                   else do { m \<leftarrow> MI_AddIterator ops first (merge_iter b); Some (b\<lparr>merge_iter := m, use_merging_iter := True\<rparr>) }
               | None \<Rightarrow> Some b);
          if use_merging_iter b
          then do { m \<leftarrow> MI_AddIterator ops it (merge_iter b); Some (b\<lparr>merge_iter := m\<rparr>) }
          else Some (b\<lparr>first_iter := Some it\<rparr>) }"

definition MergeIteratorBuilder_Finish :: "'it MergeIteratorBuilder \<Rightarrow> 'it InternalIterator option" where
  "MergeIteratorBuilder_Finish b =
     (if \<not> use_merging_iter b then map_option OnlyChild (first_iter b) else Some (Merging (merge_iter b)))"

primrec AddIterators :: "'it iter_ops \<Rightarrow> 'it list \<Rightarrow> 'it MergeIteratorBuilder \<Rightarrow> 'it MergeIteratorBuilder option" where
  "AddIterators ops [] b = Some b"
| "AddIterators ops (it # its) b = do { b \<leftarrow> MergeIteratorBuilder_AddIterator ops it b; AddIterators ops its b }"

text \<open>The iterators over data blocks as children.\<close>

definition block_ops :: "(slice \<Rightarrow> slice \<Rightarrow> int) \<Rightarrow> BlockIter iter_ops" where
  "block_ops cmp = \<lparr>io_Valid = BlockIter_Valid, io_key = BlockIter_key, io_value = BlockIter_value, io_status = bi_status,
     io_move = (\<lambda>op it. if (op = OpNext \<or> op = OpPrev) \<and> \<not> BlockIter_Valid it then None else BlockIter_step cmp op it)\<rparr>"

text \<open>A client that makes a sequence of calls, and checks \<open>Valid\<close> before it calls \<open>Next\<close> or \<open>Prev\<close>.\<close>

primrec client_run :: "'it iter_ops \<Rightarrow> iter_op list \<Rightarrow> 'it \<Rightarrow> 'it option" where
  "client_run ops [] it = Some it"
| "client_run ops (op # os) it =
     do { it \<leftarrow> (if (op = OpNext \<or> op = OpPrev) \<and> \<not> io_Valid ops it then Some it else io_move ops op it); client_run ops os it }"

end
