(* ===== verification/MergingCursor.thy ===== *)
theory MergingCursor
  imports MergingIterator
begin

text \<open>
  The merging iterator of theory \<open>MergingIterator\<close> is a cursor into the sorted list of all its children's
  entries. The locale \<open>internal_iterator\<close> is the contract of \<^verbatim>\<open>InternalIterator\<close> its proof relies on; the
  iterators over data blocks meet it, and so does a merging iterator over iterators that meet it.
\<close>

section \<open>Positions in sorted lists, in either direction\<close>

text \<open>\<open>bef cmp d a b\<close>: a move in direction \<open>d\<close> meets \<open>a\<close> before \<open>b\<close>.\<close>

fun bef :: "(slice \<Rightarrow> slice \<Rightarrow> int) \<Rightarrow> Direction \<Rightarrow> slice \<Rightarrow> slice \<Rightarrow> bool" where
  "bef cmp kForward a b \<longleftrightarrow> cmp a b < 0"
| "bef cmp kReverse a b \<longleftrightarrow> cmp b a < 0"

definition indices :: "Direction \<Rightarrow> 'a list \<Rightarrow> nat list" where
  "indices d ks = (case d of kForward \<Rightarrow> [0..<length ks] | kReverse \<Rightarrow> rev [0..<length ks])"

text \<open>The first position, in the direction, of a key with the property.\<close>

definition sel :: "Direction \<Rightarrow> (slice \<Rightarrow> bool) \<Rightarrow> slice list \<Rightarrow> nat option" where
  "sel d P ks = find (\<lambda>i. P (ks ! i)) (indices d ks)"

definition keys_increase :: "(slice \<Rightarrow> slice \<Rightarrow> int) \<Rightarrow> slice list \<Rightarrow> bool" where
  "keys_increase cmp ks \<longleftrightarrow> sorted_wrt (\<lambda>a b. cmp a b < 0) ks"

lemma sel_None: "sel d P ks = None \<longleftrightarrow> (\<forall>k \<in> set ks. \<not> P k)"
  unfolding sel_def by (cases d; simp add: indices_def find_None_iff; metis in_set_conv_nth)

lemma sel_cong: "(\<And>k. k \<in> set ks \<Longrightarrow> P k = Q k) \<Longrightarrow> sel d P ks = sel d Q ks"
  unfolding sel_def by (cases d) (auto intro!: find_cong simp: indices_def)

lemma sel_char:
  "sel d P ks = Some i \<longleftrightarrow> i < length ks \<and> P (ks ! i) \<and>
     (\<forall>l < length ks. P (ks ! l) \<longrightarrow> (case d of kForward \<Rightarrow> i \<le> l | kReverse \<Rightarrow> l \<le> i))" (is "_ \<longleftrightarrow> ?R i")
proof -
  have r: "sel d P ks = Some m" if "?R m" for m
  proof (cases d)
    case kForward
    then have m: "m < length ks" "P (ks ! m)" "\<And>l. l < length ks \<Longrightarrow> P (ks ! l) \<Longrightarrow> m \<le> l" using that by auto
    have "\<not> P (ks ! l)" if "l < m" for l using m(1) m(3) [of l] that by auto
    then show ?thesis using kForward m(1,2) by (auto simp: sel_def indices_def intro: find_first)
  next
    case kReverse
    then have m: "m < length ks" "P (ks ! m)" "\<And>l. l < length ks \<Longrightarrow> P (ks ! l) \<Longrightarrow> l \<le> m" using that by auto
    have "\<not> P (ks ! l)" if "m < l" "l < length ks" for l using m(3) [of l] that by auto
    then show ?thesis using kReverse m(1,2) by (auto simp: sel_def indices_def intro: find_last)
  qed
  have "\<exists>m. ?R m" if "sel d P ks \<noteq> None"
  proof -
    let ?S = "{l. l < length ks \<and> P (ks ! l)}"
    have f: "finite ?S" by simp
    have ne: "?S \<noteq> {}" using that unfolding sel_None by (auto simp: in_set_conv_nth)
    have "Min ?S \<in> ?S" by (rule Min_in [OF f ne])
    moreover have "Max ?S \<in> ?S" by (rule Max_in [OF f ne])
    moreover have "Min ?S \<le> l" "l \<le> Max ?S" if "l \<in> ?S" for l using f that by (auto intro: Min_le Max_ge)
    ultimately have "?R (case d of kForward \<Rightarrow> Min ?S | kReverse \<Rightarrow> Max ?S)" by (cases d) auto
    then show ?thesis by blast
  qed
  then have "?R i" if "sel d P ks = Some i" using r that by auto
  then show ?thesis using r by blast
qed

context comparator
begin

lemma bef_irrefl [simp]: "\<not> bef Compare d a a"
  by (cases d) auto

lemma bef_asym: "bef Compare d a b \<Longrightarrow> \<not> bef Compare d b a"
  using compare_flip [of a b] compare_flip [of b a] by (cases d) auto

lemma bef_trans: "bef Compare d a b \<Longrightarrow> bef Compare d b c \<Longrightarrow> bef Compare d a c"
  using compare_less_trans [of a b c] compare_less_trans [of c b a] by (cases d) auto

lemma nth_increase:
  assumes "keys_increase Compare ks" "i < j" "j < length ks"
  shows "bef Compare kForward (ks ! i) (ks ! j)" "bef Compare kReverse (ks ! j) (ks ! i)"
  using assms by (auto simp: keys_increase_def sorted_wrt_iff_nth_less)

lemma sel_Some:
  assumes "keys_increase Compare ks"
  shows "sel d P ks = Some i \<longleftrightarrow> i < length ks \<and> P (ks ! i) \<and> (\<forall>k \<in> set ks. P k \<longrightarrow> k = ks ! i \<or> bef Compare d (ks ! i) k)"
  unfolding sel_char
proof (intro conj_cong refl)
  assume i: "i < length ks" "P (ks ! i)"
  show "(\<forall>l < length ks. P (ks ! l) \<longrightarrow> (case d of kForward \<Rightarrow> i \<le> l | kReverse \<Rightarrow> l \<le> i)) \<longleftrightarrow>
      (\<forall>k \<in> set ks. P k \<longrightarrow> k = ks ! i \<or> bef Compare d (ks ! i) k)" (is "?L \<longleftrightarrow> ?R")
  proof
    assume l: ?L
    show ?R
    proof (intro ballI impI)
      fix k
      assume k: "k \<in> set ks" "P k"
      then obtain m where m: "m < length ks" "ks ! m = k" by (auto simp: in_set_conv_nth)
      then have "case d of kForward \<Rightarrow> i \<le> m | kReverse \<Rightarrow> m \<le> i" using l k(2) by auto
      then show "k = ks ! i \<or> bef Compare d (ks ! i) k"
        using nth_increase [OF assms, of i m] nth_increase [OF assms, of m i] m i(1)
        by (cases "m = i"; cases d) auto
    qed
  next
    assume r: ?R
    show ?L
    proof (intro allI impI)
      fix m
      assume m: "m < length ks" "P (ks ! m)"
      then have e: "ks ! m = ks ! i \<or> bef Compare d (ks ! i) (ks ! m)" using r by auto
      show "case d of kForward \<Rightarrow> i \<le> m | kReverse \<Rightarrow> m \<le> i"
        using e nth_increase [OF assms, of m i] nth_increase [OF assms, of i m] m(1) i(1) bef_asym [of d "ks ! i" "ks ! m"]
        by (cases d; cases "m = i"; cases "m < i") auto
    qed
  qed
qed

end

text \<open>The key \<open>k\<close> is at or after \<open>t\<close> in the direction.\<close>

definition from_key :: "(slice \<Rightarrow> slice \<Rightarrow> int) \<Rightarrow> Direction \<Rightarrow> slice \<Rightarrow> slice \<Rightarrow> bool" where
  "from_key cmp d t k \<longleftrightarrow> \<not> bef cmp d k t"

definition step_op :: "Direction \<Rightarrow> iter_op" where
  "step_op d = (case d of kForward \<Rightarrow> OpNext | kReverse \<Rightarrow> OpPrev)"

definition seek_op :: "Direction \<Rightarrow> slice \<Rightarrow> iter_op" where
  "seek_op d t = (case d of kForward \<Rightarrow> OpSeek t | kReverse \<Rightarrow> OpSeekForPrev t)"

definition end_op :: "Direction \<Rightarrow> iter_op" where
  "end_op d = (case d of kForward \<Rightarrow> OpSeekToFirst | kReverse \<Rightarrow> OpSeekToLast)"

context comparator
begin

lemma from_key_refl [simp]: "from_key Compare d t t"
  by (simp add: from_key_def)

lemma from_key_closed: "from_key Compare d t k \<Longrightarrow> bef Compare d k k' \<Longrightarrow> from_key Compare d t k'"
  using bef_trans [of d k k' t] by (auto simp: from_key_def)

lemma cursor_end: "cursor_step Compare ks (end_op d) c = sel d (\<lambda>_. True) ks"
proof (cases "ks = []")
  case False
  then have "sel d (\<lambda>_. True) ks = Some (case d of kForward \<Rightarrow> 0 | kReverse \<Rightarrow> length ks - 1)"
    unfolding sel_char by (cases d) auto
  then show ?thesis using False by (cases d) (auto simp: end_op_def)
qed (cases d; simp add: end_op_def sel_def indices_def)

lemma from_key_iff: "from_key Compare kForward t k \<longleftrightarrow> 0 \<le> Compare k t" "from_key Compare kReverse t k \<longleftrightarrow> Compare k t \<le> 0"
  using compare_le_flip [of k t] by (auto simp: from_key_def)

lemma cursor_seek: "cursor_step Compare ks (seek_op d t) c = sel d (from_key Compare d t) ks"
  by (cases d) (simp_all add: seek_op_def sel_def indices_def from_key_iff)

lemma cursor_next:
  assumes "keys_increase Compare ks" "i < length ks"
  shows "cursor_step Compare ks (step_op d) (Some i) = sel d (bef Compare d (ks ! i)) ks"
proof (cases d)
  case kForward
  show ?thesis
  proof (cases "Suc i < length ks")
    case True
    have "bef Compare kForward (ks ! i) (ks ! l) \<Longrightarrow> Suc i \<le> l" if "l < length ks" for l
      using nth_increase(1) [OF assms(1), of l i] bef_asym bef_irrefl assms(2) that
      by (metis Suc_leI linorder_neqE_nat)
    then have "sel kForward (bef Compare kForward (ks ! i)) ks = Some (Suc i)"
      unfolding sel_char using True nth_increase(1) [OF assms(1), of i "Suc i"] by auto
    then show ?thesis using kForward True by (simp add: step_op_def)
  next
    case False
    have "\<not> bef Compare kForward (ks ! i) k" if k: "k \<in> set ks" for k
    proof -
      obtain l where "l < length ks" "ks ! l = k" using k by (auto simp: in_set_conv_nth)
      then show ?thesis using False nth_increase(1) [OF assms(1), of l i] bef_asym [of kForward k "ks ! i"] assms(2) by (cases "l = i") auto
    qed
    then have "sel kForward (bef Compare kForward (ks ! i)) ks = None" unfolding sel_None by blast
    then show ?thesis using kForward False by (simp add: step_op_def)
  qed
next
  case kReverse
  show ?thesis
  proof (cases "i = 0")
    case False
    have "bef Compare kReverse (ks ! i) (ks ! l) \<Longrightarrow> l \<le> i - 1" if "l < length ks" for l
    proof -
      assume b: "bef Compare kReverse (ks ! i) (ks ! l)"
      then have "l \<noteq> i" "\<not> i < l" using nth_increase(2) [OF assms(1), of i l] bef_asym [of kReverse "ks ! i" "ks ! l"] that by auto
      then show ?thesis using False by auto
    qed
    then have "sel kReverse (bef Compare kReverse (ks ! i)) ks = Some (i - 1)"
      unfolding sel_char using False nth_increase(2) [OF assms(1), of "i - 1" i] assms(2) by auto
    then show ?thesis using kReverse False by (simp add: step_op_def)
  next
    case True
    have "\<not> bef Compare kReverse (ks ! i) k" if k: "k \<in> set ks" for k
    proof -
      obtain l where "l < length ks" "ks ! l = k" using k by (auto simp: in_set_conv_nth)
      then show ?thesis using True nth_increase(2) [OF assms(1), of i l] bef_asym [of kReverse k "ks ! i"] by (cases "l = i") auto
    qed
    then have "sel kReverse (bef Compare kReverse (ks ! i)) ks = None" unfolding sel_None by blast
    then show ?thesis using kReverse True by (simp add: step_op_def)
  qed
qed

end

section \<open>The contract of a child\<close>

text \<open>
  The contract of \<^verbatim>\<open>InternalIterator\<close>: an iterator over a source that holds a sorted list of entries is a
  cursor into the list. \<open>rel s c it\<close>: \<open>it\<close> is at position \<open>c\<close> of the source \<open>s\<close>.
\<close>

text \<open>A wrapper caches whether its iterator is valid, and its key.\<close>

definition child_at ::
    "('src \<Rightarrow> nat option \<Rightarrow> 'it \<Rightarrow> bool) \<Rightarrow> ('src \<Rightarrow> (slice \<times> slice) list) \<Rightarrow> 'src \<Rightarrow> nat option \<Rightarrow> 'it IteratorWrapper \<Rightarrow> bool" where
  "child_at rel ent s c w \<longleftrightarrow>
     rel s c (w_iter w) \<and> (w_valid w \<longleftrightarrow> c \<noteq> None) \<and> (\<forall>i. c = Some i \<longrightarrow> w_key w = fst (ent s ! i))"

locale internal_iterator = comparator Compare for Compare :: "slice \<Rightarrow> slice \<Rightarrow> int" +
  fixes ops :: "'it iter_ops"
    and rel :: "'src \<Rightarrow> nat option \<Rightarrow> 'it \<Rightarrow> bool"
    and entries_in :: "'src \<Rightarrow> (slice \<times> slice) list"
  assumes moves: "rel s c it \<Longrightarrow> op = OpNext \<or> op = OpPrev \<Longrightarrow> c \<noteq> None \<Longrightarrow>
      \<exists>it'. io_move ops op it = Some it' \<and> rel s (cursor_step Compare (map fst (entries_in s)) op c) it'"
    and seeks: "rel s c it \<Longrightarrow> op \<noteq> OpNext \<Longrightarrow> op \<noteq> OpPrev \<Longrightarrow>
      \<exists>it'. io_move ops op it = Some it' \<and> rel s (cursor_step Compare (map fst (entries_in s)) op c) it'"
    and sorted_entries: "rel s c it \<Longrightarrow> keys_increase Compare (map fst (entries_in s))"
    and valid_iff: "rel s c it \<Longrightarrow> io_Valid ops it \<longleftrightarrow> c \<noteq> None"
    and at_entry: "rel s (Some i) it \<Longrightarrow> i < length (entries_in s) \<and> io_key ops it = fst (entries_in s ! i) \<and> io_value ops it = snd (entries_in s ! i)"
    and no_error: "rel s c it \<Longrightarrow> ok (io_status ops it)"
begin

abbreviation child :: "'src \<Rightarrow> nat option \<Rightarrow> 'it IteratorWrapper \<Rightarrow> bool" where
  "child \<equiv> child_at rel entries_in"

lemma child_Update: "rel s c it \<Longrightarrow> child s c (W_Update ops (w\<lparr>w_iter := it\<rparr>))"
  using valid_iff [of s c it] at_entry [of s _ it] by (auto simp: child_at_def W_Update_def Let_def)

lemma child_move:
  assumes "child s c w" "op = OpNext \<or> op = OpPrev \<Longrightarrow> c \<noteq> None"
  shows "\<exists>w'. W_move ops op w = Some w' \<and> child s (cursor_step Compare (map fst (entries_in s)) op c) w'"
proof -
  have r: "rel s c (w_iter w)" using assms(1) by (simp add: child_at_def)
  obtain it' where "io_move ops op (w_iter w) = Some it'" "rel s (cursor_step Compare (map fst (entries_in s)) op c) it'"
    using moves [OF r, of op] seeks [OF r, of op] assms(2) by blast
  then show ?thesis using child_Update by (auto simp: W_move_def)
qed

end

section \<open>Merged entries\<close>

text \<open>\<open>ms\<close> are the entries of the sources in order. No key is in two sources.\<close>

definition merged :: "(slice \<Rightarrow> slice \<Rightarrow> int) \<Rightarrow> (slice \<times> slice) list list \<Rightarrow> (slice \<times> slice) list \<Rightarrow> bool" where
  "merged cmp ess ms \<longleftrightarrow> keys_increase cmp (map fst ms) \<and> mset ms = mset (concat ess)"

definition heap_lt :: "(slice \<Rightarrow> slice \<Rightarrow> int) \<Rightarrow> Direction \<Rightarrow> 'it children \<Rightarrow> nat \<Rightarrow> nat \<Rightarrow> bool" where
  "heap_lt cmp d = (case d of kForward \<Rightarrow> MinIteratorLess cmp | kReverse \<Rightarrow> MaxIteratorLess cmp)"

definition holds_valid :: "'it children \<Rightarrow> nat BinaryHeap \<Rightarrow> bool" where
  "holds_valid cs h \<longleftrightarrow> mset (hp_data h) = mset (filter (\<lambda>j. w_valid (cs ! j)) [0..<length cs])"

lemma concat_disjoint:
  assumes "distinct (concat xss)" "i < j" "j < length xss"
  shows "set (xss ! i) \<inter> set (xss ! j) = {}"
proof -
  have "xss = take i xss @ xss ! i # drop (Suc i) xss" using assms(2,3) by (simp add: id_take_nth_drop)
  then have "concat xss = concat (take i xss) @ xss ! i @ concat (drop (Suc i) xss)" by (metis concat.simps(2) concat_append)
  then have "set (xss ! i) \<inter> set (concat (drop (Suc i) xss)) = {}" using assms(1) by auto
  moreover have "drop (Suc i) xss ! (j - Suc i) = xss ! j" "j - Suc i < length (drop (Suc i) xss)" using assms(2,3) by auto
  then have "xss ! j \<in> set (drop (Suc i) xss)" by (metis nth_mem)
  ultimately show ?thesis by auto
qed

context comparator
begin

lemma heap_lt_bef: "heap_lt Compare d cs a b \<longleftrightarrow> bef Compare d (w_key (cs ! b)) (w_key (cs ! a))"
  using compare_flip by (cases d) (auto simp: heap_lt_def MinIteratorLess_def MaxIteratorLess_def)

lemma distinct_keys: "keys_increase Compare ks \<Longrightarrow> distinct ks"
  unfolding keys_increase_def by (induction ks) auto

lemma bef_total:
  assumes "keys_increase Compare ks" "a \<in> set ks" "b \<in> set ks" "a \<noteq> b"
  shows "bef Compare d a b \<or> bef Compare d b a"
proof -
  obtain i j where "i < length ks" "j < length ks" "ks ! i = a" "ks ! j = b" using assms(2,3) by (auto simp: in_set_conv_nth)
  then show ?thesis
    using assms(4) nth_increase [OF assms(1), of i j] nth_increase [OF assms(1), of j i] by (cases d; cases i j rule: linorder_cases) auto
qed

lemma merged_distinct:
  assumes "merged Compare ess ms"
  shows "distinct (map fst ms)" "distinct (concat ess)" "set ms = (\<Union>es \<in> set ess. set es)"
proof -
  have m: "keys_increase Compare (map fst ms)" "mset ms = mset (concat ess)" using assms by (auto simp: merged_def)
  show d: "distinct (map fst ms)" using distinct_keys [OF m(1)] .
  then show "distinct (concat ess)" using mset_eq_imp_distinct_iff [OF m(2)] by (auto simp: distinct_map)
  show "set ms = (\<Union>es \<in> set ess. set es)" using mset_eq_setD [OF m(2)] by simp
qed

text \<open>A key is in one source, at one place.\<close>

lemma merged_unique:
  assumes "merged Compare ess ms" "j < length ess" "j' < length ess" "e \<in> set (ess ! j)" "e' \<in> set (ess ! j')" "fst e = fst e'"
  shows "j = j' \<and> e = e'"
proof -
  note m = merged_distinct [OF assms(1)]
  have "e \<in> set ms" "e' \<in> set ms" using assms(2-5) m(3) by auto
  then have e: "e = e'" using m(1) assms(6) by (metis distinct_map inj_onD)
  have "j = j'"
  proof (rule ccontr)
    assume "j \<noteq> j'"
    then have "set (ess ! j) \<inter> set (ess ! j') = {}"
      using concat_disjoint [OF m(2), of j j'] concat_disjoint [OF m(2), of j' j] assms(2,3) by (cases j j' rule: linorder_cases) auto
    then show False using e assms(4,5) by auto
  qed
  then show ?thesis using e by simp
qed

lemma merged_bef:
  assumes "merged Compare ess ms" "j < length ess" "j' < length ess" "e \<in> set (ess ! j)" "e' \<in> set (ess ! j')" "j \<noteq> j'"
  shows "from_key Compare d (fst e) (fst e') \<longleftrightarrow> bef Compare d (fst e) (fst e')"
proof -
  have "fst e \<noteq> fst e'" using merged_unique [OF assms(1-5)] assms(6) by blast
  moreover have "fst e \<in> set (map fst ms)" "fst e' \<in> set (map fst ms)"
    using merged_distinct(3) [OF assms(1)] assms(2-5) by force+
  ultimately show ?thesis
    using bef_total [of "map fst ms" "fst e" "fst e'" d] assms(1) bef_asym unfolding merged_def from_key_def by blast
qed

end

sublocale comparator \<subseteq> iter_order: heap_order "heap_lt Compare d cs" for d cs
proof
  show "heap_lt Compare d cs a b \<Longrightarrow> \<not> heap_lt Compare d cs b a" for a b by (simp add: heap_lt_bef bef_asym)
  show "\<not> heap_lt Compare d cs a c" if "\<not> heap_lt Compare d cs a b" "\<not> heap_lt Compare d cs b c" for a b c
    using that compare_le_trans [of "w_key (cs ! a)" "w_key (cs ! b)" "w_key (cs ! c)"]
      compare_le_trans [of "w_key (cs ! c)" "w_key (cs ! b)" "w_key (cs ! a)"] compare_le_flip
    unfolding heap_lt_bef by (cases d) (auto simp: not_less)
qed

lemma is_heap_cong:
  "is_heap lt xs \<Longrightarrow> (\<And>a b. a \<in> set xs \<Longrightarrow> b \<in> set xs \<Longrightarrow> lt' a b = lt a b) \<Longrightarrow> is_heap lt' xs"
  unfolding is_heap_def using get_parent_less by (metis less_trans nth_mem)

lemma cache_max_cong:
  assumes "cache_max lt c xs" "\<And>a b. a \<in> set (tl xs) \<Longrightarrow> b \<in> set (tl xs) \<Longrightarrow> lt' a b = lt a b"
  shows "cache_max lt' c xs"
proof -
  have t: "xs ! k \<in> set (tl xs)" if "0 < k" "k < length xs" for k
    using that by (cases xs; cases k) auto
  show ?thesis unfolding cache_max_def
  proof (intro allI impI conjI ballI)
    fix i
    assume i: "c = Some i" "i < length xs"
    then have x: "i \<in> {1, 2}" "\<And>j. j \<in> {1, 2} \<Longrightarrow> j < length xs \<Longrightarrow> \<not> lt (xs ! i) (xs ! j)"
      using assms(1) by (auto simp: cache_max_def)
    show "i \<in> {1, 2}" by (rule x(1))
    fix j :: nat
    assume j: "j \<in> {1, 2}" "j < length xs"
    then have "0 < i" "0 < j" using x(1) by auto
    then show "\<not> lt' (xs ! i) (xs ! j)" using x(2) [OF j] assms(2) [OF t t] i(2) j(2) by simp
  qed
qed

lemma heap_ok_cong:
  assumes "heap_ok lt h" "\<And>a b. a \<in> set (hp_data h) \<Longrightarrow> b \<in> set (hp_data h) \<Longrightarrow> lt' a b = lt a b"
  shows "heap_ok lt' h"
proof -
  have "a \<in> set (hp_data h)" if "a \<in> set (tl (hp_data h))" for a using that by (cases "hp_data h") auto
  then have "lt' a b = lt a b" if "a \<in> set (tl (hp_data h))" "b \<in> set (tl (hp_data h))" for a b using assms(2) that by blast
  then have "cache_max lt' (root_cmp_cache h) (hp_data h)"
    using cache_max_cong [of lt "root_cmp_cache h" "hp_data h" lt'] assms(1) unfolding heap_ok_def by blast
  moreover have "is_heap lt' (hp_data h)" using is_heap_cong [of lt "hp_data h" lt'] assms unfolding heap_ok_def by blast
  ultimately show ?thesis by (simp add: heap_ok_def)
qed

lemma heap_ok_empty: "hp_data h = [] \<Longrightarrow> heap_ok lt h"
  by (simp add: heap_ok_def is_heap_def cache_max_def)

context comparator
begin

lemma heap_lt_cong: "cs ! a = cs' ! a \<Longrightarrow> cs ! b = cs' ! b \<Longrightarrow> heap_lt Compare d cs a b = heap_lt Compare d cs' a b"
  by (simp add: heap_lt_bef)

text \<open>The loop leaves every child moved and the valid ones in a heap.\<close>

lemma move_children_spec:
  assumes "\<And>j. j < length cs \<Longrightarrow> \<exists>w. f j (cs ! j) = Some w \<and> Q j w" "hp_data h = []"
  shows "\<exists>cs' h'. move_children f (heap_lt Compare d) [0..<length cs] cs h = Some (cs', h') \<and> length cs' = length cs \<and>
    (\<forall>j < length cs. Q j (cs' ! j)) \<and> heap_ok (heap_lt Compare d cs') h' \<and> holds_valid cs' h'"
proof -
  have "\<exists>cs' h'. move_children f (heap_lt Compare d) [k..<length cs] c h = Some (cs', h') \<and> length cs' = length cs \<and>
      (\<forall>j < length cs. Q j (cs' ! j)) \<and> heap_ok (heap_lt Compare d cs') h' \<and> holds_valid cs' h'"
    if "k \<le> length cs" "length c = length cs" "\<And>j. j < k \<Longrightarrow> Q j (c ! j)" "\<And>j. k \<le> j \<Longrightarrow> j < length cs \<Longrightarrow> c ! j = cs ! j"
      "heap_ok (heap_lt Compare d c) h" "mset (hp_data h) = mset (filter (\<lambda>j. w_valid (c ! j)) [0..<k])" for k c h
    using that
  proof (induction "length cs - k" arbitrary: k c h)
    case 0
    then have "k = length cs" by simp
    then show ?case using 0 by (auto simp: holds_valid_def)
  next
    case (Suc n)
    then have k: "k < length cs" by simp
    then obtain w where w: "f k (c ! k) = Some w" "Q k w" using assms(1) [OF k] Suc.prems(4) [of k] by auto
    let ?c = "c[k := w]"
    let ?h = "if w_valid w then heap_push (heap_lt Compare d ?c) k h else h"
    have sub: "a < k" if "a \<in> set (hp_data h)" for a
      using that mset_eq_setD [OF Suc.prems(6)] by auto
    have ok: "heap_ok (heap_lt Compare d ?c) h"
    proof (rule heap_ok_cong [OF Suc.prems(5)])
      show "heap_lt Compare d ?c a b = heap_lt Compare d c a b" if "a \<in> set (hp_data h)" "b \<in> set (hp_data h)" for a b
        using sub [OF that(1)] sub [OF that(2)] by (intro heap_lt_cong) auto
    qed
    have f: "filter (\<lambda>j. w_valid (?c ! j)) [0..<k] = filter (\<lambda>j. w_valid (c ! j)) [0..<k]"
      by (rule filter_cong) auto
    have hk: "heap_ok (heap_lt Compare d ?c) ?h" using iter_order.push_ok(1) [OF ok] ok by simp
    have ms: "mset (hp_data ?h) = mset (filter (\<lambda>j. w_valid (?c ! j)) [0..<Suc k])"
      using iter_order.push_ok(2) [OF ok, of k] Suc.prems(2,6) f k by simp
    have "\<exists>cs' h'. move_children f (heap_lt Compare d) [Suc k..<length cs] ?c ?h = Some (cs', h') \<and> length cs' = length cs \<and>
      (\<forall>j < length cs. Q j (cs' ! j)) \<and> heap_ok (heap_lt Compare d cs') h' \<and> holds_valid cs' h'"
    proof (rule Suc.hyps(1))
      show "n = length cs - Suc k" "Suc k \<le> length cs" "length ?c = length cs" using Suc.hyps(2) Suc.prems(2) k by auto
      show "Q j (?c ! j)" if "j < Suc k" for j using that Suc.prems(2,3) w(2) k by (cases "j = k") auto
      show "?c ! j = cs ! j" if "Suc k \<le> j" "j < length cs" for j using that Suc.prems(4) by auto
    qed (use hk ms in auto)
    then show ?case using w(1) k by (simp add: upt_conv_Cons Let_def)
  qed
  from this [of 0 cs h] show ?thesis using assms(2) heap_ok_empty [OF assms(2)] by simp
qed

end

section \<open>The state of a merging iterator\<close>

context internal_iterator
begin

abbreviation keys_in :: "'src \<Rightarrow> slice list" where
  "keys_in s \<equiv> map fst (entries_in s)"

text \<open>Every child is at its first entry, in the direction, with a property of keys.\<close>

definition all_at :: "'src list \<Rightarrow> Direction \<Rightarrow> (slice \<Rightarrow> bool) \<Rightarrow> 'it children \<Rightarrow> bool" where
  "all_at srcs d P cs \<longleftrightarrow> length cs = length srcs \<and> (\<forall>j < length srcs. child (srcs ! j) (sel d P (keys_in (srcs ! j))) (cs ! j))"

lemma all_at_cong:
  assumes "all_at srcs d P cs" "\<And>s k. s \<in> set srcs \<Longrightarrow> k \<in> set (keys_in s) \<Longrightarrow> P k = Q k"
  shows "all_at srcs d Q cs"
proof -
  have "sel d P (keys_in (srcs ! j)) = sel d Q (keys_in (srcs ! j))" if "j < length srcs" for j
    using assms(2) [OF nth_mem [OF that]] by (intro sel_cong) blast
  then show ?thesis using assms(1) by (auto simp: all_at_def)
qed

lemma child_sel:
  assumes "child s (sel d P (keys_in s)) w" "w_valid w"
  obtains i where "sel d P (keys_in s) = Some i" "i < length (entries_in s)" "w_key w = fst (entries_in s ! i)"
    "P (fst (entries_in s ! i))" "\<And>e. e \<in> set (entries_in s) \<Longrightarrow> P (fst e) \<Longrightarrow> fst e = fst (entries_in s ! i) \<or> bef Compare d (fst (entries_in s ! i)) (fst e)"
proof -
  obtain i where i: "sel d P (keys_in s) = Some i" "w_key w = fst (entries_in s ! i)" "rel s (sel d P (keys_in s)) (w_iter w)"
    using assms by (auto simp: child_at_def)
  have s: "keys_increase Compare (keys_in s)" using sorted_entries [OF i(3)] .
  then have "i < length (keys_in s)" "P (keys_in s ! i)" "\<forall>k \<in> set (keys_in s). P k \<longrightarrow> k = keys_in s ! i \<or> bef Compare d (keys_in s ! i) k"
    using i(1) unfolding sel_Some [OF s] by auto
  then show ?thesis using that [OF i(1)] i(2) by auto
qed

text \<open>
  The top of the heap is the child at the first entry of all. \<open>P\<close> holds from some key on.
\<close>

lemma top_entry:
  assumes "merged Compare (map entries_in srcs) ms" "all_at srcs d P cs" "heap_ok (heap_lt Compare d cs) h" "holds_valid cs h"
    "\<And>k k'. P k \<Longrightarrow> bef Compare d k k' \<Longrightarrow> P k'"
  shows "case sel d P (map fst ms) of
      None \<Rightarrow> heap_top h = None
    | Some c \<Rightarrow> c < length ms \<and> (\<exists>j i. heap_top h = Some j \<and> j < length srcs \<and> i < length (entries_in (srcs ! j)) \<and>
        sel d P (keys_in (srcs ! j)) = Some i \<and> entries_in (srcs ! j) ! i = ms ! c \<and> w_valid (cs ! j))"
proof -
  have inc: "keys_increase Compare (map fst ms)" using assms(1) by (simp add: merged_def)
  have mem: "set ms = (\<Union>s \<in> set srcs. set (entries_in s))" using merged_distinct(3) [OF assms(1)] by simp
  have len: "length cs = length srcs" using assms(2) by (simp add: all_at_def)
  have hs: "set (hp_data h) = {j. j < length srcs \<and> w_valid (cs ! j)}"
    using mset_eq_setD [OF assms(4) [unfolded holds_valid_def]] len by auto
  have ch: "child (srcs ! j) (sel d P (keys_in (srcs ! j))) (cs ! j)" if "j < length srcs" for j
    using assms(2) that by (simp add: all_at_def)
  show ?thesis
  proof (cases "sel d P (map fst ms)")
    case None
    then have no: "\<not> P (fst e)" if "e \<in> set ms" for e using that by (auto simp: sel_None)
    have "sel d P (keys_in (srcs ! j)) = None" if j: "j < length srcs" for j
      using no mem nth_mem [OF j] by (auto simp: sel_None)
    then have "\<not> w_valid (cs ! j)" if "j < length srcs" for j using ch [OF that] that by (simp add: child_at_def)
    then have "hp_data h = []" using hs by (metis (no_types, lifting) Collect_empty_eq set_empty)
    then show ?thesis using None by (simp add: heap_top_def heap_empty_def)
  next
    case (Some c)
    then have c: "c < length ms" "P (fst (ms ! c))" "\<And>e. e \<in> set ms \<Longrightarrow> P (fst e) \<Longrightarrow> fst e = fst (ms ! c) \<or> bef Compare d (fst (ms ! c)) (fst e)"
      unfolding sel_Some [OF inc] by auto
    have "ms ! c \<in> set ms" using c(1) by simp
    then obtain s0 where "s0 \<in> set srcs" "ms ! c \<in> set (entries_in s0)" unfolding mem by blast
    then obtain j0 where j0: "j0 < length srcs" "ms ! c \<in> set (entries_in (srcs ! j0))" by (metis in_set_conv_nth)
    have "sel d P (keys_in (srcs ! j0)) \<noteq> None" using c(2) j0(2) unfolding sel_None by force
    then have v0: "w_valid (cs ! j0)" using ch [OF j0(1)] by (simp add: child_at_def)
    obtain i0 where i0: "w_key (cs ! j0) = fst (entries_in (srcs ! j0) ! i0)" "i0 < length (entries_in (srcs ! j0))" "P (fst (entries_in (srcs ! j0) ! i0))"
        "fst (ms ! c) = fst (entries_in (srcs ! j0) ! i0) \<or> bef Compare d (fst (entries_in (srcs ! j0) ! i0)) (fst (ms ! c))"
      using child_sel [OF ch [OF j0(1)] v0] j0(2) c(2) by blast
    have "entries_in (srcs ! j0) ! i0 \<in> set ms" unfolding mem using i0(2) j0(1) by (meson UN_I nth_mem)
    then have k0: "w_key (cs ! j0) = fst (ms ! c)" using c(3) i0 bef_asym by metis
    have m0: "j0 \<in> set (hp_data h)" unfolding hs using j0(1) v0 by simp
    then obtain j where j: "hp_data h ! 0 = j" "heap_top h = Some j" "j \<in> set (hp_data h)"
      by (cases "hp_data h") (auto simp: heap_top_def heap_empty_def)
    have jl: "j < length srcs" "w_valid (cs ! j)" using j(3) unfolding hs by auto
    obtain i where i: "sel d P (keys_in (srcs ! j)) = Some i" "i < length (entries_in (srcs ! j))" "w_key (cs ! j) = fst (entries_in (srcs ! j) ! i)"
        "P (fst (entries_in (srcs ! j) ! i))"
      using child_sel [OF ch [OF jl(1)] jl(2)] by blast
    have em: "entries_in (srcs ! j) ! i \<in> set ms" unfolding mem using i(2) jl(1) by (meson UN_I nth_mem)
    obtain l where l: "l < length (hp_data h)" "hp_data h ! l = j0" using m0 by (auto simp: in_set_conv_nth)
    have "\<not> heap_lt Compare d cs j j0"
      using iter_order.top_max [of d cs "hp_data h" l] assms(3) l j(1) by (simp add: heap_ok_def)
    then have "\<not> bef Compare d (fst (ms ! c)) (fst (entries_in (srcs ! j) ! i))" using i(3) k0 by (simp add: heap_lt_bef)
    then have "fst (entries_in (srcs ! j) ! i) = fst (ms ! c)" using c(3) [OF em i(4)] by blast
    then have "entries_in (srcs ! j) ! i = ms ! c"
      using em c(1) merged_distinct(1) [OF assms(1)] by (metis distinct_map inj_onD nth_mem)
    then show ?thesis using Some c(1) j(2) jl i(1,2) by auto
  qed
qed

end

section \<open>The operations, in either direction\<close>

definition dir_heap :: "Direction \<Rightarrow> 'it MergingIterator \<Rightarrow> nat BinaryHeap option" where
  "dir_heap d m = (case d of kForward \<Rightarrow> Some (minHeap m) | kReverse \<Rightarrow> maxHeap m)"

definition to_dir ::
    "Direction \<Rightarrow> (slice \<Rightarrow> slice \<Rightarrow> int) \<Rightarrow> (nat \<Rightarrow> 'it IteratorWrapper \<Rightarrow> 'it IteratorWrapper option) \<Rightarrow> 'it MergingIterator \<Rightarrow>
     'it MergingIterator option" where
  "to_dir d = (case d of kForward \<Rightarrow> to_forward | kReverse \<Rightarrow> to_reverse)"

definition set_current :: "Direction \<Rightarrow> 'it MergingIterator \<Rightarrow> 'it MergingIterator option" where
  "set_current d = (case d of kForward \<Rightarrow> set_current_forward | kReverse \<Rightarrow> set_current_reverse)"

text \<open>The end of \<open>MI_Next\<close> and of \<open>MI_Prev\<close>.\<close>

definition advance ::
    "'it iter_ops \<Rightarrow> (slice \<Rightarrow> slice \<Rightarrow> int) \<Rightarrow> Direction \<Rightarrow> nat \<Rightarrow> 'it MergingIterator \<Rightarrow> 'it MergingIterator option" where
  "advance ops cmp d cur m =
     do { c \<leftarrow> (case d of kForward \<Rightarrow> CurrentForward m | kReverse \<Rightarrow> CurrentReverse m);
          if c \<noteq> Some cur then None
          else do { w \<leftarrow> W_move ops (step_op d) (mi_children m ! cur);
               let cs = (mi_children m)[cur := w];
               h \<leftarrow> dir_heap d m;
               h \<leftarrow> (if w_valid w then heap_replace_top (heap_lt cmp d cs) cur h else heap_pop (heap_lt cmp d cs) h);
               set_current d (case d of kForward \<Rightarrow> m\<lparr>mi_children := cs, minHeap := h\<rparr>
                              | kReverse \<Rightarrow> m\<lparr>mi_children := cs, maxHeap := Some h\<rparr>) } }"

lemma MI_Next_eq:
  "MI_Next ops cmp m =
     do { cur \<leftarrow> mi_current m;
          m \<leftarrow> (if mi_direction m \<noteq> kForward then to_dir kForward cmp (next_child ops cmp cur (w_key (mi_children m ! cur))) m else Some m);
          advance ops cmp kForward cur m }"
  by (simp add: MI_Next_def to_dir_def advance_def step_op_def dir_heap_def heap_lt_def set_current_def Let_def cong: if_cong)

lemma MI_Prev_eq:
  "MI_Prev ops cmp m =
     do { cur \<leftarrow> mi_current m;
          m \<leftarrow> (if mi_direction m \<noteq> kReverse
                then do { m \<leftarrow> to_dir kReverse cmp (prev_child ops cmp (prefix_seek_mode m) cur (w_key (mi_children m ! cur))) m;
                          if \<not> prefix_seek_mode m then set_current kReverse m else Some m }
                else Some m);
          cur \<leftarrow> mi_current m;
          advance ops cmp kReverse cur m }"
  by (simp add: MI_Prev_def to_dir_def advance_def step_op_def dir_heap_def heap_lt_def set_current_def Let_def cong: if_cong)

lemma set_current_spec:
  "mi_direction m = d \<Longrightarrow> dir_heap d m = Some h \<Longrightarrow> set_current d m = Some (m\<lparr>mi_current := heap_top h\<rparr>)"
  by (cases d) (auto simp: set_current_def set_current_forward_def set_current_reverse_def CurrentForward_def CurrentReverse_def dir_heap_def)

lemma to_dir_spec:
  assumes "\<And>h. hp_data h = [] \<Longrightarrow> move_children f (heap_lt cmp d) [0..<length (mi_children m)] (mi_children m) h = Some (F h)"
  shows "\<exists>m' h h'. to_dir d cmp f m = Some m' \<and> hp_data h = [] \<and> F h = (mi_children m', h') \<and> dir_heap d m' = Some h' \<and>
    mi_direction m' = d \<and> mi_current m' = mi_current m \<and> prefix_seek_mode m' = prefix_seek_mode m"
proof (cases d)
  case kForward
  let ?h = "heap_clear (minHeap m)"
  have e: "hp_data ?h = []" by (simp add: heap_clear_def reset_root_cmp_cache_def)
  then show ?thesis
    using assms [OF e] kForward
    by (cases "F ?h")
      (auto simp: to_dir_def to_forward_def ClearHeaps_def heap_lt_def dir_heap_def Let_def intro!: exI [of _ ?h])
next
  case kReverse
  let ?h = "case maxHeap m of None \<Rightarrow> BinaryHeap_make | Some h \<Rightarrow> heap_clear h"
  have e: "hp_data ?h = []" by (auto simp: heap_clear_def reset_root_cmp_cache_def BinaryHeap_make_def split: option.split)
  then show ?thesis
    using assms [OF e] kReverse
    by (cases "F ?h"; cases "maxHeap m")
      (auto simp: to_dir_def to_reverse_def ClearHeaps_def InitMaxHeap_def heap_lt_def dir_heap_def Let_def intro!: exI [of _ ?h])
qed

text \<open>The order of a heap below its root does not depend on the key at the root.\<close>

lemma below_root:
  assumes "heap_ok lt h" "hp_data h = x # xs" "\<And>a b. a \<in> set xs \<Longrightarrow> b \<in> set xs \<Longrightarrow> lt' a b = lt a b"
  shows "0 < k \<Longrightarrow> k < length (hp_data h) \<Longrightarrow> get_parent k \<noteq> 0 \<Longrightarrow> \<not> lt' (hp_data h ! get_parent k) (hp_data h ! k)"
    "cache_max lt' (root_cmp_cache h) (hp_data h)"
proof -
  show "cache_max lt' (root_cmp_cache h) (hp_data h)"
    using assms cache_max_cong [of lt "root_cmp_cache h" "hp_data h" lt'] by (simp add: heap_ok_def)
  assume k: "0 < k" "k < length (hp_data h)" "get_parent k \<noteq> 0"
  have m: "hp_data h ! i \<in> set xs" if "0 < i" "i < length (hp_data h)" for i using that assms(2) by (cases i) auto
  have "get_parent k < length (hp_data h)" using get_parent_less [OF k(1)] k(2) by simp
  then show "\<not> lt' (hp_data h ! get_parent k) (hp_data h ! k)"
    using assms(1) assms(3) [OF m m, of "get_parent k" k] k by (simp add: heap_ok_def is_heap_def)
qed

context internal_iterator
begin

text \<open>
  \<open>settled\<close>: every child is at its first entry with \<open>P\<close>, and the valid children are in the heap of the
  direction. \<open>MI_rel\<close>: the iterator is at entry \<open>c\<close> of the merged entries.
\<close>

definition settled :: "'src list \<Rightarrow> Direction \<Rightarrow> (slice \<Rightarrow> bool) \<Rightarrow> 'it MergingIterator \<Rightarrow> nat BinaryHeap \<Rightarrow> bool" where
  "settled srcs d P m h \<longleftrightarrow> mi_direction m = d \<and> dir_heap d m = Some h \<and> all_at srcs d P (mi_children m) \<and>
     heap_ok (heap_lt Compare d (mi_children m)) h \<and> holds_valid (mi_children m) h"

definition some_at :: "'src list \<Rightarrow> 'it children \<Rightarrow> bool" where
  "some_at srcs cs \<longleftrightarrow> length cs = length srcs \<and> (\<forall>j < length srcs. \<exists>p. child (srcs ! j) p (cs ! j))"

definition MI_rel :: "'src list \<Rightarrow> (slice \<times> slice) list \<Rightarrow> nat option \<Rightarrow> 'it MergingIterator \<Rightarrow> bool" where
  "MI_rel srcs ms c m \<longleftrightarrow> some_at srcs (mi_children m) \<and>
     (case c of None \<Rightarrow> mi_current m = None
      | Some c \<Rightarrow> c < length ms \<and> (\<exists>h. settled srcs (mi_direction m) (from_key Compare (mi_direction m) (fst (ms ! c))) m h \<and> mi_current m = heap_top h))"

lemma all_some_at: "all_at srcs d P cs \<Longrightarrow> some_at srcs cs"
  by (auto simp: all_at_def some_at_def)

lemma sel_from_key:
  assumes "keys_increase Compare ks" "i < length ks"
  shows "sel d (from_key Compare d (ks ! i)) ks = Some i"
proof -
  have "k = ks ! i \<or> bef Compare d (ks ! i) k" if "k \<in> set ks" "from_key Compare d (ks ! i) k" for k
    using bef_total [OF assms(1), of "ks ! i" k d] that assms(2) by (auto simp: from_key_def)
  then show ?thesis unfolding sel_Some [OF assms(1)] using assms(2) by auto
qed

text \<open>With the current child taken from the heap, the iterator is at the first merged entry with \<open>P\<close>.\<close>

lemma settle:
  assumes "merged Compare (map entries_in srcs) ms" "settled srcs d P m h" "\<And>k k'. P k \<Longrightarrow> bef Compare d k k' \<Longrightarrow> P k'"
  shows "MI_rel srcs ms (sel d P (map fst ms)) (m\<lparr>mi_current := heap_top h\<rparr>)"
proof -
  note s = assms(2) [unfolded settled_def]
  have top: "case sel d P (map fst ms) of None \<Rightarrow> heap_top h = None | Some c \<Rightarrow> c < length ms"
    using top_entry [OF assms(1), of d P "mi_children m" h] s assms(3) by (auto split: option.splits)
  have inc: "keys_increase Compare (map fst ms)" using assms(1) by (simp add: merged_def)
  show ?thesis
  proof (cases "sel d P (map fst ms)")
    case None
    then show ?thesis using top all_some_at s by (auto simp: MI_rel_def)
  next
    case (Some c)
    then have c: "c < length ms" "P (fst (ms ! c))" "\<And>k. k \<in> set (map fst ms) \<Longrightarrow> P k \<Longrightarrow> k = fst (ms ! c) \<or> bef Compare d (fst (ms ! c)) k"
      unfolding sel_Some [OF inc] by auto
    have eq: "P k = from_key Compare d (fst (ms ! c)) k" if "s \<in> set srcs" "k \<in> set (keys_in s)" for s k
    proof -
      have k: "k \<in> set (map fst ms)" using that merged_distinct(3) [OF assms(1)] by auto
      show ?thesis
        using c(3) [OF k] bef_asym [of d "fst (ms ! c)" k] assms(3) [OF c(2), of k] bef_total [OF inc, of k "fst (ms ! c)" d] k c(1,2)
        by (cases "k = fst (ms ! c)") (auto simp: from_key_def)
    qed
    have "all_at srcs d (from_key Compare d (fst (ms ! c))) (mi_children m)"
      using all_at_cong [of srcs d P "mi_children m" "from_key Compare d (fst (ms ! c))"] s eq by blast
    then show ?thesis
      using s c(1) Some by (cases d) (auto simp: MI_rel_def settled_def dir_heap_def intro: all_some_at)
  qed
qed

text \<open>The loops over all children settle the iterator.\<close>

lemma to_dir_settled:
  assumes "length (mi_children m) = length srcs"
    "\<And>j. j < length srcs \<Longrightarrow> \<exists>w. f j (mi_children m ! j) = Some w \<and> child (srcs ! j) (sel d P (keys_in (srcs ! j))) w"
  shows "\<exists>m' h. to_dir d Compare f m = Some m' \<and> settled srcs d P m' h \<and> mi_current m' = mi_current m \<and> prefix_seek_mode m' = prefix_seek_mode m"
proof -
  let ?G = "\<lambda>h. move_children f (heap_lt Compare d) [0..<length (mi_children m)] (mi_children m) h"
  let ?Q = "\<lambda>j. child (srcs ! j) (sel d P (keys_in (srcs ! j)))"
  have sp: "\<exists>cs' h'. ?G h = Some (cs', h') \<and> length cs' = length (mi_children m) \<and> (\<forall>j < length (mi_children m). ?Q j (cs' ! j)) \<and>
      heap_ok (heap_lt Compare d cs') h' \<and> holds_valid cs' h'" if "hp_data h = []" for h
    by (rule move_children_spec [of "mi_children m" f ?Q h d]) (use assms that in auto)
  have "?G h = Some (the (?G h))" if "hp_data h = []" for h using sp [OF that] by auto
  then obtain m' h h' where m: "to_dir d Compare f m = Some m'" "hp_data h = []" "the (?G h) = (mi_children m', h')" "dir_heap d m' = Some h'"
      "mi_direction m' = d" "mi_current m' = mi_current m" "prefix_seek_mode m' = prefix_seek_mode m"
    using to_dir_spec [of f Compare d m "\<lambda>h. the (?G h)"] by blast
  have "settled srcs d P m' h'" using sp [OF m(2)] m(3-5) assms(1) by (auto simp: settled_def all_at_def)
  then show ?thesis using m(1,6,7) by blast
qed

end

lemma holds_valid_iff: "holds_valid cs h \<longleftrightarrow> mset (hp_data h) = mset_set {j. j < length cs \<and> w_valid (cs ! j)}"
proof -
  have "mset (filter (\<lambda>j. w_valid (cs ! j)) [0..<length cs]) = filter_mset (\<lambda>j. w_valid (cs ! j)) (mset_set {0..<length cs})"
    by (simp only: mset_filter mset_upt)
  also have "\<dots> = mset_set {j \<in> {0..<length cs}. w_valid (cs ! j)}" by (simp add: filter_mset_mset_set)
  also have "{j \<in> {0..<length cs}. w_valid (cs ! j)} = {j. j < length cs \<and> w_valid (cs ! j)}" by auto
  finally show ?thesis by (simp add: holds_valid_def)
qed

lemma holds_valid_update:
  assumes "holds_valid cs h" "hp_data h = j # xs" "mset (hp_data h') = (if w_valid w then add_mset j (mset xs) else mset xs)"
  shows "holds_valid (cs[j := w]) h'" "j < length cs" "j \<notin> set xs"
proof -
  let ?V = "{l. l < length cs \<and> w_valid (cs ! l)}"
  have V: "finite ?V" "add_mset j (mset xs) = mset_set ?V" using assms(1,2) by (auto simp: holds_valid_iff)
  then have "set_mset (add_mset j (mset xs)) = ?V" by simp
  then have j: "j \<in> ?V" by auto
  then show jl: "j < length cs" by simp
  have "mset_set ?V = add_mset j (mset_set (?V - {j}))" using mset_set.remove [OF V(1) j] by simp
  then have xs: "mset xs = mset_set (?V - {j})" using V(2) by simp
  then have "set_mset (mset xs) = ?V - {j}" using V(1) by simp
  then show "j \<notin> set xs" by auto
  have "{l. l < length (cs[j := w]) \<and> w_valid (cs[j := w] ! l)} = (if w_valid w then ?V else ?V - {j})"
    using j by (auto simp: nth_list_update)
  then show "holds_valid (cs[j := w]) h'"
    using assms(3) V(2) xs by (simp add: holds_valid_iff)
qed

context comparator
begin

text \<open>The heap after the child at its top has moved.\<close>

lemma heap_advance:
  assumes "heap_ok (heap_lt Compare d cs) h" "holds_valid cs h" "heap_top h = Some cur"
  shows "\<exists>h'. (if w_valid w then heap_replace_top (heap_lt Compare d (cs[cur := w])) cur h else heap_pop (heap_lt Compare d (cs[cur := w])) h) = Some h' \<and>
    heap_ok (heap_lt Compare d (cs[cur := w])) h' \<and> holds_valid (cs[cur := w]) h'"
proof -
  let ?lt = "heap_lt Compare d (cs[cur := w])"
  obtain xs where xs: "hp_data h = cur # xs" using assms(3) by (cases "hp_data h") (auto simp: heap_top_def heap_empty_def split: if_splits)
  have nin: "cur \<notin> set xs"
    using holds_valid_update(3) [of cs h cur xs "if w_valid w then h\<lparr>hp_data := cur # xs\<rparr> else h\<lparr>hp_data := xs\<rparr>" w] assms(2) xs by simp
  have eq: "?lt a b = heap_lt Compare d cs a b" if ab: "a \<in> set xs" "b \<in> set xs" for a b
  proof (rule heap_lt_cong)
    have "cur \<noteq> a" "cur \<noteq> b" using ab nin by auto
    then show "cs[cur := w] ! a = cs ! a" "cs[cur := w] ! b = cs ! b" by simp_all
  qed
  note b = below_root [of "heap_lt Compare d cs" h cur xs ?lt, OF assms(1) xs eq]
  obtain h' where h': "(if w_valid w then heap_replace_top ?lt cur h else heap_pop ?lt h) = Some h'" "heap_ok ?lt h'"
      "mset (hp_data h') = (if w_valid w then add_mset cur (mset xs) else mset xs)"
    using iter_order.replace_top_ok [of h cur xs d "cs[cur := w]", OF xs b] iter_order.pop_ok [of h cur xs d "cs[cur := w]", OF xs b]
    by (cases "w_valid w") auto
  then show ?thesis using holds_valid_update(1) [of cs h cur xs h' w] assms(2) xs by blast
qed

end

context internal_iterator
begin

lemma settled_top:
  assumes "merged Compare (map entries_in srcs) ms" "settled srcs d (from_key Compare d (fst (ms ! c))) m h" "c < length ms"
  obtains j i where "heap_top h = Some j" "j < length srcs" "i < length (entries_in (srcs ! j))" "entries_in (srcs ! j) ! i = ms ! c"
    "child (srcs ! j) (Some i) (mi_children m ! j)"
proof -
  note s = assms(2) [unfolded settled_def]
  have "keys_increase Compare (map fst ms)" using assms(1) by (simp add: merged_def)
  then have "sel d (from_key Compare d (fst (ms ! c))) (map fst ms) = Some c"
    using sel_from_key [of "map fst ms" c d] assms(3) by simp
  then obtain j i where ji: "heap_top h = Some j" "j < length srcs" "i < length (entries_in (srcs ! j))"
      "sel d (from_key Compare d (fst (ms ! c))) (keys_in (srcs ! j)) = Some i" "entries_in (srcs ! j) ! i = ms ! c"
    using top_entry [OF assms(1), of d "from_key Compare d (fst (ms ! c))" "mi_children m" h] s from_key_closed by force
  then have "child (srcs ! j) (Some i) (mi_children m ! j)" using s by (metis all_at_def)
  then show ?thesis using that ji by blast
qed

lemma all_at_advance:
  assumes "merged Compare (map entries_in srcs) ms" "all_at srcs d (from_key Compare d (fst (ms ! c))) cs"
    "cur < length srcs" "ms ! c \<in> set (entries_in (srcs ! cur))" "child (srcs ! cur) (sel d (bef Compare d (fst (ms ! c))) (keys_in (srcs ! cur))) w"
  shows "all_at srcs d (bef Compare d (fst (ms ! c))) (cs[cur := w])"
  unfolding all_at_def
proof (intro conjI allI impI)
  let ?k = "fst (ms ! c)"
  show "length (cs[cur := w]) = length srcs" using assms(2) by (simp add: all_at_def)
  fix j
  assume j: "j < length srcs"
  show "child (srcs ! j) (sel d (bef Compare d ?k) (keys_in (srcs ! j))) (cs[cur := w] ! j)"
  proof (cases "j = cur")
    case True
    then show ?thesis using assms(2,5) j by (simp add: all_at_def)
  next
    case False
    have "sel d (from_key Compare d ?k) (keys_in (srcs ! j)) = sel d (bef Compare d ?k) (keys_in (srcs ! j))"
    proof (rule sel_cong)
      fix k
      assume "k \<in> set (keys_in (srcs ! j))"
      then obtain e where e: "e \<in> set (entries_in (srcs ! j))" "fst e = k" by auto
      show "from_key Compare d ?k k = bef Compare d ?k k"
        using merged_bef [OF assms(1), of cur j "ms ! c" e d] assms(3,4) j e False by auto
    qed
    then show ?thesis using assms(2) j False by (metis all_at_def nth_list_update_neq)
  qed
qed

lemma advance_spec:
  assumes "merged Compare (map entries_in srcs) ms" "settled srcs d (from_key Compare d (fst (ms ! c))) m h" "c < length ms" "heap_top h = Some cur"
  shows "\<exists>m' h'. advance ops Compare d cur m = Some (m'\<lparr>mi_current := heap_top h'\<rparr>) \<and> settled srcs d (bef Compare d (fst (ms ! c))) m' h'"
proof -
  let ?k = "fst (ms ! c)" and ?cs = "mi_children m"
  note s = assms(2) [unfolded settled_def]
  obtain i where cur: "cur < length srcs" "i < length (entries_in (srcs ! cur))" "entries_in (srcs ! cur) ! i = ms ! c" "child (srcs ! cur) (Some i) (?cs ! cur)"
    using settled_top [OF assms(1-3)] assms(4) by (metis option.inject)
  have inc: "keys_increase Compare (keys_in (srcs ! cur))" using cur(4) sorted_entries by (auto simp: child_at_def)
  obtain w where w: "W_move ops (step_op d) (?cs ! cur) = Some w" "child (srcs ! cur) (sel d (bef Compare d ?k) (keys_in (srcs ! cur))) w"
    using child_move [OF cur(4), of "step_op d"] cursor_next [OF inc, of i d] cur(2,3) by auto
  have "ms ! c \<in> set (entries_in (srcs ! cur))" using nth_mem [OF cur(2)] cur(3) by simp
  then have all: "all_at srcs d (bef Compare d ?k) (?cs[cur := w])" using all_at_advance [OF assms(1) _ cur(1) _ w(2)] s by blast
  obtain h' where h': "(if w_valid w then heap_replace_top (heap_lt Compare d (?cs[cur := w])) cur h else heap_pop (heap_lt Compare d (?cs[cur := w])) h) = Some h'"
      "heap_ok (heap_lt Compare d (?cs[cur := w])) h'" "holds_valid (?cs[cur := w]) h'"
    using heap_advance [of d ?cs h cur w] s assms(4) by blast
  define m' where "m' = (case d of kForward \<Rightarrow> m\<lparr>mi_children := ?cs[cur := w], minHeap := h'\<rparr> | kReverse \<Rightarrow> m\<lparr>mi_children := ?cs[cur := w], maxHeap := Some h'\<rparr>)"
  have st: "settled srcs d (bef Compare d ?k) m' h'"
    using s all h'(2,3) by (cases d) (auto simp: settled_def m'_def dir_heap_def)
  have "advance ops Compare d cur m = set_current d m'"
    using s assms(4) w(1) h'(1) by (cases d) (auto simp: advance_def CurrentForward_def CurrentReverse_def dir_heap_def m'_def)
  then show ?thesis using set_current_spec [of m' d h'] st by (auto simp: settled_def)
qed


lemma seek_settles:
  assumes "merged Compare (map entries_in srcs) ms" "some_at srcs (mi_children m)" "op \<noteq> OpNext" "op \<noteq> OpPrev"
    "\<And>ks c. cursor_step Compare ks op c = sel d P ks" "\<And>k k'. P k \<Longrightarrow> bef Compare d k k' \<Longrightarrow> P k'"
  shows "\<exists>m'. do { m \<leftarrow> to_dir d Compare (\<lambda>i. W_move ops op) m; set_current d m } = Some m' \<and> MI_rel srcs ms (cursor_step Compare (map fst ms) op c) m'"
proof -
  have len: "length (mi_children m) = length srcs" using assms(2) by (simp add: some_at_def)
  have "\<exists>w. W_move ops op (mi_children m ! j) = Some w \<and> child (srcs ! j) (sel d P (keys_in (srcs ! j))) w" if j: "j < length srcs" for j
  proof -
    obtain p where "child (srcs ! j) p (mi_children m ! j)" using assms(2) j by (auto simp: some_at_def)
    then show ?thesis using child_move [of "srcs ! j" p "mi_children m ! j" op] assms(3-5) by auto
  qed
  then obtain m' h where m: "to_dir d Compare (\<lambda>i. W_move ops op) m = Some m'" "settled srcs d P m' h"
    using to_dir_settled [OF len, of "\<lambda>i. W_move ops op" d P] by blast
  then show ?thesis
    using settle [OF assms(1) m(2) assms(6)] set_current_spec [of m' d h] assms(5) by (simp add: settled_def)
qed

text \<open>The other children of a valid iterator hold no entry with the current key.\<close>

lemma other_source:
  assumes "merged Compare (map entries_in srcs) ms" "cur < length srcs" "e \<in> set (entries_in (srcs ! cur))" "j < length srcs" "j \<noteq> cur" "k \<in> set (keys_in (srcs ! j))"
  shows "bef Compare d (fst e) k \<or> bef Compare d k (fst e)" "Compare (fst e) k \<noteq> 0"
proof -
  obtain e' where e: "e' \<in> set (entries_in (srcs ! j))" "fst e' = k" using assms(6) by auto
  show b: "bef Compare d (fst e) k \<or> bef Compare d k (fst e)" for d
    using merged_bef [OF assms(1), of cur j e e' d] e assms(2-5) by (auto simp: from_key_def)
  show "Compare (fst e) k \<noteq> 0" using b [of kForward] compare_flip [of k "fst e"] by auto
qed

lemma next_child_spec:
  assumes "child s p w" "\<And>k. k \<in> set (keys_in s) \<Longrightarrow> Compare key k \<noteq> 0" "j \<noteq> cur"
  shows "\<exists>w'. next_child ops Compare cur key j w = Some w' \<and> child s (sel kForward (from_key Compare kForward key) (keys_in s)) w'"
proof -
  obtain w' where w: "W_move ops (OpSeek key) w = Some w'" "child s (sel kForward (from_key Compare kForward key) (keys_in s)) w'"
    using child_move [OF assms(1), of "OpSeek key"] cursor_seek [of "keys_in s" kForward key p] by (auto simp: seek_op_def)
  have "Compare key (w_key w') \<noteq> 0" if v: "w_valid w'"
    using child_sel [OF w(2) v] assms(2) by (metis image_eqI list.set_map nth_mem)
  then show ?thesis using w assms(3) by (auto simp: next_child_def)
qed

lemma before_first:
  assumes "keys_increase Compare ks" "\<And>k. k \<in> set ks \<Longrightarrow> bef Compare kReverse key k \<or> bef Compare kReverse k key"
    "sel kForward (from_key Compare kForward key) ks = Some i" "k \<in> set ks"
  shows "bef Compare kReverse (ks ! i) k \<longleftrightarrow> from_key Compare kReverse key k"
proof -
  have i: "from_key Compare kForward key (ks ! i)" "\<And>k. k \<in> set ks \<Longrightarrow> from_key Compare kForward key k \<Longrightarrow> k = ks ! i \<or> bef Compare kForward (ks ! i) k"
    using assms(3) unfolding sel_Some [OF assms(1)] by auto
  show ?thesis
    using i(1) i(2) [OF assms(4)] assms(2) [OF assms(4)] compare_less_le_trans [of k key "ks ! i"] compare_le_flip [of key "ks ! i"]
      compare_flip [of k "ks ! i"] compare_flip [of "ks ! i" k] compare_flip [of k key] compare_flip [of key k]
    by (auto simp: from_key_def)
qed

lemma prev_child_spec:
  assumes "child s p w" "\<And>d k. k \<in> set (keys_in s) \<Longrightarrow> bef Compare d key k \<or> bef Compare d k key" "\<And>k. k \<in> set (keys_in s) \<Longrightarrow> Compare key k \<noteq> 0" "j \<noteq> cur"
  shows "\<exists>w'. prev_child ops Compare pm cur key j w = Some w' \<and> child s (sel kReverse (from_key Compare kReverse key) (keys_in s)) w'"
proof (cases pm)
  case True
  obtain w' where w: "W_move ops (OpSeekForPrev key) w = Some w'" "child s (sel kReverse (from_key Compare kReverse key) (keys_in s)) w'"
    using child_move [OF assms(1), of "OpSeekForPrev key"] cursor_seek [of "keys_in s" kReverse key p] by (auto simp: seek_op_def)
  have "Compare key (w_key w') \<noteq> 0" if v: "w_valid w'"
    using child_sel [OF w(2) v] assms(3) by (metis image_eqI list.set_map nth_mem)
  then show ?thesis using True w assms(4) by (auto simp: prev_child_def)
next
  case False
  obtain w' where w: "W_move ops (OpSeek key) w = Some w'" "child s (sel kForward (from_key Compare kForward key) (keys_in s)) w'"
    using child_move [OF assms(1), of "OpSeek key"] cursor_seek [of "keys_in s" kForward key p] by (auto simp: seek_op_def)
  have inc: "keys_increase Compare (keys_in s)" using assms(1) sorted_entries by (auto simp: child_at_def)
  have "\<exists>w''. W_move ops (if w_valid w' then OpPrev else OpSeekToLast) w' = Some w'' \<and>
      child s (sel kReverse (from_key Compare kReverse key) (keys_in s)) w''"
  proof (cases "w_valid w'")
    case True
    then obtain i where i: "sel kForward (from_key Compare kForward key) (keys_in s) = Some i" "i < length (keys_in s)"
      using child_sel [OF w(2)] by (metis length_map)
    have "cursor_step Compare (keys_in s) OpPrev (Some i) = sel kReverse (bef Compare kReverse (keys_in s ! i)) (keys_in s)"
      using cursor_next [OF inc i(2), of kReverse] by (simp add: step_op_def)
    also have "\<dots> = sel kReverse (from_key Compare kReverse key) (keys_in s)"
      by (rule sel_cong) (rule before_first [OF inc assms(2) i(1)])
    finally show ?thesis using child_move [OF w(2), of OpPrev] i(1) True by simp
  next
    case False
    then have "sel kForward (from_key Compare kForward key) (keys_in s) = None" using w(2) by (simp add: child_at_def)
    then have no: "bef Compare kForward k key" if "k \<in> set (keys_in s)" for k using that by (auto simp: sel_None from_key_def)
    have "from_key Compare kReverse key k" if "k \<in> set (keys_in s)" for k
      using no [OF that] compare_flip [of k key] by (simp add: from_key_def)
    then have "sel kReverse (\<lambda>_. True) (keys_in s) = sel kReverse (from_key Compare kReverse key) (keys_in s)"
      by (intro sel_cong) blast
    then show ?thesis
      using child_move [OF w(2), of OpSeekToLast] cursor_end [of "keys_in s" kReverse] False by (simp add: end_op_def)
  qed
  then show ?thesis using False w(1) assms(4) by (simp add: prev_child_def)
qed


lemma MI_rel_at:
  assumes "merged Compare (map entries_in srcs) ms" "MI_rel srcs ms (Some c) m"
  obtains cur i h where "mi_current m = Some cur" "cur < length srcs" "i < length (entries_in (srcs ! cur))" "entries_in (srcs ! cur) ! i = ms ! c"
    "child (srcs ! cur) (Some i) (mi_children m ! cur)" "c < length ms" "heap_top h = Some cur"
    "settled srcs (mi_direction m) (from_key Compare (mi_direction m) (fst (ms ! c))) m h"
proof -
  obtain h where h: "c < length ms" "settled srcs (mi_direction m) (from_key Compare (mi_direction m) (fst (ms ! c))) m h" "mi_current m = heap_top h"
    using assms(2) by (auto simp: MI_rel_def)
  show ?thesis by (rule settled_top [OF assms(1) h(2,1)]) (use that h in auto)
qed

text \<open>The children other than the current one are moved past it; the current one stays, and is the top.\<close>

lemma switch_spec:
  assumes "merged Compare (map entries_in srcs) ms" "MI_rel srcs ms (Some c) m" "mi_current m = Some cur"
    "\<And>w. f cur w = Some w"
    "\<And>j p w. j < length srcs \<Longrightarrow> j \<noteq> cur \<Longrightarrow> child (srcs ! j) p w \<Longrightarrow>
       \<exists>w'. f j w = Some w' \<and> child (srcs ! j) (sel d (from_key Compare d (fst (ms ! c))) (keys_in (srcs ! j))) w'"
  shows "\<exists>m' h. to_dir d Compare f m = Some m' \<and> settled srcs d (from_key Compare d (fst (ms ! c))) m' h \<and>
    heap_top h = Some cur \<and> mi_current m' = Some cur \<and> prefix_seek_mode m' = prefix_seek_mode m"
proof -
  let ?P = "from_key Compare d (fst (ms ! c))"
  have some: "some_at srcs (mi_children m)" using assms(2) by (simp add: MI_rel_def)
  then have len: "length (mi_children m) = length srcs" by (simp add: some_at_def)
  obtain i where cur: "cur < length srcs" "i < length (entries_in (srcs ! cur))" "entries_in (srcs ! cur) ! i = ms ! c"
      "child (srcs ! cur) (Some i) (mi_children m ! cur)" and c: "c < length ms"
    using MI_rel_at [OF assms(1,2)] assms(3) by (metis option.inject)
  have "keys_increase Compare (keys_in (srcs ! cur))" using cur(4) sorted_entries by (auto simp: child_at_def)
  then have self: "sel d ?P (keys_in (srcs ! cur)) = Some i" using sel_from_key [of "keys_in (srcs ! cur)" i d] cur(2,3) by simp
  have "\<exists>w'. f j (mi_children m ! j) = Some w' \<and> child (srcs ! j) (sel d ?P (keys_in (srcs ! j))) w'" if j: "j < length srcs" for j
  proof (cases "j = cur")
    case True
    then show ?thesis using assms(4) cur(4) self by simp
  next
    case False
    obtain p where "child (srcs ! j) p (mi_children m ! j)" using some j by (auto simp: some_at_def)
    then show ?thesis using assms(5) [OF j False] by blast
  qed
  then obtain m' h where m: "to_dir d Compare f m = Some m'" "settled srcs d ?P m' h" "mi_current m' = mi_current m" "prefix_seek_mode m' = prefix_seek_mode m"
    using to_dir_settled [OF len, of f d ?P] by blast
  obtain j l where j: "heap_top h = Some j" "j < length srcs" "l < length (entries_in (srcs ! j))" "entries_in (srcs ! j) ! l = ms ! c"
    using settled_top [OF assms(1) m(2) c] by metis
  have "j = cur"
    using merged_unique [OF assms(1), of j cur "ms ! c" "ms ! c"] j cur(1-3) nth_mem [OF j(3)] nth_mem [OF cur(2)] by simp
  then show ?thesis using m j(1) assms(3) by auto
qed

lemma advance_rel:
  assumes "merged Compare (map entries_in srcs) ms" "settled srcs d (from_key Compare d (fst (ms ! c))) m h" "c < length ms" "heap_top h = Some cur"
  shows "\<exists>m'. advance ops Compare d cur m = Some m' \<and> MI_rel srcs ms (cursor_step Compare (map fst ms) (step_op d) (Some c)) m'"
proof -
  let ?P = "bef Compare d (fst (ms ! c))"
  obtain m' h' where m': "advance ops Compare d cur m = Some (m'\<lparr>mi_current := heap_top h'\<rparr>)" "settled srcs d ?P m' h'"
    using advance_spec [OF assms] by blast
  have "cursor_step Compare (map fst ms) (step_op d) (Some c) = sel d ?P (map fst ms)"
    using cursor_next [of "map fst ms" c d] assms(1,3) by (simp add: merged_def)
  moreover have "?P k'" if "?P k" "bef Compare d k k'" for k k' using that by (rule bef_trans)
  ultimately show ?thesis using settle [OF assms(1) m'(2)] m'(1) by auto
qed

lemma MI_Next_spec:
  assumes "merged Compare (map entries_in srcs) ms" "MI_rel srcs ms (Some c) m"
  shows "\<exists>m'. MI_Next ops Compare m = Some m' \<and> MI_rel srcs ms (cursor_step Compare (map fst ms) OpNext (Some c)) m'"
proof -
  let ?k = "fst (ms ! c)"
  obtain cur i h where cur: "mi_current m = Some cur" "cur < length srcs" "i < length (entries_in (srcs ! cur))" "entries_in (srcs ! cur) ! i = ms ! c"
    "child (srcs ! cur) (Some i) (mi_children m ! cur)" "c < length ms" "heap_top h = Some cur"
    "settled srcs (mi_direction m) (from_key Compare (mi_direction m) ?k) m h"
    by (rule MI_rel_at [OF assms])
  have key: "w_key (mi_children m ! cur) = ?k" using cur(4,5) by (simp add: child_at_def)
  have e: "ms ! c \<in> set (entries_in (srcs ! cur))" using nth_mem [OF cur(3)] cur(4) by simp
  let ?sw = "if mi_direction m \<noteq> kForward then to_dir kForward Compare (next_child ops Compare cur ?k) m else Some m"
  obtain m1 h1 where m1: "?sw = Some m1" "settled srcs kForward (from_key Compare kForward ?k) m1 h1" "heap_top h1 = Some cur"
  proof (cases "mi_direction m = kForward")
    case True
    then show ?thesis using that cur(7,8) by simp
  next
    case False
    have "\<exists>m' h. to_dir kForward Compare (next_child ops Compare cur ?k) m = Some m' \<and> settled srcs kForward (from_key Compare kForward ?k) m' h \<and>
        heap_top h = Some cur \<and> mi_current m' = Some cur \<and> prefix_seek_mode m' = prefix_seek_mode m"
      by (rule switch_spec [OF assms cur(1)])
        (use next_child_spec other_source(2) [OF assms(1) cur(2) e] in \<open>auto simp: next_child_def\<close>)
    then show ?thesis using that False by auto
  qed
  have "MI_Next ops Compare m = advance ops Compare kForward cur m1"
    by (simp only: MI_Next_eq cur(1) Option.bind.bind_lunit key m1(1))
  then show ?thesis using advance_rel [OF assms(1) m1(2) cur(6) m1(3)] by (simp add: step_op_def)
qed

lemma MI_Prev_spec:
  assumes "merged Compare (map entries_in srcs) ms" "MI_rel srcs ms (Some c) m"
  shows "\<exists>m'. MI_Prev ops Compare m = Some m' \<and> MI_rel srcs ms (cursor_step Compare (map fst ms) OpPrev (Some c)) m'"
proof -
  let ?k = "fst (ms ! c)"
  obtain cur i h where cur: "mi_current m = Some cur" "cur < length srcs" "i < length (entries_in (srcs ! cur))" "entries_in (srcs ! cur) ! i = ms ! c"
    "child (srcs ! cur) (Some i) (mi_children m ! cur)" "c < length ms" "heap_top h = Some cur"
    "settled srcs (mi_direction m) (from_key Compare (mi_direction m) ?k) m h"
    by (rule MI_rel_at [OF assms])
  have key: "w_key (mi_children m ! cur) = ?k" using cur(4,5) by (simp add: child_at_def)
  have e: "ms ! c \<in> set (entries_in (srcs ! cur))" using nth_mem [OF cur(3)] cur(4) by simp
  let ?sw = "if mi_direction m \<noteq> kReverse
    then do { m \<leftarrow> to_dir kReverse Compare (prev_child ops Compare (prefix_seek_mode m) cur ?k) m;
              if \<not> prefix_seek_mode m then set_current kReverse m else Some m }
    else Some m"
  obtain m1 h1 where m1: "?sw = Some m1" "settled srcs kReverse (from_key Compare kReverse ?k) m1 h1" "heap_top h1 = Some cur" "mi_current m1 = Some cur"
  proof (cases "mi_direction m = kReverse")
    case True
    then show ?thesis using that cur(1,7,8) by simp
  next
    case False
    have "\<exists>m' h. to_dir kReverse Compare (prev_child ops Compare (prefix_seek_mode m) cur ?k) m = Some m' \<and>
        settled srcs kReverse (from_key Compare kReverse ?k) m' h \<and>
        heap_top h = Some cur \<and> mi_current m' = Some cur \<and> prefix_seek_mode m' = prefix_seek_mode m"
      by (rule switch_spec [OF assms cur(1)])
        (use prev_child_spec other_source [OF assms(1) cur(2) e] in \<open>auto simp: prev_child_def\<close>)
    then obtain m' h' where m': "to_dir kReverse Compare (prev_child ops Compare (prefix_seek_mode m) cur ?k) m = Some m'"
        "settled srcs kReverse (from_key Compare kReverse ?k) m' h'" "heap_top h' = Some cur" "mi_current m' = Some cur" by blast
    have "mi_direction m' = kReverse" "dir_heap kReverse m' = Some h'" using m'(2) by (simp_all add: settled_def)
    then have "set_current kReverse m' = Some m'" using set_current_spec [of m' kReverse h'] m'(3,4) by simp
    then show ?thesis using that [OF _ m'(2,3,4)] m'(1) False by simp
  qed
  have "MI_Prev ops Compare m = advance ops Compare kReverse cur m1"
    by (simp only: MI_Prev_eq cur(1) Option.bind.bind_lunit key m1(1,4))
  then show ?thesis using advance_rel [OF assms(1) m1(2) cur(6) m1(3)] by (simp add: step_op_def)
qed

lemma MI_move_spec:
  assumes "merged Compare (map entries_in srcs) ms" "MI_rel srcs ms c m" "op = OpNext \<or> op = OpPrev \<Longrightarrow> c \<noteq> None"
  shows "\<exists>m'. MI_move ops Compare op m = Some m' \<and> MI_rel srcs ms (cursor_step Compare (map fst ms) op c) m'"
proof -
  have some: "some_at srcs (mi_children m)" using assms(2) by (simp add: MI_rel_def)
  have fin: "\<exists>m'. do { m \<leftarrow> to_dir d Compare (\<lambda>i. W_move ops op) m; set_current d m } = Some m' \<and> MI_rel srcs ms (cursor_step Compare (map fst ms) op c) m'"
    if "op = end_op d \<or> op = seek_op d t" for d t
  proof (cases "op = end_op d")
    case True
    show ?thesis
      by (rule seek_settles [OF assms(1) some, where P = "\<lambda>_. True"]) (use True cursor_end in \<open>auto simp: end_op_def split: Direction.splits\<close>)
  next
    case False
    then have op: "op = seek_op d t" using that by blast
    show ?thesis
      by (rule seek_settles [OF assms(1) some, where P = "from_key Compare d t"])
        (use op cursor_seek from_key_closed in \<open>auto simp: seek_op_def split: Direction.splits\<close>)
  qed
  show ?thesis
  proof (cases op)
    case OpSeekToFirst
    then show ?thesis using fin [of kForward] by (simp add: end_op_def MI_SeekToFirst_def to_dir_def set_current_def)
  next
    case OpSeekToLast
    then show ?thesis using fin [of kReverse] by (simp add: end_op_def MI_SeekToLast_def to_dir_def set_current_def)
  next
    case (OpSeek t)
    then show ?thesis using fin [of kForward t] by (simp add: seek_op_def MI_Seek_def to_dir_def set_current_def)
  next
    case (OpSeekForPrev t)
    then show ?thesis using fin [of kReverse t] by (simp add: seek_op_def MI_SeekForPrev_def to_dir_def set_current_def)
  next
    case OpNext
    then show ?thesis using assms(2,3) MI_Next_spec [OF assms(1), of _ m] by (cases c) auto
  next
    case OpPrev
    then show ?thesis using assms(2,3) MI_Prev_spec [OF assms(1), of _ m] by (cases c) auto
  qed
qed

lemma MI_rel_reads:
  assumes "merged Compare (map entries_in srcs) ms" "MI_rel srcs ms c m"
  shows "MI_Valid m \<longleftrightarrow> c \<noteq> None" "c = Some i \<Longrightarrow> i < length ms \<and> MI_key m = Some (fst (ms ! i)) \<and> MI_value ops m = Some (snd (ms ! i))"
    "ok (MI_status ops m)"
proof -
  show "MI_Valid m \<longleftrightarrow> c \<noteq> None"
  proof (cases c)
    case (Some i)
    then show ?thesis using MI_rel_at [OF assms(1), of i m] assms(2) by (auto simp: MI_Valid_def)
  qed (use assms(2) in \<open>simp add: MI_rel_def MI_Valid_def\<close>)
  show "i < length ms \<and> MI_key m = Some (fst (ms ! i)) \<and> MI_value ops m = Some (snd (ms ! i))" if "c = Some i"
  proof (rule MI_rel_at [OF assms(1), of i m])
    show "MI_rel srcs ms (Some i) m" using assms(2) that by simp
    fix cur l
    assume a: "mi_current m = Some cur" "entries_in (srcs ! cur) ! l = ms ! i" "child (srcs ! cur) (Some l) (mi_children m ! cur)" "i < length ms"
    then have "rel (srcs ! cur) (Some l) (w_iter (mi_children m ! cur))" "w_key (mi_children m ! cur) = fst (ms ! i)" by (auto simp: child_at_def)
    then show ?thesis using a at_entry by (simp add: MI_key_def MI_value_def)
  qed
  have first: "ok (first_error ss s)" if "ok s" "\<forall>t \<in> set ss. ok t" for ss s using that by (induction ss arbitrary: s) auto
  have "ok (io_status ops (w_iter w))" if "w \<in> set (mi_children m)" for w
    using that assms(2) no_error by (fastforce simp: MI_rel_def some_at_def child_at_def in_set_conv_nth)
  then show "ok (MI_status ops m)" unfolding MI_status_def by (intro first) auto
qed

end

section \<open>A merging iterator is an internal iterator\<close>

lemma sorted_unique:
  assumes "sorted_wrt R xs" "sorted_wrt R ys" "mset xs = mset ys" "\<And>a b. R a b \<Longrightarrow> \<not> R b a"
  shows "xs = ys"
  using assms(1-3)
proof (induction xs arbitrary: ys)
  case (Cons x xs)
  then obtain y ys' where ys: "ys = y # ys'" by (cases ys) auto
  have "x = y"
  proof (rule ccontr)
    assume "x \<noteq> y"
    then have "x \<in> set ys'" "y \<in> set xs" using mset_eq_setD [OF Cons.prems(3)] ys by auto
    then show False using Cons.prems(1,2) ys assms(4) by auto
  qed
  then show ?case using Cons ys by auto
qed simp

text \<open>A new merging iterator whose children are not valid yet.\<close>

definition fresh_merging :: "'it iter_ops \<Rightarrow> bool \<Rightarrow> 'it list \<Rightarrow> 'it MergingIterator" where
  "fresh_merging ops pm its = \<lparr>mi_children = map (W_Set ops) its, mi_current = None, mi_direction = kForward,
     minHeap = BinaryHeap_make, maxHeap = None, prefix_seek_mode = pm\<rparr>"

lemma move_invalid:
  "\<forall>i \<in> set is. \<not> w_valid (cs ! i) \<Longrightarrow> move_children (\<lambda>i w. Some w) lt is cs h = Some (cs, h)"
  by (induction "is" arbitrary: h) (simp_all add: Let_def)

lemma MI_make_fresh:
  assumes "\<forall>it \<in> set its. \<not> io_Valid ops it"
  shows "MI_make ops cmp its pm = Some (fresh_merging ops pm its)"
proof -
  have "\<not> w_valid (W_Set ops (its ! i))" if "i < length its" for i
    using assms that by (simp add: W_Set_def W_Update_def Let_def)
  then have "move_children (\<lambda>i w. Some w) (MinIteratorLess cmp) [0..<length its] (map (W_Set ops) its) BinaryHeap_make
      = Some (map (W_Set ops) its, BinaryHeap_make)"
    by (intro move_invalid) auto
  then show ?thesis
    by (simp add: MI_make_def fresh_merging_def set_current_forward_def CurrentForward_def heap_top_def heap_empty_def BinaryHeap_make_def)
qed

context internal_iterator
begin

definition iterator_rel :: "'src list \<times> (slice \<times> slice) list \<Rightarrow> nat option \<Rightarrow> 'it InternalIterator \<Rightarrow> bool" where
  "iterator_rel s c it \<longleftrightarrow> merged Compare (map entries_in (fst s)) (snd s) \<and>
     (case it of EmptyInternalIterator st \<Rightarrow> fst s = [] \<and> c = None \<and> ok st
      | OnlyChild x \<Rightarrow> (\<exists>src. fst s = [src] \<and> rel src c x)
      | Merging m \<Rightarrow> MI_rel (fst s) (snd s) c m)"

lemma merged_only:
  assumes "merged Compare [entries_in src] ms" "rel src c x"
  shows "ms = entries_in src"
proof (rule sorted_unique)
  show "sorted_wrt (\<lambda>a b. Compare (fst a) (fst b) < 0) ms" "mset ms = mset (entries_in src)"
    using assms(1) by (simp_all add: merged_def keys_increase_def sorted_wrt_map)
  show "sorted_wrt (\<lambda>a b. Compare (fst a) (fst b) < 0) (entries_in src)"
    using sorted_entries [OF assms(2)] by (simp add: keys_increase_def sorted_wrt_map)
qed (simp add: bef_asym [of kForward, simplified])

lemma cursor_empty: "cursor_step Compare [] op None = None"
  by (cases op) auto

lemma iterator_rel_cases:
  assumes "iterator_rel s c it"
  obtains (Empty) st where "it = EmptyInternalIterator st" "snd s = []" "fst s = []" "c = None" "ok st"
  | (Only) src x where "it = OnlyChild x" "fst s = [src]" "snd s = entries_in src" "rel src c x"
  | (Merging) m where "it = Merging m" "MI_rel (fst s) (snd s) c m"
proof (cases it)
  case (EmptyInternalIterator st)
  then show ?thesis using assms Empty by (auto simp: iterator_rel_def merged_def)
next
  case (OnlyChild x)
  then show ?thesis using assms Only merged_only by (fastforce simp: iterator_rel_def)
next
  case (Merging m)
  then show ?thesis using assms that(3) by (auto simp: iterator_rel_def)
qed

lemma iterator_move:
  assumes "iterator_rel s c it" "op = OpNext \<or> op = OpPrev \<Longrightarrow> c \<noteq> None"
  shows "\<exists>it'. io_move (iterator_ops ops Compare) op it = Some it' \<and> iterator_rel s (cursor_step Compare (map fst (snd s)) op c) it'"
proof -
  have m: "merged Compare (map entries_in (fst s)) (snd s)" using assms(1) by (simp add: iterator_rel_def)
  from assms(1) show ?thesis
  proof (cases rule: iterator_rel_cases)
    case (Empty st)
    then show ?thesis using assms(2) m cursor_empty by (auto simp: iterator_ops_def empty_move_def iterator_rel_def)
  next
    case (Only src x)
    obtain x' where "io_move ops op x = Some x'" "rel src (cursor_step Compare (map fst (entries_in src)) op c) x'"
      using moves [OF Only(4), of op] seeks [OF Only(4), of op] assms(2) by blast
    then show ?thesis using Only m by (simp add: iterator_ops_def iterator_rel_def)
  next
    case (Merging x)
    obtain x' where "MI_move ops Compare op x = Some x'" "MI_rel (fst s) (snd s) (cursor_step Compare (map fst (snd s)) op c) x'"
      using MI_move_spec [OF m Merging(2), of op] assms(2) by blast
    then show ?thesis using Merging(1) m by (simp add: iterator_ops_def iterator_rel_def)
  qed
qed

lemma merging_is_internal_iterator: "internal_iterator Compare (iterator_ops ops Compare) iterator_rel snd"
proof (unfold_locales, goal_cases)
  case (1 s c it op)
  then show ?case using iterator_move by blast
next
  case (2 s c it op)
  then show ?case using iterator_move by blast
next
  case (3 s c it)
  then show ?case by (simp add: iterator_rel_def merged_def)
next
  case (4 s c it)
  then have m: "merged Compare (map entries_in (fst s)) (snd s)" by (simp add: iterator_rel_def)
  from 4 show ?case
    by (cases rule: iterator_rel_cases) (use valid_iff MI_rel_reads(1) [OF m] in \<open>auto simp: iterator_ops_def\<close>)
next
  case (5 s i it)
  then have m: "merged Compare (map entries_in (fst s)) (snd s)" by (simp add: iterator_rel_def)
  from 5 show ?case
    by (cases rule: iterator_rel_cases) (use at_entry MI_rel_reads(2) [OF m _ refl] in \<open>auto simp: iterator_ops_def\<close>)
next
  case (6 s c it)
  then have m: "merged Compare (map entries_in (fst s)) (snd s)" by (simp add: iterator_rel_def)
  from 6 show ?case
    by (cases rule: iterator_rel_cases) (use no_error MI_rel_reads(3) [OF m] in \<open>auto simp: iterator_ops_def\<close>)
qed

lemma run_refines_cursor:
  "rel s c it \<Longrightarrow> \<exists>it'. client_run ops os it = Some it' \<and> rel s (cursor_run Compare (map fst (entries_in s)) os c) it'"
proof (induction os arbitrary: c it)
  case (Cons op os)
  obtain it1 where it1: "(if (op = OpNext \<or> op = OpPrev) \<and> \<not> io_Valid ops it then Some it else io_move ops op it) = Some it1"
      "rel s (cursor_step Compare (map fst (entries_in s)) op c) it1"
  proof (cases "(op = OpNext \<or> op = OpPrev) \<and> c = None")
    case True
    then show ?thesis using valid_iff [OF Cons.prems] Cons.prems by (intro that [of it]) auto
  next
    case False
    then obtain it' where "io_move ops op it = Some it'" "rel s (cursor_step Compare (map fst (entries_in s)) op c) it'"
      using moves [OF Cons.prems, of op] seeks [OF Cons.prems, of op] by blast
    then show ?thesis using False valid_iff [OF Cons.prems] by (intro that [of it']) auto
  qed
  show ?case using Cons.IH [OF it1(2)] it1(1) by simp
qed simp

text \<open>A new iterator over children that are not valid yet.\<close>

lemma W_Set_invalid: "rel s None it \<Longrightarrow> child s None (W_Set ops it)"
  using child_Update [of s None it "\<lparr>w_iter = it, w_valid = False, w_key = []\<rparr>"] by (simp add: W_Set_def)

lemma NewMergingIterator_rel:
  assumes "merged Compare (map entries_in srcs) ms" "list_all2 (\<lambda>s it. rel s None it) srcs its"
  shows "\<exists>it. NewMergingIterator ops Compare its pm = Some it \<and> iterator_rel (srcs, ms) None it"
proof -
  have len: "length its = length srcs" using list_all2_lengthD [OF assms(2)] by simp
  have rels: "rel (srcs ! j) None (its ! j)" if "j < length srcs" for j using list_all2_nthD [OF assms(2) that] .
  then have "\<forall>it \<in> set its. \<not> io_Valid ops it" using len valid_iff by (metis in_set_conv_nth)
  note make = MI_make_fresh [OF this, of Compare pm]
  consider "length its = 0" | "length its = 1" | "1 < length its" by linarith
  then show ?thesis
  proof cases
    case 1
    then show ?thesis using assms(1) len by (simp add: NewMergingIterator_def iterator_rel_def)
  next
    case 2
    then obtain s where s: "srcs = [s]" using len by (metis One_nat_def length_0_conv length_Suc_conv)
    then show ?thesis using 2 assms(1) rels [of 0] by (simp add: NewMergingIterator_def iterator_rel_def)
  next
    case 3
    have "\<exists>p. child (srcs ! j) p (map (W_Set ops) its ! j)" if "j < length srcs" for j
      using W_Set_invalid [OF rels [OF that]] that len by auto
    then show ?thesis using 3 assms(1) make len by (auto simp: NewMergingIterator_def fresh_merging_def iterator_rel_def MI_rel_def some_at_def)
  qed
qed

end

section \<open>Merging iterators over data blocks\<close>

definition block_rel :: "(slice \<Rightarrow> slice \<Rightarrow> int) \<Rightarrow> bentry list \<times> nat list \<Rightarrow> nat option \<Rightarrow> BlockIter \<Rightarrow> bool" where
  "block_rel cmp s c it \<longleftrightarrow> layout (fst s) (snd s) \<and> fits (fst s) (snd s) \<and> keys_sorted cmp (fst s) \<and> cursor_rel (fst s) (snd s) c it"

definition block_entries :: "bentry list \<times> nat list \<Rightarrow> (slice \<times> slice) list" where
  "block_entries s = map snd (fst s)"

sublocale comparator \<subseteq> block_child: internal_iterator Compare "block_ops Compare" "block_rel Compare" block_entries
proof (unfold_locales, goal_cases)
  case (1 s c it op)
  then have "BlockIter_Valid it" using cursor_rel_valid by (auto simp: block_rel_def)
  then show ?case using 1 step_refines [of "fst s" "snd s" c it op] by (auto simp: block_rel_def block_ops_def block_entries_def)
next
  case (2 s c it op)
  then show ?case using step_refines [of "fst s" "snd s" c it op] by (auto simp: block_rel_def block_ops_def block_entries_def)
next
  case (3 s c it)
  then show ?case by (simp add: block_rel_def block_entries_def keys_sorted_def keys_increase_def sorted_wrt_map)
next
  case (4 s c it)
  then show ?case using cursor_rel_valid by (auto simp: block_rel_def block_ops_def)
next
  case (5 s i it)
  then have "at (fst s) (snd s) i it" "fits (fst s) (snd s)" by (simp_all add: block_rel_def cursor_rel_def)
  then show ?case using at_valid [of "fst s" "snd s" i it] by (simp add: block_ops_def block_entries_def at_def)
next
  case (6 s c it)
  then show ?case by (simp add: block_rel_def cursor_rel_def block_ops_def)
qed

context comparator
begin

lemma block_internal_iterator: "internal_iterator Compare (block_ops Compare) (block_rel Compare) block_entries"
  by (rule block_child.internal_iterator_axioms)

end

definition new_block_iter :: "nat \<Rightarrow> bool \<Rightarrow> (slice \<times> slice) list \<Rightarrow> BlockIter" where
  "new_block_iter interval delta es =
     Block_NewIterator True (Block_make (BuildBlock interval delta es) kDisableGlobalSequenceNumber)"

definition block_ok :: "(slice \<Rightarrow> slice \<Rightarrow> int) \<Rightarrow> nat \<Rightarrow> bool \<Rightarrow> (slice \<times> slice) list \<Rightarrow> bool" where
  "block_ok cmp interval delta es \<longleftrightarrow> sorted_wrt (\<lambda>a b. cmp (fst a) (fst b) < 0) es \<and> length (BuildBlock interval delta es) < 2 ^ 32"

lemma new_block_rel:
  assumes "1 \<le> interval" "block_ok cmp interval delta es"
  shows "\<exists>s. block_entries s = es \<and> block_rel cmp s None (new_block_iter interval delta es)"
proof -
  obtain ts rs where ts: "map snd ts = es" "layout ts rs" "BuildBlock interval delta es = block_bytes ts rs"
    using BuildBlock_layout [OF assms(1)] by metis
  have fit: "fits ts rs" using assms(2) by (simp add: block_ok_def fits_def ts(3))
  have "keys_sorted cmp ts"
    using assms(2) unfolding ts(1) [symmetric] block_ok_def by (simp add: keys_sorted_def sorted_wrt_map)
  then show ?thesis
    using NewIterator_cursor [OF ts(2) fit] ts fit by (intro exI [of _ "(ts, rs)"]) (simp add: block_entries_def block_rel_def new_block_iter_def)
qed

lemma list_all2_choice:
  assumes "\<forall>x \<in> set xs. \<exists>s. f s = h x \<and> R s (g x)"
  shows "\<exists>ss. map f ss = map h xs \<and> list_all2 R ss (map g xs)"
  using assms
proof (induction xs)
  case (Cons x xs)
  then obtain s ss where "f s = h x" "R s (g x)" "map f ss = map h xs" "list_all2 R ss (map g xs)" by auto
  then show ?case by (intro exI [of _ "s # ss"]) simp
qed simp

lemma NewMergingIterator_blocks:
  assumes "comparator cmp" "1 \<le> interval" "\<forall>es \<in> set ess. block_ok cmp interval delta es" "merged cmp ess ms"
  shows "\<exists>s it. NewMergingIterator (block_ops cmp) cmp (map (new_block_iter interval delta) ess) pm = Some it \<and>
    internal_iterator.iterator_rel cmp (block_rel cmp) block_entries (s, ms) None it"
proof -
  obtain srcs where s: "map block_entries srcs = ess" "list_all2 (\<lambda>s. block_rel cmp s None) srcs (map (new_block_iter interval delta) ess)"
    using list_all2_choice [of ess block_entries "\<lambda>es. es" "\<lambda>s. block_rel cmp s None" "new_block_iter interval delta"]
      new_block_rel [OF assms(2)] assms(3) by auto
  show ?thesis
    using internal_iterator.NewMergingIterator_rel [OF comparator.block_internal_iterator [OF assms(1)], of srcs ms] s assms(4) by blast
qed

text \<open>What a client sees of an iterator that is a cursor into \<open>ms\<close>.\<close>

definition reads :: "'it iter_ops \<Rightarrow> (slice \<times> slice) list \<Rightarrow> nat option \<Rightarrow> 'it \<Rightarrow> bool" where
  "reads ops ms c it \<longleftrightarrow> ok (io_status ops it) \<and>
     (case c of None \<Rightarrow> \<not> io_Valid ops it
      | Some i \<Rightarrow> io_Valid ops it \<and> i < length ms \<and> io_key ops it = fst (ms ! i) \<and> io_value ops it = snd (ms ! i))"

lemma run_reads:
  assumes "internal_iterator cmp ops rel entries_in" "rel s None it"
  shows "\<exists>it'. client_run ops os it = Some it' \<and> reads ops (entries_in s) (cursor_run cmp (map fst (entries_in s)) os None) it'"
proof -
  obtain it' where r: "client_run ops os it = Some it'" "rel s (cursor_run cmp (map fst (entries_in s)) os None) it'"
    using internal_iterator.run_refines_cursor [OF assms] by blast
  then show ?thesis
    using internal_iterator.no_error [OF assms(1) r(2)] internal_iterator.valid_iff [OF assms(1) r(2)] internal_iterator.at_entry [OF assms(1)]
    by (auto simp: reads_def split: option.split)
qed

section \<open>The builder\<close>



section \<open>Properties\<close>

text \<open>
  C37: whatever sequence of calls is made on a merging iterator over the iterators of any number of data blocks
  the builder wrote, none of them sharing a key, in either seek mode, it terminates without a failed
  assertion or an error and is at the entry a cursor into the sorted list of all the entries is at, with its key
  and value; changes of direction included.
\<close>

theorem merging_iterator_refines_cursor:
  assumes "comparator cmp" "1 \<le> interval" "\<forall>es \<in> set ess. block_ok cmp interval delta es" "merged cmp ess ms"
  shows "\<exists>it it'. NewMergingIterator (block_ops cmp) cmp (map (new_block_iter interval delta) ess) pm = Some it \<and>
    client_run (iterator_ops (block_ops cmp) cmp) os it = Some it' \<and>
    reads (iterator_ops (block_ops cmp) cmp) ms (cursor_run cmp (map fst ms) os None) it'"
proof -
  obtain s it where it: "NewMergingIterator (block_ops cmp) cmp (map (new_block_iter interval delta) ess) pm = Some it"
      "internal_iterator.iterator_rel cmp (block_rel cmp) block_entries (s, ms) None it"
    using NewMergingIterator_blocks [OF assms] by blast
  show ?thesis
    using run_reads [OF internal_iterator.merging_is_internal_iterator [OF comparator.block_internal_iterator [OF assms(1)]] it(2)] it(1) by auto
qed

text \<open>The hypotheses hold of three blocks, one of them empty; the calls change the direction twice.\<close>

theorem merging_iterator_refines_cursor_witness:
  "\<exists>it it'. NewMergingIterator (block_ops Bytewise_Compare) Bytewise_Compare
      (map (new_block_iter 2 True) [[([97], [1]), ([99], [3])], [], [([98], [2]), ([100], [4])]]) False = Some it \<and>
    client_run (iterator_ops (block_ops Bytewise_Compare) Bytewise_Compare) [OpSeek [98], OpNext, OpPrev, OpPrev, OpNext] it = Some it' \<and>
    io_key (iterator_ops (block_ops Bytewise_Compare) Bytewise_Compare) it' = [98] \<and>
    io_value (iterator_ops (block_ops Bytewise_Compare) Bytewise_Compare) it' = [2]"
proof -
  let ?ess = "[[([97], [1]), ([99], [3])], [], [([98], [2]), ([100], [4])]] :: (slice \<times> slice) list list"
  let ?ms = "[([97], [1]), ([98], [2]), ([99], [3]), ([100], [4])] :: (slice \<times> slice) list"
  have len: "length (BuildBlock 2 True es) < 2 ^ 32" if "es \<in> set ?ess" for es
    using that
    by (auto simp: BuildBlock_def AddAll_def Add_eq BlockBuilder_make_def BlockBuilder_Finish_def shared_with_last_def
        entry_bytes_def PutVarint32x3 EncodeVarint32_def PutFixed32_def Let_def)
  have "\<forall>es \<in> set ?ess. sorted_wrt (\<lambda>a b. Bytewise_Compare (fst a) (fst b) < 0) es" by code_simp
  then have ok: "\<forall>es \<in> set ?ess. block_ok Bytewise_Compare 2 True es" using len by (simp add: block_ok_def)
  have "keys_increase Bytewise_Compare (map fst ?ms)" unfolding keys_increase_def by code_simp
  then have m: "merged Bytewise_Compare ?ess ?ms" by (simp add: merged_def)
  have c: "cursor_run Bytewise_Compare (map fst ?ms) [OpSeek [98], OpNext, OpPrev, OpPrev, OpNext] None = Some 1" by code_simp
  have r: "io_key ops it = [98] \<and> io_value ops it = [2]" if "reads ops ?ms (Some 1) it" for ops and it :: "BlockIter InternalIterator"
    using that by (simp add: reads_def)
  show ?thesis
    using merging_iterator_refines_cursor [OF bytewise.comparator_axioms _ ok m, of False "[OpSeek [98], OpNext, OpPrev, OpPrev, OpNext]", unfolded c] r
    by fastforce
qed

text \<open>
  C38: merging iterators nest. A merging iterator over merging iterators over groups of data blocks is a cursor
  into the sorted list of all the entries, as one over the tables of a level, or over the levels of a tree, is.
\<close>

theorem merging_iterators_nest:
  assumes "comparator cmp" "1 \<le> interval" "\<forall>g \<in> set gs. merged cmp (fst g) (snd g) \<and> (\<forall>es \<in> set (fst g). block_ok cmp interval delta es)"
    "merged cmp (map snd gs) all"
  shows "\<exists>its it it'. list_all2 (\<lambda>g it. NewMergingIterator (block_ops cmp) cmp (map (new_block_iter interval delta) (fst g)) pm = Some it) gs its \<and>
    NewMergingIterator (iterator_ops (block_ops cmp) cmp) cmp its pm = Some it \<and>
    client_run (iterator_ops (iterator_ops (block_ops cmp) cmp) cmp) os it = Some it' \<and>
    reads (iterator_ops (iterator_ops (block_ops cmp) cmp) cmp) all (cursor_run cmp (map fst all) os None) it'"
proof -
  let ?rel = "internal_iterator.iterator_rel cmp (block_rel cmp) block_entries"
  let ?new = "\<lambda>g. NewMergingIterator (block_ops cmp) cmp (map (new_block_iter interval delta) (fst g)) pm"
  have inner: "\<exists>s. snd s = snd g \<and> ?new g \<noteq> None \<and> ?rel s None (the (?new g))" if g: "g \<in> set gs" for g
  proof -
    obtain s it where "?new g = Some it" "?rel (s, snd g) None it"
      using NewMergingIterator_blocks [OF assms(1,2), of "fst g" delta "snd g" pm] assms(3) g by blast
    then show ?thesis by (intro exI [of _ "(s, snd g)"]) simp
  qed
  let ?its = "map (\<lambda>g. the (?new g)) gs"
  obtain srcs where s: "map snd srcs = map snd gs" "list_all2 (\<lambda>s. ?rel s None) srcs ?its"
    using list_all2_choice [of gs snd snd "\<lambda>s. ?rel s None" "\<lambda>g. the (?new g)"] inner by blast
  note outer = internal_iterator.merging_is_internal_iterator [OF comparator.block_internal_iterator [OF assms(1)]]
  obtain it where it: "NewMergingIterator (iterator_ops (block_ops cmp) cmp) cmp ?its pm = Some it"
      "internal_iterator.iterator_rel cmp ?rel snd (srcs, all) None it"
    using internal_iterator.NewMergingIterator_rel [OF outer, of srcs all] s assms(4) by metis
  have "list_all2 (\<lambda>g it. ?new g = Some it) gs ?its"
    using inner by (simp add: list_all2_map2 list_all2_same)
  then show ?thesis
    using run_reads [OF internal_iterator.merging_is_internal_iterator [OF outer] it(2)] it(1) by auto
qed

text \<open>The hypotheses hold of two groups of one and of two blocks.\<close>

theorem merging_iterators_nest_witness:
  "\<exists>its it it'. list_all2 (\<lambda>ess it. NewMergingIterator (block_ops Bytewise_Compare) Bytewise_Compare
        (map (new_block_iter 2 True) ess) True = Some it) [[[([98], [2])]], [[([97], [1])], [([99], [3])]]] its \<and>
    NewMergingIterator (iterator_ops (block_ops Bytewise_Compare) Bytewise_Compare) Bytewise_Compare its True = Some it \<and>
    client_run (iterator_ops (iterator_ops (block_ops Bytewise_Compare) Bytewise_Compare) Bytewise_Compare) [OpSeekToFirst, OpNext] it = Some it' \<and>
    io_key (iterator_ops (iterator_ops (block_ops Bytewise_Compare) Bytewise_Compare) Bytewise_Compare) it' = [98]"
proof -
  let ?gs = "[([[([98], [2])]], [([98], [2])]), ([[([97], [1])], [([99], [3])]], [([97], [1]), ([99], [3])])]
    :: ((slice \<times> slice) list list \<times> (slice \<times> slice) list) list"
  let ?ms = "[([97], [1]), ([98], [2]), ([99], [3])] :: (slice \<times> slice) list"
  have ok: "block_ok Bytewise_Compare 2 True [e]" if "e \<in> set ?ms" for e
    using that
    by (auto simp: block_ok_def BuildBlock_def AddAll_def Add_eq BlockBuilder_make_def BlockBuilder_Finish_def shared_with_last_def
        entry_bytes_def PutVarint32x3 EncodeVarint32_def PutFixed32_def Let_def)
  have inc: "keys_increase Bytewise_Compare (map fst ?ms)" "keys_increase Bytewise_Compare [[98]]" "keys_increase Bytewise_Compare [[97], [99]]"
    unfolding keys_increase_def by code_simp+
  have gs: "\<forall>g \<in> set ?gs. merged Bytewise_Compare (fst g) (snd g) \<and> (\<forall>es \<in> set (fst g). block_ok Bytewise_Compare 2 True es)"
    using ok inc by (simp add: merged_def)
  have all: "merged Bytewise_Compare (map snd ?gs) ?ms" using inc by (simp add: merged_def)
  have c: "cursor_run Bytewise_Compare (map fst ?ms) [OpSeekToFirst, OpNext] None = Some 1" by code_simp
  have r: "io_key ops it = [98]" if "reads ops ?ms (Some 1) it" for ops and it :: "BlockIter InternalIterator InternalIterator"
    using that by (simp add: reads_def)
  obtain its it it' where
    "list_all2 (\<lambda>g it. NewMergingIterator (block_ops Bytewise_Compare) Bytewise_Compare (map (new_block_iter 2 True) (fst g)) True = Some it) ?gs its"
    "NewMergingIterator (iterator_ops (block_ops Bytewise_Compare) Bytewise_Compare) Bytewise_Compare its True = Some it"
    "client_run (iterator_ops (iterator_ops (block_ops Bytewise_Compare) Bytewise_Compare) Bytewise_Compare) [OpSeekToFirst, OpNext] it = Some it'"
    "reads (iterator_ops (iterator_ops (block_ops Bytewise_Compare) Bytewise_Compare) Bytewise_Compare) ?ms (Some 1) it'"
    using merging_iterators_nest [OF bytewise.comparator_axioms _ gs all, of True "[OpSeekToFirst, OpNext]", unfolded c] by fastforce
  then show ?thesis using r [of _ it'] by (intro exI [of _ its] exI [of _ it] exI [of _ it']) (simp add: list_all2_Cons1 del: client_run.simps list.map)
qed


end
