(* ===== verification/LRUHandleTable.thy ===== *)
theory LRUHandleTable
  imports Prelude "HOL-Library.Monad_Syntax" "HOL-Library.Multiset"
begin

unbundle bit_operations_syntax

text \<open>
  \<^verbatim>\<open>struct LRUHandle\<close> and \<^verbatim>\<open>class LRUHandleTable\<close> of \<^verbatim>\<open>cache/lru_cache.{h,cc}\<close>: the hash table of the
  block cache. Handles live in a heap, a map from addresses; a chain linked by \<open>next_hash\<close> is the list of
  the addresses on it. Reading a handle that has been freed is the value \<open>None\<close>.
\<close>

record LRUHandle =
  h_value :: nat
  h_key :: slice
  h_hash :: u32
  h_charge :: nat
  h_refs :: nat
  InCache :: bool
  IsHighPri :: bool
  InHighPriPool :: bool

type_synonym heap = "nat \<Rightarrow> LRUHandle option"

record LRUHandleTable =
  tbl_length :: nat
  tbl_elems :: nat
  tbl_list :: "nat list list"

definition bucket :: "u32 \<Rightarrow> nat \<Rightarrow> nat" where
  "bucket hash len = unat hash AND (len - 1)"

text \<open>The chain up to the slot that points to the entry, and the chain from it.\<close>

primrec find_in_chain :: "heap \<Rightarrow> slice \<Rightarrow> u32 \<Rightarrow> nat list \<Rightarrow> (nat list \<times> nat list) option" where
  "find_in_chain hp key hash [] = Some ([], [])"
| "find_in_chain hp key hash (e # es) =
     (case hp e of
        None \<Rightarrow> None
      | Some h \<Rightarrow>
          if h_hash h \<noteq> hash \<or> key \<noteq> h_key h
          then map_option (\<lambda>(a, b). (e # a, b)) (find_in_chain hp key hash es)
          else Some ([], e # es))"

definition FindPointer :: "heap \<Rightarrow> slice \<Rightarrow> u32 \<Rightarrow> LRUHandleTable \<Rightarrow> (nat list \<times> nat list) option" where
  "FindPointer hp key hash t = find_in_chain hp key hash (tbl_list t ! bucket hash (tbl_length t))"

definition Table_Lookup :: "heap \<Rightarrow> slice \<Rightarrow> u32 \<Rightarrow> LRUHandleTable \<Rightarrow> nat option option" where
  "Table_Lookup hp key hash t =
     do { (pre, chain) \<leftarrow> FindPointer hp key hash t; Some (case chain of [] \<Rightarrow> None | e # es \<Rightarrow> Some e) }"

function grow_length :: "nat \<Rightarrow> nat \<Rightarrow> nat" where
  "grow_length elems n = (if 0 < n \<and> 2 * n < 3 * elems then grow_length elems (n * 2) else n)"
  by pat_completeness auto
termination by (relation "measure (\<lambda>(elems, n). 3 * elems - 2 * n)") auto

declare grow_length.simps [simp del]

definition rehash :: "heap \<Rightarrow> nat \<Rightarrow> nat \<Rightarrow> nat list list option \<Rightarrow> nat list list option" where
  "rehash hp new_length e new_list =
     do { new_list \<leftarrow> new_list; h \<leftarrow> hp e;
          let i = bucket (h_hash h) new_length in Some (new_list[i := e # new_list ! i]) }"

definition Resize :: "heap \<Rightarrow> LRUHandleTable \<Rightarrow> LRUHandleTable option" where
  "Resize hp t =
     (let new_length = grow_length (tbl_elems t) 16
      in map_option (\<lambda>new_list. t\<lparr>tbl_list := new_list, tbl_length := new_length\<rparr>)
           (fold (rehash hp new_length) (concat (tbl_list t)) (Some (replicate new_length []))))"

definition Table_make :: LRUHandleTable where
  "Table_make = \<lparr>tbl_length = 16, tbl_elems = 0, tbl_list = replicate 16 []\<rparr>"

definition Table_Insert :: "heap \<Rightarrow> nat \<Rightarrow> LRUHandleTable \<Rightarrow> (nat option \<times> LRUHandleTable) option" where
  "Table_Insert hp e t =
     do { h \<leftarrow> hp e;
          (pre, chain) \<leftarrow> FindPointer hp (h_key h) (h_hash h) t;
          let i = bucket (h_hash h) (tbl_length t); t = t\<lparr>tbl_list := (tbl_list t)[i := pre @ e # tl chain]\<rparr>
          in (case chain of
                [] \<Rightarrow>
                  (let t = t\<lparr>tbl_elems := tbl_elems t + 1\<rparr>
                   in map_option (Pair None) (if tbl_elems t > tbl_length t then Resize hp t else Some t))
              | old # es \<Rightarrow> Some (Some old, t)) }"

definition Table_Remove :: "heap \<Rightarrow> slice \<Rightarrow> u32 \<Rightarrow> LRUHandleTable \<Rightarrow> (nat option \<times> LRUHandleTable) option" where
  "Table_Remove hp key hash t =
     do { (pre, chain) \<leftarrow> FindPointer hp key hash t;
          Some (case chain of
                  [] \<Rightarrow> (None, t)
                | e # es \<Rightarrow>
                    (Some e, t\<lparr>tbl_list := (tbl_list t)[bucket hash (tbl_length t) := pre @ es],
                               tbl_elems := tbl_elems t - 1\<rparr>)) }"

section \<open>The contract of the table\<close>

definition entries :: "LRUHandleTable \<Rightarrow> nat set" where
  "entries t = set (concat (tbl_list t))"

definition key_hash :: "heap \<Rightarrow> nat \<Rightarrow> (slice \<times> u32) option" where
  "key_hash hp e = map_option (\<lambda>h. (h_key h, h_hash h)) (hp e)"

definition in_buckets :: "heap \<Rightarrow> nat \<Rightarrow> nat list list \<Rightarrow> bool" where
  "in_buckets hp len bs \<longleftrightarrow>
     length bs = len \<and> (\<forall>i < len. \<forall>e \<in> set (bs ! i). \<exists>h. hp e = Some h \<and> bucket (h_hash h) len = i)"

definition table_inv :: "heap \<Rightarrow> LRUHandleTable \<Rightarrow> bool" where
  "table_inv hp t \<longleftrightarrow>
     (\<exists>k. tbl_length t = 2 ^ k) \<and> in_buckets hp (tbl_length t) (tbl_list t) \<and>
     distinct (concat (tbl_list t)) \<and> inj_on (key_hash hp) (entries t) \<and>
     tbl_elems t = length (concat (tbl_list t))"

lemma bucket_less: "bucket hash (2 ^ k) < 2 ^ k"
  using take_bit_nat_less_exp [of k "unat hash"]
  by (simp add: bucket_def take_bit_eq_mask mask_eq_exp_minus_1)

lemma grow_length_pow: "\<exists>k. grow_length elems (2 ^ j) = 2 ^ k"
proof (induction elems "2 ^ j :: nat" arbitrary: j rule: grow_length.induct)
  case (1 elems)
  show ?case
  proof (cases "2 * 2 ^ j < 3 * elems")
    case True
    then have "\<exists>k. grow_length elems (2 ^ Suc j) = 2 ^ k" using 1 [of "Suc j"] by (simp add: mult.commute)
    then show ?thesis using True by (subst grow_length.simps) (simp add: mult.commute)
  next
    case False
    then show ?thesis by (subst grow_length.simps) auto
  qed
qed

lemma find_in_chain_spec:
  assumes "\<forall>e \<in> set es. hp e \<noteq> None"
  shows "\<exists>pre chain. find_in_chain hp key hash es = Some (pre, chain) \<and> es = pre @ chain \<and>
    (\<forall>e \<in> set pre. key_hash hp e \<noteq> Some (key, hash)) \<and>
    (chain = [] \<or> key_hash hp (hd chain) = Some (key, hash))"
  using assms
proof (induction es)
  case (Cons e es)
  then obtain h where h: "hp e = Some h" by auto
  from Cons obtain pre chain where ih: "find_in_chain hp key hash es = Some (pre, chain)" "es = pre @ chain"
      "\<forall>e \<in> set pre. key_hash hp e \<noteq> Some (key, hash)" "chain = [] \<or> key_hash hp (hd chain) = Some (key, hash)"
    by auto
  show ?case
  proof (cases "h_hash h \<noteq> hash \<or> key \<noteq> h_key h")
    case True
    then show ?thesis using ih h by (intro exI [of _ "e # pre"] exI [of _ chain]) (auto simp: key_hash_def)
  next
    case False
    then show ?thesis using h by (intro exI [of _ "[]"] exI [of _ "e # es"]) (auto simp: key_hash_def)
  qed
qed simp

lemma entries_nth: "e \<in> entries t \<longleftrightarrow> (\<exists>i < length (tbl_list t). e \<in> set (tbl_list t ! i))"
proof -
  have "(\<exists>c \<in> set (tbl_list t). e \<in> set c) \<longleftrightarrow> (\<exists>i < length (tbl_list t). e \<in> set (tbl_list t ! i))"
    by (metis in_set_conv_nth)
  then show ?thesis by (simp add: entries_def)
qed

lemma FindPointer_spec:
  assumes "table_inv hp t"
  obtains pre chain where "FindPointer hp key hash t = Some (pre, chain)"
    "tbl_list t ! bucket hash (tbl_length t) = pre @ chain"
    "bucket hash (tbl_length t) < length (tbl_list t)"
    "chain = [] \<Longrightarrow> \<forall>e \<in> entries t. key_hash hp e \<noteq> Some (key, hash)"
    "chain \<noteq> [] \<Longrightarrow> key_hash hp (hd chain) = Some (key, hash) \<and> hd chain \<in> entries t"
proof -
  let ?i = "bucket hash (tbl_length t)"
  have ib: "in_buckets hp (tbl_length t) (tbl_list t)" using assms by (simp add: table_inv_def)
  have i: "?i < length (tbl_list t)" using assms bucket_less by (auto simp: table_inv_def in_buckets_def)
  then have ii: "?i < tbl_length t" using ib by (simp add: in_buckets_def)
  have "\<forall>e \<in> set (tbl_list t ! ?i). hp e \<noteq> None" using ib ii by (fastforce simp: in_buckets_def)
  from find_in_chain_spec [OF this] obtain pre chain where
    f: "FindPointer hp key hash t = Some (pre, chain)" "tbl_list t ! ?i = pre @ chain"
      "\<forall>e \<in> set pre. key_hash hp e \<noteq> Some (key, hash)" "chain = [] \<or> key_hash hp (hd chain) = Some (key, hash)"
    unfolding FindPointer_def by blast
  have none: "key_hash hp e \<noteq> Some (key, hash)" if c: "chain = []" and e: "e \<in> entries t" for e
  proof
    assume k: "key_hash hp e = Some (key, hash)"
    obtain j where j: "j < tbl_length t" "e \<in> set (tbl_list t ! j)"
      using e ib by (auto simp: entries_nth in_buckets_def)
    then obtain h where "hp e = Some h" "bucket (h_hash h) (tbl_length t) = j" using ib by (auto simp: in_buckets_def)
    then have "j = ?i" using k by (auto simp: key_hash_def)
    then show False using j(2) f(2,3) c k by auto
  qed
  have "chain \<noteq> [] \<Longrightarrow> hd chain \<in> entries t" using f(2) i by (auto simp: entries_nth intro!: exI [of _ ?i])
  then show ?thesis using that f none i by blast
qed


locale handle_table =
  fixes inv :: "heap \<Rightarrow> 't \<Rightarrow> bool" and elems :: "'t \<Rightarrow> nat set"
    and Lookup :: "heap \<Rightarrow> slice \<Rightarrow> u32 \<Rightarrow> 't \<Rightarrow> nat option option"
    and Insert :: "heap \<Rightarrow> nat \<Rightarrow> 't \<Rightarrow> (nat option \<times> 't) option"
    and Remove :: "heap \<Rightarrow> slice \<Rightarrow> u32 \<Rightarrow> 't \<Rightarrow> (nat option \<times> 't) option"
  assumes elems_finite: "inv hp t \<Longrightarrow> finite (elems t)"
    and elems_live: "inv hp t \<Longrightarrow> e \<in> elems t \<Longrightarrow> \<exists>h. hp e = Some h"
    and elems_unique: "inv hp t \<Longrightarrow> inj_on (key_hash hp) (elems t)"
    and inv_frame: "inv hp t \<Longrightarrow> \<forall>e \<in> elems t. key_hash hp' e = key_hash hp e \<Longrightarrow> inv hp' t"
    and lookup_ex: "inv hp t \<Longrightarrow> \<exists>r. Lookup hp key hash t = Some r \<and>
      (case r of None \<Rightarrow> \<forall>e \<in> elems t. key_hash hp e \<noteq> Some (key, hash)
       | Some e \<Rightarrow> e \<in> elems t \<and> key_hash hp e = Some (key, hash))"
    and insert_ex: "inv hp t \<Longrightarrow> hp e = Some h \<Longrightarrow> e \<notin> elems t \<Longrightarrow>
      \<exists>old t'. Insert hp e t = Some (old, t') \<and> inv hp t' \<and>
        (case old of None \<Rightarrow> elems t' = insert e (elems t) \<and> (\<forall>x \<in> elems t. key_hash hp x \<noteq> key_hash hp e)
         | Some o' \<Rightarrow> o' \<in> elems t \<and> key_hash hp o' = key_hash hp e \<and> elems t' = insert e (elems t - {o'}))"
    and remove_ex: "inv hp t \<Longrightarrow> \<exists>r t'. Remove hp key hash t = Some (r, t') \<and> inv hp t' \<and>
      (case r of None \<Rightarrow> elems t' = elems t \<and> (\<forall>e \<in> elems t. key_hash hp e \<noteq> Some (key, hash))
       | Some e \<Rightarrow> e \<in> elems t \<and> key_hash hp e = Some (key, hash) \<and> elems t' = elems t - {e})"
begin

lemma same_entry:
  "inv hp t \<Longrightarrow> e \<in> elems t \<Longrightarrow> x \<in> elems t \<Longrightarrow> key_hash hp e = Some k \<Longrightarrow> key_hash hp x = Some k \<Longrightarrow> x = e"
  using inj_onD [OF elems_unique, of hp t x e] by simp

lemma lookup_entry:
  assumes "inv hp t" "e \<in> elems t" "key_hash hp e = Some (key, hash)"
  shows "Lookup hp key hash t = Some (Some e)"
proof -
  obtain r where r: "Lookup hp key hash t = Some r" "case r of None \<Rightarrow> \<forall>e \<in> elems t. key_hash hp e \<noteq> Some (key, hash)
       | Some e \<Rightarrow> e \<in> elems t \<and> key_hash hp e = Some (key, hash)"
    using lookup_ex [OF assms(1)] by blast
  show ?thesis
  proof (cases r)
    case None
    then show ?thesis using r(2) assms(2,3) by simp
  next
    case (Some x)
    then show ?thesis using r same_entry [OF assms(1,2) _ assms(3)] by simp
  qed
qed

lemma remove_entry:
  assumes "inv hp t" "e \<in> elems t" "key_hash hp e = Some (key, hash)"
  shows "\<exists>t'. Remove hp key hash t = Some (Some e, t') \<and> inv hp t' \<and> elems t' = elems t - {e}"
proof -
  obtain r t' where r: "Remove hp key hash t = Some (r, t')" "inv hp t'"
      "case r of None \<Rightarrow> elems t' = elems t \<and> (\<forall>e \<in> elems t. key_hash hp e \<noteq> Some (key, hash))
       | Some e \<Rightarrow> e \<in> elems t \<and> key_hash hp e = Some (key, hash) \<and> elems t' = elems t - {e}"
    using remove_ex [OF assms(1)] by blast
  have "r = Some e"
  proof (cases r)
    case None
    then show ?thesis using r(3) assms(2,3) by simp
  next
    case (Some x)
    then show ?thesis using r(3) same_entry [OF assms(1,2) _ assms(3)] by simp
  qed
  then show ?thesis using r by auto
qed

end

section \<open>The hash table meets the contract\<close>

lemma set_concat_update:
  "i < length xss \<Longrightarrow> mset (concat (xss[i := ys])) + mset (xss ! i) = mset (concat xss) + mset ys"
proof (induction xss arbitrary: i)
  case (Cons xs xss)
  then show ?case by (cases i) (simp_all add: add_ac)
qed simp

lemma concat_insert:
  assumes "i < length xss" "xss ! i = pre @ post"
  shows "mset (concat (xss[i := pre @ e # post])) = mset (e # concat xss)"
  using set_concat_update [OF assms(1), of "pre @ e # post"] assms(2) by simp

lemma concat_delete:
  assumes "i < length xss" "xss ! i = pre @ x # post"
  shows "mset (concat (xss[i := pre @ post])) = mset (remove1 x (concat xss))"
  using set_concat_update [OF assms(1), of "pre @ post"] assms(2) by (simp add: union_commute)
    (metis add_mset_remove_trivial)

lemma concat_replace:
  assumes "i < length xss" "xss ! i = pre @ x # post"
  shows "mset (concat (xss[i := pre @ e # post])) = mset (e # remove1 x (concat xss))"
proof -
  let ?yss = "xss[i := pre @ post]"
  have "mset (concat (?yss[i := pre @ e # post])) = mset (e # concat ?yss)"
    using assms(1) by (intro concat_insert) auto
  then show ?thesis using concat_delete [OF assms] by simp
qed

lemma table_invI:
  assumes "tbl_length t = 2 ^ k" "in_buckets hp (tbl_length t) (tbl_list t)" "mset (concat (tbl_list t)) = mset xs"
    "distinct xs" "inj_on (key_hash hp) (set xs)" "tbl_elems t = length xs"
  shows "table_inv hp t \<and> entries t = set xs"
proof -
  have "distinct (concat (tbl_list t)) = distinct xs" "set (concat (tbl_list t)) = set xs"
      "length (concat (tbl_list t)) = length xs"
    using assms(3) mset_eq_imp_distinct_iff mset_eq_setD mset_eq_length by blast+
  then show ?thesis using assms by (auto simp: table_inv_def entries_def)
qed

lemma in_buckets_update:
  assumes "in_buckets hp len bs" "\<forall>e \<in> set c. \<exists>h. hp e = Some h \<and> bucket (h_hash h) len = i"
  shows "in_buckets hp len (bs[i := c])"
  unfolding in_buckets_def
proof (intro conjI allI impI ballI)
  fix j e assume j: "j < len" and e: "e \<in> set (bs[i := c] ! j)"
  show "\<exists>h. hp e = Some h \<and> bucket (h_hash h) len = j"
  proof (cases "i = j")
    case True
    then have "e \<in> set c" using e j assms(1) by (simp add: in_buckets_def)
    then show ?thesis using assms(2) True by simp
  next
    case False
    then show ?thesis using e j assms(1) by (simp add: in_buckets_def)
  qed
qed (use assms(1) in \<open>simp add: in_buckets_def\<close>)

lemma rehash_spec:
  assumes "len = 2 ^ k" "\<forall>e \<in> set es. hp e \<noteq> None" "in_buckets hp len bs"
  shows "\<exists>bs'. fold (rehash hp len) es (Some bs) = Some bs' \<and> in_buckets hp len bs' \<and>
    mset (concat bs') = mset es + mset (concat bs)"
  using assms(2,3)
proof (induction es arbitrary: bs)
  case (Cons e es)
  then obtain h where h: "hp e = Some h" by auto
  let ?i = "bucket (h_hash h) len"
  let ?bs = "bs[?i := e # bs ! ?i]"
  have i: "?i < length bs" using Cons.prems(2) bucket_less assms(1) by (simp add: in_buckets_def)
  have "in_buckets hp len ?bs"
    using Cons.prems(2) h i by (intro in_buckets_update) (auto simp: in_buckets_def)
  moreover have "mset (concat ?bs) = add_mset e (mset (concat bs))"
    using concat_insert [OF i, of "[]" "bs ! ?i" e] by simp
  ultimately show ?case using Cons.IH [of ?bs] Cons.prems(1) h by (simp add: rehash_def Let_def)
qed simp

lemma Resize_spec:
  assumes "\<forall>e \<in> set (concat (tbl_list t)). hp e \<noteq> None" "distinct (concat (tbl_list t))"
    "inj_on (key_hash hp) (entries t)" "tbl_elems t = length (concat (tbl_list t))"
  shows "\<exists>t'. Resize hp t = Some t' \<and> table_inv hp t' \<and> entries t' = entries t"
proof -
  obtain k where k: "grow_length (tbl_elems t) 16 = 2 ^ k" using grow_length_pow [of "tbl_elems t" 4] by auto
  let ?len = "2 ^ k :: nat"
  have "in_buckets hp ?len (replicate ?len [])" by (simp add: in_buckets_def)
  from rehash_spec [OF refl assms(1) this] obtain bs where bs:
      "fold (rehash hp ?len) (concat (tbl_list t)) (Some (replicate ?len [])) = Some bs"
      "in_buckets hp ?len bs" "mset (concat bs) = mset (concat (tbl_list t)) + mset (concat (replicate ?len []))"
    by blast
  have "concat (replicate ?len []) = ([] :: nat list)" by simp
  then have "mset (concat bs) = mset (concat (tbl_list t))" using bs(3) by simp
  then have "table_inv hp (t\<lparr>tbl_list := bs, tbl_length := ?len\<rparr>) \<and>
      entries (t\<lparr>tbl_list := bs, tbl_length := ?len\<rparr>) = set (concat (tbl_list t))"
    using bs(2) assms(2-4) by (intro table_invI) (auto simp: entries_def)
  then show ?thesis using bs(1) by (simp add: Resize_def k Let_def entries_def)
qed

lemma Table_Insert_spec:
  assumes "table_inv hp t" "hp e = Some h" "e \<notin> entries t"
  shows "\<exists>old t'. Table_Insert hp e t = Some (old, t') \<and> table_inv hp t' \<and>
    (case old of None \<Rightarrow> entries t' = insert e (entries t) \<and> (\<forall>x \<in> entries t. key_hash hp x \<noteq> key_hash hp e)
     | Some o' \<Rightarrow> o' \<in> entries t \<and> key_hash hp o' = key_hash hp e \<and> entries t' = insert e (entries t - {o'}))"
proof -
  let ?i = "bucket (h_hash h) (tbl_length t)"
  obtain k where k: "tbl_length t = 2 ^ k" using assms(1) by (auto simp: table_inv_def)
  have ke: "key_hash hp e = Some (h_key h, h_hash h)" using assms(2) by (simp add: key_hash_def)
  have inv: "in_buckets hp (tbl_length t) (tbl_list t)" "distinct (concat (tbl_list t))"
      "inj_on (key_hash hp) (entries t)" "tbl_elems t = length (concat (tbl_list t))"
    using assms(1) by (auto simp: table_inv_def)
  obtain pre chain where f: "FindPointer hp (h_key h) (h_hash h) t = Some (pre, chain)"
      "tbl_list t ! ?i = pre @ chain" "?i < length (tbl_list t)"
      "chain = [] \<Longrightarrow> \<forall>x \<in> entries t. key_hash hp x \<noteq> Some (h_key h, h_hash h)"
      "chain \<noteq> [] \<Longrightarrow> key_hash hp (hd chain) = Some (h_key h, h_hash h) \<and> hd chain \<in> entries t"
    using FindPointer_spec [OF assms(1)] by blast
  define t1 where "t1 = t\<lparr>tbl_list := (tbl_list t)[?i := pre @ e # tl chain]\<rparr>"
  have b1: "in_buckets hp (tbl_length t) (tbl_list t1)"
  proof -
    have "set (tl chain) \<subseteq> set chain" by (cases chain) auto
    then have "\<forall>x \<in> set (pre @ tl chain). x \<in> set (tbl_list t ! ?i)" using f(2) by auto
    moreover have "?i < tbl_length t" using f(3) inv(1) by (simp add: in_buckets_def)
    ultimately have "\<forall>x \<in> set (pre @ e # tl chain). \<exists>h. hp x = Some h \<and> bucket (h_hash h) (tbl_length t) = ?i"
      using inv(1) assms(2) unfolding in_buckets_def by (auto 0 3)
    then show ?thesis unfolding t1_def using in_buckets_update [OF inv(1)] by simp
  qed
  show ?thesis
  proof (cases chain)
    case Nil
    define t2 where "t2 = t1\<lparr>tbl_elems := tbl_elems t + 1\<rparr>"
    have new: "\<forall>x \<in> entries t. key_hash hp x \<noteq> key_hash hp e" using f(4) Nil ke by simp
    have "mset (concat (tbl_list t2)) = mset (e # concat (tbl_list t))"
      using concat_insert [OF f(3), of pre "[]" e] f(2) Nil by (simp add: t2_def t1_def)
    moreover have "inj_on (key_hash hp) (insert e (entries t))"
    proof -
      have "key_hash hp e \<notin> key_hash hp ` (entries t - {e})" using new by (metis DiffD1 imageE)
      then show ?thesis using inv(3) by (simp add: inj_on_insert)
    qed
    ultimately have t2: "table_inv hp t2 \<and> entries t2 = insert e (entries t)"
      using table_invI [of t2 k hp "e # concat (tbl_list t)"] b1 inv assms(3)
      by (simp add: t2_def t1_def k entries_def)
    have eq: "Table_Insert hp e t = map_option (Pair None) (if tbl_elems t2 > tbl_length t2 then Resize hp t2 else Some t2)"
      using assms(2) f(1) Nil by (simp add: Table_Insert_def Let_def t2_def t1_def)
    have "\<exists>t'. (if tbl_elems t2 > tbl_length t2 then Resize hp t2 else Some t2) = Some t' \<and>
        table_inv hp t' \<and> entries t' = entries t2"
    proof (cases "tbl_elems t2 > tbl_length t2")
      case True
      have "\<forall>x \<in> set (concat (tbl_list t2)). hp x \<noteq> None"
        using t2 unfolding table_inv_def in_buckets_def by (auto simp: in_set_conv_nth) (metis nth_mem option.distinct(1))
      then show ?thesis using Resize_spec [of t2 hp] t2 True by (auto simp: table_inv_def)
    qed (use t2 in simp)
    then obtain t' where "(if tbl_elems t2 > tbl_length t2 then Resize hp t2 else Some t2) = Some t'"
        "table_inv hp t'" "entries t' = entries t2"
      by blast
    then show ?thesis unfolding eq using new t2 by simp
  next
    case (Cons old es)
    have old: "key_hash hp old = key_hash hp e" "old \<in> entries t" using f(5) Cons ke by auto
    have "mset (concat (tbl_list t1)) = mset (e # remove1 old (concat (tbl_list t)))"
      using concat_replace [OF f(3), of pre old es e] f(2) Cons by (simp add: t1_def)
    moreover have "set (remove1 old (concat (tbl_list t))) = entries t - {old}"
      using inv(2) by (simp add: entries_def)
    moreover have "inj_on (key_hash hp) (insert e (entries t - {old}))"
    proof -
      have "key_hash hp e \<notin> key_hash hp ` (entries t - {old} - {e})"
      proof
        assume "key_hash hp e \<in> key_hash hp ` (entries t - {old} - {e})"
        then obtain x where x: "x \<in> entries t" "x \<noteq> old" "key_hash hp e = key_hash hp x" by blast
        then have "x = old" using inj_onD [OF inv(3) _ x(1) old(2)] old(1) by simp
        then show False using x(2) by simp
      qed
      then show ?thesis using inj_on_subset [OF inv(3), of "entries t - {old}"] by (simp add: inj_on_insert)
    qed
    moreover have "0 < length (concat (tbl_list t))" using old(2) unfolding entries_def by (rule length_pos_if_in_set)
    ultimately have "table_inv hp t1 \<and> entries t1 = insert e (entries t - {old})"
      using table_invI [of t1 k hp "e # remove1 old (concat (tbl_list t))"] b1 inv assms(3) old(2)
      by (simp add: t1_def k entries_def length_remove1)
    then show ?thesis
      using assms(2) f(1) Cons old by (simp add: Table_Insert_def Let_def t1_def)
  qed
qed


lemma Table_Remove_spec:
  assumes "table_inv hp t"
  shows "\<exists>r t'. Table_Remove hp key hash t = Some (r, t') \<and> table_inv hp t' \<and>
    (case r of None \<Rightarrow> entries t' = entries t \<and> (\<forall>e \<in> entries t. key_hash hp e \<noteq> Some (key, hash))
     | Some e \<Rightarrow> e \<in> entries t \<and> key_hash hp e = Some (key, hash) \<and> entries t' = entries t - {e})"
proof -
  let ?i = "bucket hash (tbl_length t)"
  obtain k where k: "tbl_length t = 2 ^ k" using assms by (auto simp: table_inv_def)
  have inv: "in_buckets hp (tbl_length t) (tbl_list t)" "distinct (concat (tbl_list t))"
      "inj_on (key_hash hp) (entries t)" "tbl_elems t = length (concat (tbl_list t))"
    using assms by (auto simp: table_inv_def)
  obtain pre chain where f: "FindPointer hp key hash t = Some (pre, chain)"
      "tbl_list t ! ?i = pre @ chain" "?i < length (tbl_list t)"
      "chain = [] \<Longrightarrow> \<forall>x \<in> entries t. key_hash hp x \<noteq> Some (key, hash)"
      "chain \<noteq> [] \<Longrightarrow> key_hash hp (hd chain) = Some (key, hash) \<and> hd chain \<in> entries t"
    using FindPointer_spec [OF assms] by blast
  show ?thesis
  proof (cases chain)
    case Nil
    then show ?thesis using f assms by (simp add: Table_Remove_def)
  next
    case (Cons e es)
    define t1 where "t1 = t\<lparr>tbl_list := (tbl_list t)[?i := pre @ es], tbl_elems := tbl_elems t - 1\<rparr>"
    have e: "key_hash hp e = Some (key, hash)" "e \<in> entries t" using f(5) Cons by auto
    have "in_buckets hp (tbl_length t) (tbl_list t1)"
    proof -
      have "\<forall>x \<in> set (pre @ es). x \<in> set (tbl_list t ! ?i)" using f(2) Cons by auto
      moreover have "?i < tbl_length t" using f(3) inv(1) by (simp add: in_buckets_def)
      ultimately have "\<forall>x \<in> set (pre @ es). \<exists>h. hp x = Some h \<and> bucket (h_hash h) (tbl_length t) = ?i"
        using inv(1) unfolding in_buckets_def by (auto 0 3)
      then show ?thesis unfolding t1_def using in_buckets_update [OF inv(1)] by simp
    qed
    moreover have "mset (concat (tbl_list t1)) = mset (remove1 e (concat (tbl_list t)))"
      using concat_delete [OF f(3), of pre e es] f(2) Cons by (simp add: t1_def)
    moreover have "set (remove1 e (concat (tbl_list t))) = entries t - {e}" using inv(2) by (simp add: entries_def)
    moreover have "inj_on (key_hash hp) (entries t - {e})" using inj_on_subset [OF inv(3)] by blast
    ultimately have "table_inv hp t1 \<and> entries t1 = entries t - {e}"
      using table_invI [of t1 k hp "remove1 e (concat (tbl_list t))"] inv e(2)
      by (simp add: t1_def k entries_def length_remove1)
    then show ?thesis using f(1) Cons e by (simp add: Table_Remove_def t1_def)
  qed
qed

interpretation lru_table: handle_table table_inv entries Table_Lookup Table_Insert Table_Remove
proof
  fix hp t assume inv: "table_inv hp t"
  show "finite (entries t)" by (simp add: entries_def)
  show "inj_on (key_hash hp) (entries t)" using inv by (simp add: table_inv_def)
  show "\<exists>h. hp e = Some h" if "e \<in> entries t" for e
    using that inv by (auto simp: table_inv_def in_buckets_def entries_nth)
  show "table_inv hp' t" if f: "\<forall>e \<in> entries t. key_hash hp' e = key_hash hp e" for hp'
  proof -
    have "inj_on (key_hash hp') (entries t)" using inv f by (simp add: table_inv_def inj_on_def)
    moreover have "in_buckets hp' (tbl_length t) (tbl_list t)"
      unfolding in_buckets_def
    proof (intro conjI allI impI ballI)
      show "length (tbl_list t) = tbl_length t" using inv by (simp add: table_inv_def in_buckets_def)
      fix i e assume i: "i < tbl_length t" and e: "e \<in> set (tbl_list t ! i)"
      then obtain h where h: "hp e = Some h" "bucket (h_hash h) (tbl_length t) = i"
        using inv by (auto simp: table_inv_def in_buckets_def)
      have "e \<in> entries t" using i e inv by (auto simp: entries_nth table_inv_def in_buckets_def)
      then have "key_hash hp' e = Some (h_key h, h_hash h)" using f h(1) by (simp add: key_hash_def)
      then show "\<exists>h. hp' e = Some h \<and> bucket (h_hash h) (tbl_length t) = i" using h(2) by (auto simp: key_hash_def)
    qed
    ultimately show ?thesis using inv by (simp add: table_inv_def)
  qed
  show "\<exists>r. Table_Lookup hp key hash t = Some r \<and>
      (case r of None \<Rightarrow> \<forall>e \<in> entries t. key_hash hp e \<noteq> Some (key, hash)
       | Some e \<Rightarrow> e \<in> entries t \<and> key_hash hp e = Some (key, hash))" for key hash
  proof -
    obtain pre chain where f: "FindPointer hp key hash t = Some (pre, chain)"
        "chain = [] \<Longrightarrow> \<forall>x \<in> entries t. key_hash hp x \<noteq> Some (key, hash)"
        "chain \<noteq> [] \<Longrightarrow> key_hash hp (hd chain) = Some (key, hash) \<and> hd chain \<in> entries t"
      using FindPointer_spec [OF inv] by blast
    then show ?thesis by (cases chain) (auto simp: Table_Lookup_def)
  qed
qed (rule Table_Insert_spec Table_Remove_spec; assumption)+

lemma Table_make_inv: "table_inv hp Table_make" "entries Table_make = {}"
proof -
  have "\<exists>k. (16 :: nat) = 2 ^ k" by (rule exI [of _ 4]) simp
  then show "table_inv hp Table_make" by (simp add: table_inv_def Table_make_def in_buckets_def entries_def)
  show "entries Table_make = {}" by (simp add: entries_def Table_make_def)
qed

end
