(* ===== verification/LRUCache.thy ===== *)
theory LRUCache
  imports LRUHandleTable Status Hash Complex_Main
begin

text \<open>
  \<^verbatim>\<open>class LRUCacheShard\<close> of \<^verbatim>\<open>cache/lru_cache.{h,cc}\<close>, a shard of the block cache. Handles are
  addresses in a heap. The circular list of entries that can be evicted is the list of their addresses, oldest first; \<open>lru_low_pri\<close> is the newest entry of the low-priority pool, \<open>None\<close>
  for the dummy head. An operation is \<open>None\<close> where the code would use a freed handle or violate one of its
  assertions. \<open>deleted\<close> are the handles on which the deleter was called. Ratios are rationals: the
  rounding of the product of a capacity and a ratio is left out. Reference counts and sizes are natural
  numbers: the sum of the charges in a shard stays below \<open>2 ^ 64\<close>.
\<close>

record LRUCacheShard =
  capacity :: nat
  usage :: nat
  lru_usage :: nat
  high_pri_pool_usage :: nat
  strict_capacity_limit :: bool
  high_pri_pool_ratio :: rat
  high_pri_pool_capacity :: rat
  lru :: "nat list"
  lru_low_pri :: "nat option"
  table :: LRUHandleTable
  heap_of :: heap
  next_addr :: nat
  deleted :: "nat list"

text \<open>The constructor leaves the capacity, the limit flag and the two ratios uninitialised.\<close>

definition Shard_make :: "nat \<Rightarrow> bool \<Rightarrow> rat \<Rightarrow> rat \<Rightarrow> LRUCacheShard" where
  "Shard_make cap strict ratio pool =
     \<lparr>capacity = cap, usage = 0, lru_usage = 0, high_pri_pool_usage = 0, strict_capacity_limit = strict,
      high_pri_pool_ratio = ratio, high_pri_pool_capacity = pool, lru = [], lru_low_pri = None,
      table = Table_make, heap_of = Map.empty, next_addr = 0, deleted = []\<rparr>"

definition set_handle :: "nat \<Rightarrow> LRUHandle \<Rightarrow> LRUCacheShard \<Rightarrow> LRUCacheShard" where
  "set_handle e h sh = sh\<lparr>heap_of := (heap_of sh)(e \<mapsto> h)\<rparr>"

definition Unref :: "nat \<Rightarrow> LRUCacheShard \<Rightarrow> (bool \<times> LRUCacheShard) option" where
  "Unref e sh =
     do { h \<leftarrow> heap_of sh e;
          if h_refs h > 0
          then let h = h\<lparr>h_refs := h_refs h - 1\<rparr> in Some (h_refs h = 0, set_handle e h sh)
          else None }"

definition Free :: "nat \<Rightarrow> LRUCacheShard \<Rightarrow> LRUCacheShard option" where
  "Free e sh =
     do { h \<leftarrow> heap_of sh e;
          if h_refs h = 1 \<and> InCache h \<or> h_refs h = 0 \<and> \<not> InCache h
          then Some (sh\<lparr>heap_of := (heap_of sh)(e := None), deleted := deleted sh @ [e]\<rparr>)
          else None }"

primrec FreeAll :: "nat list \<Rightarrow> LRUCacheShard \<Rightarrow> LRUCacheShard option" where
  "FreeAll [] sh = Some sh"
| "FreeAll (e # es) sh = do { sh \<leftarrow> Free e sh; FreeAll es sh }"

text \<open>The neighbours of an entry in the list; \<open>None\<close> stands for the dummy head.\<close>

definition next_of :: "nat list \<Rightarrow> nat option \<Rightarrow> nat option" where
  "next_of xs p =
     (case p of
        None \<Rightarrow> (case xs of [] \<Rightarrow> None | x # _ \<Rightarrow> Some x)
      | Some e \<Rightarrow> (case dropWhile (\<lambda>x. x \<noteq> e) xs of _ # y # _ \<Rightarrow> Some y | _ \<Rightarrow> None))"

definition prev_of :: "nat list \<Rightarrow> nat \<Rightarrow> nat option" where
  "prev_of xs e = (case rev (takeWhile (\<lambda>x. x \<noteq> e) xs) of [] \<Rightarrow> None | y # _ \<Rightarrow> Some y)"

definition insert_after :: "nat list \<Rightarrow> nat option \<Rightarrow> nat \<Rightarrow> nat list" where
  "insert_after xs p e =
     (case p of
        None \<Rightarrow> e # xs
      | Some q \<Rightarrow> takeWhile (\<lambda>x. x \<noteq> q) xs @ q # e # tl (dropWhile (\<lambda>x. x \<noteq> q) xs))"

definition LRU_Remove :: "nat \<Rightarrow> LRUCacheShard \<Rightarrow> LRUCacheShard option" where
  "LRU_Remove e sh =
     do { h \<leftarrow> heap_of sh e;
          if e \<in> set (lru sh)
          then let sh = (if lru_low_pri sh = Some e then sh\<lparr>lru_low_pri := prev_of (lru sh) e\<rparr> else sh);
                   sh = sh\<lparr>lru := remove1 e (lru sh), lru_usage := lru_usage sh - h_charge h\<rparr>
               in if InHighPriPool h
                  then if high_pri_pool_usage sh \<ge> h_charge h
                       then Some (sh\<lparr>high_pri_pool_usage := high_pri_pool_usage sh - h_charge h\<rparr>)
                       else None
                  else Some sh
          else None }"

text \<open>\<open>n\<close> bounds the number of entries that can overflow to the low-priority pool.\<close>

primrec pool_loop :: "nat \<Rightarrow> LRUCacheShard \<Rightarrow> LRUCacheShard option" where
  "pool_loop 0 sh = (if of_nat (high_pri_pool_usage sh) > high_pri_pool_capacity sh then None else Some sh)"
| "pool_loop (Suc n) sh =
     (if of_nat (high_pri_pool_usage sh) > high_pri_pool_capacity sh
      then do { e \<leftarrow> next_of (lru sh) (lru_low_pri sh);
                h \<leftarrow> heap_of sh e;
                let sh = set_handle e (h\<lparr>InHighPriPool := False\<rparr>) (sh\<lparr>lru_low_pri := Some e\<rparr>)
                in pool_loop n (sh\<lparr>high_pri_pool_usage := high_pri_pool_usage sh - h_charge h\<rparr>) }
      else Some sh)"

definition MaintainPoolSize :: "LRUCacheShard \<Rightarrow> LRUCacheShard option" where
  "MaintainPoolSize sh = pool_loop (length (lru sh)) sh"

definition LRU_Insert :: "nat \<Rightarrow> LRUCacheShard \<Rightarrow> LRUCacheShard option" where
  "LRU_Insert e sh =
     do { h \<leftarrow> heap_of sh e;
          if e \<in> set (lru sh) then None
          else do { sh \<leftarrow>
                 (if high_pri_pool_ratio sh > 0 \<and> IsHighPri h
                  then let sh = set_handle e (h\<lparr>InHighPriPool := True\<rparr>) (sh\<lparr>lru := lru sh @ [e]\<rparr>)
                       in MaintainPoolSize (sh\<lparr>high_pri_pool_usage := high_pri_pool_usage sh + h_charge h\<rparr>)
                  else Some (set_handle e (h\<lparr>InHighPriPool := False\<rparr>)
                         (sh\<lparr>lru := insert_after (lru sh) (lru_low_pri sh) e, lru_low_pri := Some e\<rparr>)));
               Some (sh\<lparr>lru_usage := lru_usage sh + h_charge h\<rparr>) } }"

text \<open>The body of the loops of \<open>EvictFromLRU\<close> and \<open>EraseUnRefEntries\<close>, for the oldest entry.\<close>

definition evict_one :: "nat \<Rightarrow> LRUCacheShard \<Rightarrow> LRUCacheShard option" where
  "evict_one old sh =
     do { h \<leftarrow> heap_of sh old;
          if \<not> (InCache h \<and> h_refs h = 1) then None
          else do { sh \<leftarrow> LRU_Remove old sh;
               (r, t) \<leftarrow> Table_Remove (heap_of sh) (h_key h) (h_hash h) (table sh);
               let sh = set_handle old (h\<lparr>InCache := False\<rparr>) (sh\<lparr>table := t\<rparr>);
               (last_reference, sh) \<leftarrow> Unref old sh;
               Some (sh\<lparr>usage := usage sh - h_charge h\<rparr>) } }"

primrec EvictFromLRU_loop :: "nat \<Rightarrow> nat \<Rightarrow> nat list \<Rightarrow> LRUCacheShard \<Rightarrow> (nat list \<times> LRUCacheShard) option" where
  "EvictFromLRU_loop charge 0 del sh = Some (del, sh)"
| "EvictFromLRU_loop charge (Suc n) del sh =
     (case lru sh of
        [] \<Rightarrow> Some (del, sh)
      | old # _ \<Rightarrow>
          if usage sh + charge > capacity sh
          then do { sh \<leftarrow> evict_one old sh; EvictFromLRU_loop charge n (del @ [old]) sh }
          else Some (del, sh))"


definition EvictFromLRU :: "nat \<Rightarrow> LRUCacheShard \<Rightarrow> (nat list \<times> LRUCacheShard) option" where
  "EvictFromLRU charge sh = EvictFromLRU_loop charge (length (lru sh)) [] sh"

primrec erase_loop :: "nat \<Rightarrow> nat list \<Rightarrow> LRUCacheShard \<Rightarrow> (nat list \<times> LRUCacheShard) option" where
  "erase_loop 0 del sh = Some (del, sh)"
| "erase_loop (Suc n) del sh =
     (case lru sh of
        [] \<Rightarrow> Some (del, sh)
      | old # _ \<Rightarrow> do { sh \<leftarrow> evict_one old sh; erase_loop n (del @ [old]) sh })"

definition EraseUnRefEntries :: "LRUCacheShard \<Rightarrow> LRUCacheShard option" where
  "EraseUnRefEntries sh = do { (del, sh) \<leftarrow> erase_loop (length (lru sh)) [] sh; FreeAll del sh }"

definition SetCapacity :: "nat \<Rightarrow> LRUCacheShard \<Rightarrow> LRUCacheShard option" where
  "SetCapacity cap sh =
     (let sh = sh\<lparr>capacity := cap, high_pri_pool_capacity := of_nat cap * high_pri_pool_ratio sh\<rparr>
      in do { (del, sh) \<leftarrow> EvictFromLRU 0 sh; FreeAll del sh })"

definition SetStrictCapacityLimit :: "bool \<Rightarrow> LRUCacheShard \<Rightarrow> LRUCacheShard" where
  "SetStrictCapacityLimit strict sh = sh\<lparr>strict_capacity_limit := strict\<rparr>"

definition SetHighPriorityPoolRatio :: "rat \<Rightarrow> LRUCacheShard \<Rightarrow> LRUCacheShard option" where
  "SetHighPriorityPoolRatio ratio sh =
     MaintainPoolSize (sh\<lparr>high_pri_pool_ratio := ratio, high_pri_pool_capacity := of_nat (capacity sh) * ratio\<rparr>)"

definition Cache_Lookup :: "slice \<Rightarrow> u32 \<Rightarrow> LRUCacheShard \<Rightarrow> (nat option \<times> LRUCacheShard) option" where
  "Cache_Lookup key hash sh =
     do { r \<leftarrow> Table_Lookup (heap_of sh) key hash (table sh);
          case r of
            None \<Rightarrow> Some (None, sh)
          | Some e \<Rightarrow>
              do { h \<leftarrow> heap_of sh e;
                   if \<not> InCache h then None
                   else do { sh \<leftarrow> (if h_refs h = 1 then LRU_Remove e sh else Some sh);
                        Some (Some e, set_handle e (h\<lparr>h_refs := h_refs h + 1\<rparr>) sh) } } }"

definition Cache_Ref :: "nat \<Rightarrow> LRUCacheShard \<Rightarrow> LRUCacheShard option" where
  "Cache_Ref e sh =
     do { h \<leftarrow> heap_of sh e;
          sh \<leftarrow> (if InCache h \<and> h_refs h = 1 then LRU_Remove e sh else Some sh);
          Some (set_handle e (h\<lparr>h_refs := h_refs h + 1\<rparr>) sh) }"

text \<open>The part of \<open>Release\<close> for a handle \<open>h\<close> that nobody but the cache refers to any more.\<close>

definition release_unused :: "nat \<Rightarrow> bool \<Rightarrow> LRUHandle \<Rightarrow> bool \<Rightarrow> LRUCacheShard \<Rightarrow> (bool \<times> LRUCacheShard) option" where
  "release_unused e force_erase h last_reference sh =
     (if h_refs h = 1 \<and> InCache h
      then if usage sh > capacity sh \<or> force_erase
           then if usage sh > capacity sh \<and> lru sh \<noteq> [] then None
                else do { (r, t) \<leftarrow> Table_Remove (heap_of sh) (h_key h) (h_hash h) (table sh);
                     let sh = set_handle e (h\<lparr>InCache := False\<rparr>) (sh\<lparr>table := t\<rparr>);
                     (l, sh) \<leftarrow> Unref e sh;
                     Some (True, sh\<lparr>usage := usage sh - h_charge h\<rparr>) }
           else map_option (Pair last_reference) (LRU_Insert e sh)
      else Some (last_reference, sh))"

definition Cache_Release :: "nat \<Rightarrow> bool \<Rightarrow> LRUCacheShard \<Rightarrow> (bool \<times> LRUCacheShard) option" where
  "Cache_Release e force_erase sh =
     do { (last_reference, sh) \<leftarrow> Unref e sh;
          h \<leftarrow> heap_of sh e;
          let sh = (if last_reference then sh\<lparr>usage := usage sh - h_charge h\<rparr> else sh);
          (last_reference, sh) \<leftarrow> release_unused e force_erase h last_reference sh;
          sh \<leftarrow> (if last_reference then Free e sh else Some sh);
          Some (last_reference, sh) }"

text \<open>The entry with the same key that an insertion replaces.\<close>

definition drop_replaced :: "nat option \<Rightarrow> nat list \<Rightarrow> LRUCacheShard \<Rightarrow> (nat list \<times> LRUCacheShard) option" where
  "drop_replaced old del sh =
     (case old of
        None \<Rightarrow> Some (del, sh)
      | Some old \<Rightarrow>
          do { oh \<leftarrow> heap_of sh old;
               (last_reference, sh) \<leftarrow> Unref old (set_handle old (oh\<lparr>InCache := False\<rparr>) sh);
               if last_reference
               then do { sh \<leftarrow> LRU_Remove old (sh\<lparr>usage := usage sh - h_charge oh\<rparr>); Some (del @ [old], sh) }
               else Some (del, sh) })"

definition insert_entry ::
    "nat \<Rightarrow> nat \<Rightarrow> bool \<Rightarrow> nat list \<Rightarrow> LRUCacheShard \<Rightarrow> (Status \<times> nat option \<times> nat list \<times> LRUCacheShard) option" where
  "insert_entry e charge want_handle del sh =
     do { (old, t) \<leftarrow> Table_Insert (heap_of sh) e (table sh);
          (del, sh) \<leftarrow> drop_replaced old del (sh\<lparr>table := t, usage := usage sh + charge\<rparr>);
          if want_handle then Some (Status_OK, Some e, del, sh)
          else do { sh \<leftarrow> LRU_Insert e sh; Some (Status_OK, None, del, sh) } }"

text \<open>
  \<open>pool0\<close> is the bit of the flag byte that the allocation leaves uninitialised. The result is the status,
  the handle returned, and the shard.
\<close>

definition Cache_Insert ::
    "bool \<Rightarrow> slice \<Rightarrow> u32 \<Rightarrow> nat \<Rightarrow> nat \<Rightarrow> bool \<Rightarrow> bool \<Rightarrow> LRUCacheShard \<Rightarrow> (Status \<times> nat option \<times> LRUCacheShard) option" where
  "Cache_Insert pool0 key hash val charge want_handle high_pri sh =
     (let e = next_addr sh;
          h = \<lparr>h_value = val, h_key = key, h_hash = hash, h_charge = charge, h_refs = (if want_handle then 2 else 1),
               InCache = True, IsHighPri = high_pri, InHighPriPool = pool0\<rparr>;
          sh = set_handle e h (sh\<lparr>next_addr := e + 1\<rparr>)
      in do { (del, sh) \<leftarrow> EvictFromLRU charge sh;
              (s, r, del, sh) \<leftarrow>
                (if usage sh - lru_usage sh + charge > capacity sh \<and> (strict_capacity_limit sh \<or> \<not> want_handle)
                 then if \<not> want_handle then Some (Status_OK, None, del @ [e], sh)
                      else Some (Incomplete ''Insert failed due to LRU cache being full.'', None, del,
                                 sh\<lparr>heap_of := (heap_of sh)(e := None)\<rparr>)
                 else insert_entry e charge want_handle del sh);
              sh \<leftarrow> FreeAll del sh;
              Some (s, r, sh) })"

definition Cache_Erase :: "slice \<Rightarrow> u32 \<Rightarrow> LRUCacheShard \<Rightarrow> LRUCacheShard option" where
  "Cache_Erase key hash sh =
     do { (r, t) \<leftarrow> Table_Remove (heap_of sh) key hash (table sh);
          let sh = sh\<lparr>table := t\<rparr>;
          case r of
            None \<Rightarrow> Some sh
          | Some e \<Rightarrow>
              do { (last_reference, sh) \<leftarrow> Unref e sh;
                   h \<leftarrow> heap_of sh e;
                   let sh = (if last_reference then sh\<lparr>usage := usage sh - h_charge h\<rparr> else sh);
                   sh \<leftarrow> (if last_reference \<and> InCache h then LRU_Remove e sh else Some sh);
                   let sh = set_handle e (h\<lparr>InCache := False\<rparr>) sh;
                   if last_reference then Free e sh else Some sh } }"

definition GetPinnedUsage :: "LRUCacheShard \<Rightarrow> nat" where
  "GetPinnedUsage sh = usage sh - lru_usage sh"

definition ApplyToAllCacheEntries :: "LRUCacheShard \<Rightarrow> (nat \<times> nat) list option" where
  "ApplyToAllCacheEntries sh =
     those (map (\<lambda>e. map_option (\<lambda>h. (h_value h, h_charge h)) (heap_of sh e)) (concat (tbl_list (table sh))))"

end
