(* ===== verification/LRUCacheInv.thy ===== *)
theory LRUCacheInv
  imports LRUCache
begin

text \<open>
  The invariant of a shard of the block cache: the hash table, the list of evictable entries, the
  reference counts and the memory in use agree, and every operation keeps it.
\<close>

section \<open>The list of evictable entries\<close>

definition charge_of :: "heap \<Rightarrow> nat \<Rightarrow> nat" where
  "charge_of hp e = (case hp e of None \<Rightarrow> 0 | Some h \<Rightarrow> h_charge h)"

definition total :: "heap \<Rightarrow> nat set \<Rightarrow> nat" where
  "total hp S = sum (charge_of hp) S"

definition pooled :: "heap \<Rightarrow> bool \<Rightarrow> nat \<Rightarrow> bool" where
  "pooled hp b e \<longleftrightarrow> (\<exists>h. hp e = Some h \<and> InHighPriPool h = b)"

text \<open>The list is the low-priority pool followed by the high-priority pool.\<close>

definition lru_split :: "nat list \<Rightarrow> nat list \<Rightarrow> LRUCacheShard \<Rightarrow> bool" where
  "lru_split low high sh \<longleftrightarrow>
     lru sh = low @ high \<and> distinct (low @ high) \<and>
     lru_low_pri sh = (if low = [] then None else Some (last low)) \<and>
     (\<forall>e \<in> set low. pooled (heap_of sh) False e) \<and> (\<forall>e \<in> set high. pooled (heap_of sh) True e) \<and>
     high_pri_pool_usage sh = total (heap_of sh) (set high)"

definition lru_inv :: "LRUCacheShard \<Rightarrow> bool" where
  "lru_inv sh \<longleftrightarrow>
     (\<exists>low high. lru_split low high sh) \<and> lru_usage sh = total (heap_of sh) (set (lru sh))"

lemma total_cong: "(\<And>e. e \<in> S \<Longrightarrow> charge_of hp' e = charge_of hp e) \<Longrightarrow> total hp' S = total hp S"
  by (simp add: total_def)

lemma total_insert: "finite S \<Longrightarrow> e \<notin> S \<Longrightarrow> total hp (insert e S) = charge_of hp e + total hp S"
  by (simp add: total_def)

lemma total_remove: "finite S \<Longrightarrow> e \<in> S \<Longrightarrow> total hp (S - {e}) = total hp S - charge_of hp e"
  by (simp add: total_def sum_diff1_nat)

lemma total_member: "finite S \<Longrightarrow> e \<in> S \<Longrightarrow> charge_of hp e \<le> total hp S"
  by (simp add: total_def member_le_sum)

lemma total_subset: "finite S \<Longrightarrow> T \<subseteq> S \<Longrightarrow> total hp T \<le> total hp S"
  by (simp add: total_def sum_mono2)

lemma takeWhile_neq_split: "e \<notin> set xs \<Longrightarrow> takeWhile (\<lambda>x. x \<noteq> e) (xs @ e # ys) = xs"
  "e \<notin> set xs \<Longrightarrow> dropWhile (\<lambda>x. x \<noteq> e) (xs @ e # ys) = e # ys"
  by (induction xs) auto

lemma next_of_low:
  "distinct (low @ high) \<Longrightarrow>
   next_of (low @ high) (if low = [] then None else Some (last low)) = (case high of [] \<Rightarrow> None | x # _ \<Rightarrow> Some x)"
proof (cases low rule: rev_cases)
  case (snoc xs x)
  assume "distinct (low @ high)"
  then have "x \<notin> set xs" using snoc by simp
  then show ?thesis using snoc takeWhile_neq_split(2) [of x xs high] by (simp add: next_of_def split: list.splits)
qed (simp add: next_of_def)

lemma insert_after_low:
  "distinct (low @ high) \<Longrightarrow>
   insert_after (low @ high) (if low = [] then None else Some (last low)) e = low @ e # high"
proof (cases low rule: rev_cases)
  case (snoc xs x)
  assume "distinct (low @ high)"
  then have "x \<notin> set xs" using snoc by simp
  then show ?thesis using snoc takeWhile_neq_split [of x xs high] by (simp add: insert_after_def)
qed (simp add: insert_after_def)

lemma prev_of_last: "distinct (xs @ [x]) \<Longrightarrow> prev_of ((xs @ [x]) @ high) x = (if xs = [] then None else Some (last xs))"
  using takeWhile_neq_split(1) [of x xs high] by (cases xs rule: rev_cases) (simp_all add: prev_of_def)

lemma charge_of_Some: "hp e = Some h \<Longrightarrow> charge_of hp e = h_charge h"
  by (simp add: charge_of_def)

lemma LRU_Remove_spec:
  assumes "lru_inv sh" "e \<in> set (lru sh)"
  shows "\<exists>p u q. LRU_Remove e sh = Some (sh\<lparr>lru := remove1 e (lru sh), lru_low_pri := p, lru_usage := u, high_pri_pool_usage := q\<rparr>) \<and>
    lru_inv (sh\<lparr>lru := remove1 e (lru sh), lru_low_pri := p, lru_usage := u, high_pri_pool_usage := q\<rparr>)"
proof -
  let ?hp = "heap_of sh"
  obtain low high where sp: "lru_split low high sh" using assms(1) by (auto simp: lru_inv_def)
  then have l: "lru sh = low @ high" "distinct (low @ high)"
      "lru_low_pri sh = (if low = [] then None else Some (last low))"
      "high_pri_pool_usage sh = total ?hp (set high)"
    by (auto simp: lru_split_def)
  have u: "total ?hp (set (remove1 e (lru sh))) = lru_usage sh - charge_of ?hp e"
    using assms l(1,2) total_remove [of "set (lru sh)" e ?hp] by (simp add: lru_inv_def)
  from assms(2) l(1) consider "e \<in> set low" | "e \<in> set high" by auto
  then show ?thesis
  proof cases
    case 1
    then obtain h where h: "?hp e = Some h" "\<not> InHighPriPool h" using sp by (auto simp: lru_split_def pooled_def)
    define p where "p = (if lru_low_pri sh = Some e then prev_of (lru sh) e else lru_low_pri sh)"
    have p: "p = (if remove1 e low = [] then None else Some (last (remove1 e low)))"
    proof (cases low rule: rev_cases)
      case (snoc xs x)
      show ?thesis
      proof (cases "e = x")
        case True
        have "e \<notin> set xs" using snoc l(2) True by simp
        then show ?thesis using snoc True l prev_of_last [of xs x high] by (simp add: p_def remove1_append)
      next
        case False
        then have "e \<in> set xs" using 1 snoc by simp
        then show ?thesis using snoc False l(3) by (simp add: p_def remove1_append)
      qed
    qed (use 1 in simp)
    have r: "remove1 e (lru sh) = remove1 e low @ high" using 1 l(1) by (simp add: remove1_append)
    let ?sh = "sh\<lparr>lru := remove1 e (lru sh), lru_low_pri := p, lru_usage := lru_usage sh - h_charge h, high_pri_pool_usage := high_pri_pool_usage sh\<rparr>"
    have eq: "LRU_Remove e sh = Some ?sh" using h assms(2) by (simp add: LRU_Remove_def Let_def p_def)
    have "lru_split (remove1 e low) high ?sh"
      using sp r p set_remove1_subset [of e low] by (auto simp: lru_split_def distinct_remove1)
    then have inv: "lru_inv ?sh" using u h by (auto simp: lru_inv_def charge_of_Some)
    show ?thesis by (intro exI conjI, rule eq, rule inv)
  next
    case 2
    then obtain h where h: "?hp e = Some h" "InHighPriPool h" using sp by (auto simp: lru_split_def pooled_def)
    have "e \<notin> set low" using 2 l(2) by auto
    then have p: "lru_low_pri sh \<noteq> Some e" and r: "remove1 e (lru sh) = low @ remove1 e high"
      using l(1,3) by (auto simp: remove1_append)
    let ?sh = "sh\<lparr>lru := remove1 e (lru sh), lru_low_pri := lru_low_pri sh, lru_usage := lru_usage sh - h_charge h,
      high_pri_pool_usage := high_pri_pool_usage sh - h_charge h\<rparr>"
    have ch: "h_charge h \<le> high_pri_pool_usage sh" using total_member [of "set high" e ?hp] 2 h l(4) by (simp add: charge_of_Some)
    then have eq: "LRU_Remove e sh = Some ?sh" using h assms(2) p by (simp add: LRU_Remove_def Let_def)
    have "lru_split low (remove1 e high) ?sh"
      using sp r 2 l(2) total_remove [of "set high" e ?hp] h set_remove1_subset [of e high]
      by (auto simp: lru_split_def distinct_remove1 charge_of_Some)
    then have inv: "lru_inv ?sh" using u h by (auto simp: lru_inv_def charge_of_Some)
    show ?thesis by (intro exI conjI, rule eq, rule inv)
  qed
qed

definition pool_eq :: "heap \<Rightarrow> heap \<Rightarrow> bool" where
  "pool_eq hp hp' \<longleftrightarrow>
     (\<forall>e. map_option (\<lambda>h. h\<lparr>InHighPriPool := False\<rparr>) (hp' e) = map_option (\<lambda>h. h\<lparr>InHighPriPool := False\<rparr>) (hp e))"

lemma pool_eq_refl [simp]: "pool_eq hp hp"
  by (simp add: pool_eq_def)

lemma pool_eq_trans: "pool_eq a b \<Longrightarrow> pool_eq b c \<Longrightarrow> pool_eq a c"
  by (simp add: pool_eq_def)

lemma pool_eq_upd: "hp e = Some h \<Longrightarrow> pool_eq hp (hp(e \<mapsto> h\<lparr>InHighPriPool := b\<rparr>))"
  by (simp add: pool_eq_def)

lemma pool_eq_Some:
  assumes "pool_eq hp hp'" "hp e = Some h"
  obtains b where "hp' e = Some (h\<lparr>InHighPriPool := b\<rparr>)"
proof -
  have "map_option (\<lambda>h. h\<lparr>InHighPriPool := False\<rparr>) (hp' e) = Some (h\<lparr>InHighPriPool := False\<rparr>)"
    using assms by (simp add: pool_eq_def)
  then obtain h' where h': "hp' e = Some h'" "h'\<lparr>InHighPriPool := False\<rparr> = h\<lparr>InHighPriPool := False\<rparr>" by auto
  have "h' = h\<lparr>InHighPriPool := InHighPriPool h'\<rparr>"
    using arg_cong [OF h'(2), of "\<lambda>x. x\<lparr>InHighPriPool := InHighPriPool h'\<rparr>"] by simp
  then show ?thesis using that [of "InHighPriPool h'"] h'(1) by simp
qed

lemma pool_eq_sym: "pool_eq hp hp' \<Longrightarrow> pool_eq hp' hp"
  by (simp add: pool_eq_def)

lemma pool_eq_None: "pool_eq hp hp' \<Longrightarrow> hp' e = None \<longleftrightarrow> hp e = None"
  using pool_eq_Some [of hp hp' e] pool_eq_Some [of hp' hp e] pool_eq_sym by (metis not_None_eq)

lemma pool_eq_charge: "pool_eq hp hp' \<Longrightarrow> charge_of hp' e = charge_of hp e"
proof -
  have "charge_of hp e = (case map_option (\<lambda>h. h\<lparr>InHighPriPool := False\<rparr>) (hp e) of None \<Rightarrow> 0 | Some h \<Rightarrow> h_charge h)" for hp
    by (cases "hp e") (simp_all add: charge_of_def)
  then show "pool_eq hp hp' \<Longrightarrow> ?thesis" unfolding pool_eq_def by (simp only:)
qed

lemma pool_eq_total: "pool_eq hp hp' \<Longrightarrow> total hp' S = total hp S"
  by (rule total_cong) (rule pool_eq_charge)

lemma pool_loop_spec:
  assumes "lru_split low high sh" "length high \<le> n" "0 \<le> high_pri_pool_capacity sh"
  shows "\<exists>p q hp' low' high'. pool_loop n sh = Some (sh\<lparr>lru_low_pri := p, high_pri_pool_usage := q, heap_of := hp'\<rparr>) \<and>
    lru_split low' high' (sh\<lparr>lru_low_pri := p, high_pri_pool_usage := q, heap_of := hp'\<rparr>) \<and> pool_eq (heap_of sh) hp'"
  using assms
proof (induction n arbitrary: low high sh)
  case 0
  then have "high_pri_pool_usage sh = 0" by (simp add: lru_split_def total_def)
  then have "pool_loop 0 sh = Some (sh\<lparr>lru_low_pri := lru_low_pri sh, high_pri_pool_usage := high_pri_pool_usage sh, heap_of := heap_of sh\<rparr>)"
    using "0.prems"(3) by simp
  moreover have "lru_split low high (sh\<lparr>lru_low_pri := lru_low_pri sh, high_pri_pool_usage := high_pri_pool_usage sh, heap_of := heap_of sh\<rparr>)"
    using "0.prems"(1) by simp
  ultimately show ?case using pool_eq_refl by blast
next
  case (Suc n)
  show ?case
  proof (cases "of_nat (high_pri_pool_usage sh) > high_pri_pool_capacity sh")
    case False
    then have "pool_loop (Suc n) sh = Some (sh\<lparr>lru_low_pri := lru_low_pri sh, high_pri_pool_usage := high_pri_pool_usage sh, heap_of := heap_of sh\<rparr>)"
      by simp
    moreover have "lru_split low high (sh\<lparr>lru_low_pri := lru_low_pri sh, high_pri_pool_usage := high_pri_pool_usage sh, heap_of := heap_of sh\<rparr>)"
      using Suc.prems(1) by simp
    ultimately show ?thesis using pool_eq_refl by blast
  next
    case True
    have "high \<noteq> []" using True Suc.prems(1,3) by (auto simp: lru_split_def total_def)
    then obtain e rest where high: "high = e # rest" by (cases high) auto
    have nx: "next_of (lru sh) (lru_low_pri sh) = Some e"
      using Suc.prems(1) next_of_low [of low high] high by (simp add: lru_split_def)
    obtain h where h: "heap_of sh e = Some h" using Suc.prems(1) high by (auto simp: lru_split_def pooled_def)
    let ?hp = "(heap_of sh)(e \<mapsto> h\<lparr>InHighPriPool := False\<rparr>)"
    define sh1 where "sh1 = sh\<lparr>lru_low_pri := Some e, heap_of := ?hp, high_pri_pool_usage := high_pri_pool_usage sh - h_charge h\<rparr>"
    have step: "pool_loop (Suc n) sh = pool_loop n sh1" using True nx h by (simp add: set_handle_def sh1_def Let_def)
    have pe: "pool_eq (heap_of sh) ?hp" using h by (rule pool_eq_upd)
    have e: "e \<notin> set low" "e \<notin> set rest" "finite (set rest)" using Suc.prems(1) high by (auto simp: lru_split_def)
    have "high_pri_pool_usage sh = h_charge h + total (heap_of sh) (set rest)"
      using Suc.prems(1) high total_insert [OF e(3,2)] h by (simp add: lru_split_def charge_of_Some)
    then have sp1: "lru_split (low @ [e]) rest sh1"
      using Suc.prems(1) high e pool_eq_total [OF pe] by (auto simp: lru_split_def sh1_def pooled_def)
    have "length rest \<le> n" "0 \<le> high_pri_pool_capacity sh1" using Suc.prems(2,3) high by (simp_all add: sh1_def)
    from Suc.IH [OF sp1 this] obtain p q hp' low' high' where
      r: "pool_loop n sh1 = Some (sh1\<lparr>lru_low_pri := p, high_pri_pool_usage := q, heap_of := hp'\<rparr>)"
        "lru_split low' high' (sh1\<lparr>lru_low_pri := p, high_pri_pool_usage := q, heap_of := hp'\<rparr>)"
        "pool_eq (heap_of sh1) hp'"
      by blast
    have e1: "sh1\<lparr>lru_low_pri := p, high_pri_pool_usage := q, heap_of := hp'\<rparr> = sh\<lparr>lru_low_pri := p, high_pri_pool_usage := q, heap_of := hp'\<rparr>"
      by (simp add: sh1_def)
    have pe': "pool_eq (heap_of sh) hp'" using pool_eq_trans [OF pe] r(3) by (simp add: sh1_def)
    show ?thesis unfolding step by (intro exI conjI, rule r(1) [unfolded e1], rule r(2) [unfolded e1], rule pe')
  qed
qed

lemma LRU_Insert_spec:
  assumes "lru_inv sh" "heap_of sh e = Some h" "e \<notin> set (lru sh)" "0 \<le> high_pri_pool_capacity sh"
  shows "\<exists>l p u q hp'. LRU_Insert e sh = Some (sh\<lparr>lru := l, lru_low_pri := p, lru_usage := u, high_pri_pool_usage := q, heap_of := hp'\<rparr>) \<and>
    lru_inv (sh\<lparr>lru := l, lru_low_pri := p, lru_usage := u, high_pri_pool_usage := q, heap_of := hp'\<rparr>) \<and>
    set l = insert e (set (lru sh)) \<and> pool_eq (heap_of sh) hp'"
proof -
  obtain low high where sp: "lru_split low high sh" using assms(1) by (auto simp: lru_inv_def)
  have l: "lru sh = low @ high" "distinct (low @ high)" "e \<notin> set low" "e \<notin> set high"
    using sp assms(3) by (auto simp: lru_split_def)
  have ch: "charge_of (heap_of sh) e = h_charge h" using assms(2) by (rule charge_of_Some)
  have u: "total (heap_of sh) (insert e (set (lru sh))) = lru_usage sh + h_charge h"
    using assms(1,3) total_insert [of "set (lru sh)" e "heap_of sh"] ch by (simp add: lru_inv_def)
  show ?thesis
  proof (cases "high_pri_pool_ratio sh > 0 \<and> IsHighPri h")
    case True
    let ?hp = "(heap_of sh)(e \<mapsto> h\<lparr>InHighPriPool := True\<rparr>)"
    define sh1 where "sh1 = sh\<lparr>lru := lru sh @ [e], heap_of := ?hp, high_pri_pool_usage := high_pri_pool_usage sh + h_charge h\<rparr>"
    have pe: "pool_eq (heap_of sh) ?hp" using assms(2) by (rule pool_eq_upd)
    have sp1: "lru_split low (high @ [e]) sh1"
      using sp l pool_eq_total [OF pe] total_insert [of "set high" e "heap_of sh"] ch
      by (auto simp: lru_split_def sh1_def pooled_def)
    have "length (high @ [e]) \<le> length (lru sh1)" "0 \<le> high_pri_pool_capacity sh1" using assms(4) l(1) by (simp_all add: sh1_def)
    from pool_loop_spec [OF sp1 this] obtain p q hp' low' high' where
      r: "MaintainPoolSize sh1 = Some (sh1\<lparr>lru_low_pri := p, high_pri_pool_usage := q, heap_of := hp'\<rparr>)"
        "lru_split low' high' (sh1\<lparr>lru_low_pri := p, high_pri_pool_usage := q, heap_of := hp'\<rparr>)" "pool_eq (heap_of sh1) hp'"
      unfolding MaintainPoolSize_def by blast
    have pe': "pool_eq (heap_of sh) hp'" using pool_eq_trans [OF pe] r(3) by (simp add: sh1_def)
    let ?sh = "sh\<lparr>lru := lru sh @ [e], lru_low_pri := p, lru_usage := lru_usage sh + h_charge h, high_pri_pool_usage := q, heap_of := hp'\<rparr>"
    have eq: "LRU_Insert e sh = Some ?sh"
      using True assms(2,3) r(1) by (simp add: LRU_Insert_def set_handle_def Let_def sh1_def)
    have "lru_split low' high' ?sh" using r(2) by (simp add: lru_split_def sh1_def)
    then have inv: "lru_inv ?sh" using pool_eq_total [OF pe'] u by (auto simp: lru_inv_def)
    have st: "set (lru sh @ [e]) = insert e (set (lru sh))" by auto
    show ?thesis by (intro exI conjI, rule eq, rule inv, rule st, rule pe')
  next
    case False
    let ?hp = "(heap_of sh)(e \<mapsto> h\<lparr>InHighPriPool := False\<rparr>)"
    have pe: "pool_eq (heap_of sh) ?hp" using assms(2) by (rule pool_eq_upd)
    let ?sh = "sh\<lparr>lru := low @ e # high, lru_low_pri := Some e, lru_usage := lru_usage sh + h_charge h,
      high_pri_pool_usage := high_pri_pool_usage sh, heap_of := ?hp\<rparr>"
    have "insert_after (lru sh) (lru_low_pri sh) e = low @ e # high"
      using sp insert_after_low [of low high e] by (simp add: lru_split_def)
    then have eq: "LRU_Insert e sh = Some ?sh"
      using False assms(2,3) by (auto simp: LRU_Insert_def set_handle_def Let_def)
    have "lru_split (low @ [e]) high ?sh"
      using sp l pool_eq_total [OF pe] by (auto simp: lru_split_def pooled_def)
    then have inv: "lru_inv ?sh" using pool_eq_total [OF pe] u l(1) by (auto simp: lru_inv_def Un_commute)
    have st: "set (low @ e # high) = insert e (set (lru sh))" using l(1) by auto
    show ?thesis by (intro exI conjI, rule eq, rule inv, rule st, rule pe)
  qed
qed

section \<open>Reference counts\<close>

text \<open>\<open>ext e\<close> is the number of references to a handle that clients hold.\<close>

definition handle_ok :: "(nat \<Rightarrow> nat) \<Rightarrow> LRUHandleTable \<Rightarrow> nat \<Rightarrow> LRUHandle \<Rightarrow> bool" where
  "handle_ok ext t e h \<longleftrightarrow>
     (InCache h \<longleftrightarrow> e \<in> entries t) \<and> h_refs h = ext e + (if InCache h then 1 else 0) \<and> 0 < h_refs h"

text \<open>\<open>X\<close> are the handles that are in memory but no longer, or not yet, in use.\<close>

definition mem_ok :: "nat set \<Rightarrow> (nat \<Rightarrow> nat) \<Rightarrow> heap \<Rightarrow> LRUHandleTable \<Rightarrow> nat \<Rightarrow> nat list \<Rightarrow> bool" where
  "mem_ok X ext hp t nxt del \<longleftrightarrow>
     table_inv hp t \<and> finite (dom hp) \<and> X \<subseteq> dom hp \<and> dom hp \<subseteq> {..<nxt} \<and>
     (\<forall>e h. hp e = Some h \<longrightarrow> e \<notin> X \<longrightarrow> handle_ok ext t e h) \<and>
     (\<forall>e. 0 < ext e \<longrightarrow> e \<in> dom hp - X) \<and> X \<inter> entries t = {} \<and>
     distinct del \<and> set del \<inter> dom hp = {} \<and> set del \<subseteq> {..<nxt}"

definition base :: "nat set \<Rightarrow> (nat \<Rightarrow> nat) \<Rightarrow> LRUCacheShard \<Rightarrow> bool" where
  "base X ext sh \<longleftrightarrow>
     mem_ok X ext (heap_of sh) (table sh) (next_addr sh) (deleted sh) \<and> lru_inv sh \<and>
     set (lru sh) = {e \<in> entries (table sh). ext e = 0} \<and>
     usage sh = total (heap_of sh) (dom (heap_of sh) - X) \<and>
     0 \<le> high_pri_pool_capacity sh \<and> 0 \<le> high_pri_pool_ratio sh"

definition freeable :: "heap \<Rightarrow> nat \<Rightarrow> bool" where
  "freeable hp e \<longleftrightarrow> (\<exists>h. hp e = Some h \<and> (h_refs h = 1 \<and> InCache h \<or> h_refs h = 0 \<and> \<not> InCache h))"

lemma key_hash_upd: "hp e = Some h \<Longrightarrow> h_key h' = h_key h \<Longrightarrow> h_hash h' = h_hash h \<Longrightarrow> key_hash (hp(e \<mapsto> h')) = key_hash hp"
  by (auto simp: key_hash_def fun_eq_iff)

lemma mem_ok_update:
  assumes "mem_ok X ext hp t nxt del" "hp e = Some h" "h_key h' = h_key h" "h_hash h' = h_hash h"
    "table_inv hp t'" "\<And>x. x \<noteq> e \<Longrightarrow> x \<in> entries t' \<longleftrightarrow> x \<in> entries t" "\<And>x. x \<noteq> e \<Longrightarrow> ext' x = ext x"
    "X' - {e} = X - {e}" "e \<notin> X' \<Longrightarrow> handle_ok ext' t' e h'" "e \<in> X' \<Longrightarrow> ext' e = 0 \<and> e \<notin> entries t'"
  shows "mem_ok X' ext' (hp(e \<mapsto> h')) t' nxt del"
proof -
  have X': "x \<in> X' \<longleftrightarrow> x \<in> X" if "x \<noteq> e" for x using assms(8) that by blast
  have d: "dom (hp(e \<mapsto> h')) = dom hp" using assms(2) by auto
  have "table_inv (hp(e \<mapsto> h')) t'"
    using lru_table.inv_frame [OF assms(5)] key_hash_upd [of hp e h h'] assms(2-4) by simp
  moreover have "handle_ok ext' t' x k" if "(hp(e \<mapsto> h')) x = Some k" "x \<notin> X'" for x k
  proof (cases "x = e")
    case True
    then show ?thesis using that assms(9) by simp
  next
    case False
    then have "handle_ok ext t x k" using that assms(1) X' by (auto simp: mem_ok_def)
    then show ?thesis unfolding handle_ok_def assms(6,7) [OF False] .
  qed
  moreover have "x \<in> dom hp - X'" if "0 < ext' x" for x
    using that assms(1,2,7,10) X' by (cases "x = e") (auto simp: mem_ok_def)
  moreover have "X' \<subseteq> dom hp"
  proof
    fix x assume "x \<in> X'"
    then show "x \<in> dom hp" using assms(1,2) X' [of x] unfolding mem_ok_def by (cases "x = e") auto
  qed
  moreover have "X' \<inter> entries t' = {}"
  proof -
    have "x \<notin> entries t'" if "x \<in> X'" for x
      using that assms(1,10) assms(6) [of x] X' [of x] unfolding mem_ok_def by (cases "x = e") auto
    then show ?thesis by blast
  qed
  ultimately show ?thesis using assms(1) unfolding mem_ok_def d by blast
qed

lemma mem_ok_pool:
  assumes "pool_eq hp hp'" "mem_ok X ext hp t nxt del"
  shows "mem_ok X ext hp' t nxt del"
proof -
  have d: "dom hp' = dom hp" using pool_eq_None [OF assms(1)] unfolding dom_def by simp
  have k: "key_hash hp' e = key_hash hp e" for e
  proof (cases "hp e")
    case None
    then show ?thesis using pool_eq_None [OF assms(1), of e] by (simp add: key_hash_def)
  next
    case (Some h)
    then obtain b where "hp' e = Some (h\<lparr>InHighPriPool := b\<rparr>)" using pool_eq_Some [OF assms(1)] by blast
    then show ?thesis using Some by (simp add: key_hash_def)
  qed
  have "table_inv hp' t" using assms(2) lru_table.inv_frame [of hp t hp'] k by (simp add: mem_ok_def)
  moreover have "handle_ok ext t e h'" if h': "hp' e = Some h'" "e \<notin> X" for e h'
  proof -
    obtain b where "hp e = Some (h'\<lparr>InHighPriPool := b\<rparr>)" using pool_eq_Some [OF pool_eq_sym [OF assms(1)] h'(1)] by blast
    then have "handle_ok ext t e (h'\<lparr>InHighPriPool := b\<rparr>)" using assms(2) h'(2) by (auto simp: mem_ok_def)
    then show ?thesis unfolding handle_ok_def by auto
  qed
  ultimately show ?thesis using assms(2) unfolding mem_ok_def d by blast
qed

lemma Free_spec:
  assumes "mem_ok X ext (heap_of sh) (table sh) (next_addr sh) (deleted sh)" "e \<in> X" "freeable (heap_of sh) e"
  shows "\<exists>hp' del'. Free e sh = Some (sh\<lparr>heap_of := hp', deleted := del'\<rparr>) \<and>
    mem_ok (X - {e}) ext hp' (table sh) (next_addr sh) del' \<and> hp' = (heap_of sh)(e := None)"
proof -
  let ?hp = "(heap_of sh)(e := None)"
  have e: "e \<notin> entries (table sh)" "e \<in> dom (heap_of sh)" using assms(1,2) by (auto simp: mem_ok_def)
  have f: "Free e sh = Some (sh\<lparr>heap_of := ?hp, deleted := deleted sh @ [e]\<rparr>)"
    using assms(3) by (auto simp: Free_def freeable_def)
  have "table_inv ?hp (table sh)"
    using assms(1) lru_table.inv_frame [of "heap_of sh" "table sh" ?hp] e(1) by (auto simp: mem_ok_def key_hash_def)
  moreover have d: "dom ?hp = dom (heap_of sh) - {e}" by auto
  ultimately have "mem_ok (X - {e}) ext ?hp (table sh) (next_addr sh) (deleted sh @ [e])"
    using assms(1,2) e unfolding mem_ok_def d by (auto split: if_splits)
  then show ?thesis using f by blast
qed

lemma lru_inv_heap:
  assumes "lru_inv sh" "\<And>x. x \<in> set (lru sh) \<Longrightarrow> hp' x = heap_of sh x"
  shows "lru_inv (sh\<lparr>heap_of := hp'\<rparr>)"
proof -
  obtain low high where sp: "lru_split low high sh" using assms(1) by (auto simp: lru_inv_def)
  then have l: "lru sh = low @ high" by (simp add: lru_split_def)
  have ch: "charge_of hp' x = charge_of (heap_of sh) x" if "x \<in> set (lru sh)" for x
    using assms(2) [OF that] by (simp add: charge_of_def)
  have "total hp' (set high) = total (heap_of sh) (set high)" "total hp' (set (lru sh)) = total (heap_of sh) (set (lru sh))"
    using ch l by (auto intro!: total_cong)
  moreover have "pooled hp' b x = pooled (heap_of sh) b x" if "x \<in> set (lru sh)" for b x
    using assms(2) [OF that] by (simp add: pooled_def)
  ultimately have "lru_split low high (sh\<lparr>heap_of := hp'\<rparr>)" using sp l by (simp add: lru_split_def)
  then show ?thesis using assms(1) \<open>total hp' (set (lru sh)) = _\<close> by (auto simp: lru_inv_def)
qed

lemma lru_inv_distinct: "lru_inv sh \<Longrightarrow> distinct (lru sh)"
proof -
  assume "lru_inv sh"
  then obtain low high where "lru_split low high sh" by (auto simp: lru_inv_def)
  then show ?thesis by (simp add: lru_split_def)
qed

lemma lru_inv_cong:
  "lru_inv sh \<Longrightarrow> lru sh' = lru sh \<Longrightarrow> lru_low_pri sh' = lru_low_pri sh \<Longrightarrow> lru_usage sh' = lru_usage sh \<Longrightarrow>
   high_pri_pool_usage sh' = high_pri_pool_usage sh \<Longrightarrow> heap_of sh' = heap_of sh \<Longrightarrow> lru_inv sh'"
  by (simp add: lru_inv_def lru_split_def)

lemma base_Free:
  assumes "base X ext sh" "e \<in> X" "freeable (heap_of sh) e"
  obtains del' where "Free e sh = Some (sh\<lparr>heap_of := (heap_of sh)(e := None), deleted := del'\<rparr>)"
    "base (X - {e}) ext (sh\<lparr>heap_of := (heap_of sh)(e := None), deleted := del'\<rparr>)"
proof -
  let ?hp = "(heap_of sh)(e := None)"
  obtain del' where f: "Free e sh = Some (sh\<lparr>heap_of := ?hp, deleted := del'\<rparr>)"
      "mem_ok (X - {e}) ext ?hp (table sh) (next_addr sh) del'"
    using Free_spec [OF _ assms(2,3)] assms(1) by (auto simp: base_def)
  have e: "e \<notin> entries (table sh)" using assms(1,2) by (auto simp: base_def mem_ok_def)
  have "e \<notin> set (lru sh)" using e assms(1) by (simp add: base_def)
  then have "lru_inv (sh\<lparr>heap_of := ?hp\<rparr>)" using assms(1) by (intro lru_inv_heap) (auto simp: base_def)
  then have li: "lru_inv (sh\<lparr>heap_of := ?hp, deleted := del'\<rparr>)" by (rule lru_inv_cong) simp_all
  have "total ?hp (dom ?hp - (X - {e})) = total (heap_of sh) (dom (heap_of sh) - X)"
  proof -
    have "dom ?hp - (X - {e}) = dom (heap_of sh) - X" using assms(2) by auto
    moreover have "total ?hp (dom (heap_of sh) - X) = total (heap_of sh) (dom (heap_of sh) - X)"
      using assms(2) by (intro total_cong) (auto simp: charge_of_def)
    ultimately show ?thesis by simp
  qed
  then have "base (X - {e}) ext (sh\<lparr>heap_of := ?hp, deleted := del'\<rparr>)"
    using assms(1) f(2) li unfolding base_def by simp
  then show ?thesis using that f(1) by blast
qed

lemma base_FreeAll:
  assumes "base X ext sh" "distinct es" "set es = X" "\<forall>e \<in> X. freeable (heap_of sh) e"
  shows "\<exists>hp' del'. FreeAll es sh = Some (sh\<lparr>heap_of := hp', deleted := del'\<rparr>) \<and>
    base {} ext (sh\<lparr>heap_of := hp', deleted := del'\<rparr>) \<and> (\<forall>x. hp' x = (if x \<in> X then None else heap_of sh x))"
  using assms
proof (induction es arbitrary: X sh)
  case Nil
  have "sh = sh\<lparr>heap_of := heap_of sh, deleted := deleted sh\<rparr>" by simp
  then show ?case using Nil by (intro exI [of _ "heap_of sh"] exI [of _ "deleted sh"]) auto
next
  case (Cons e es)
  have e: "e \<in> X" "freeable (heap_of sh) e" using Cons.prems by auto
  obtain del1 where f: "Free e sh = Some (sh\<lparr>heap_of := (heap_of sh)(e := None), deleted := del1\<rparr>)"
      "base (X - {e}) ext (sh\<lparr>heap_of := (heap_of sh)(e := None), deleted := del1\<rparr>)"
    using base_Free [OF Cons.prems(1) e] by blast
  have s: "set es = X - {e}" "distinct es" using Cons.prems(2,3) by auto
  have fr: "\<forall>x \<in> X - {e}. freeable (heap_of (sh\<lparr>heap_of := (heap_of sh)(e := None), deleted := del1\<rparr>)) x"
    using Cons.prems(4) by (auto simp: freeable_def)
  from Cons.IH [OF f(2) s(2,1) fr] obtain hp' del' where r:
      "FreeAll es (sh\<lparr>heap_of := (heap_of sh)(e := None), deleted := del1\<rparr>) = Some (sh\<lparr>heap_of := hp', deleted := del'\<rparr>)"
      "base {} ext (sh\<lparr>heap_of := hp', deleted := del'\<rparr>)"
      "\<forall>x. hp' x = (if x \<in> X - {e} then None else ((heap_of sh)(e := None)) x)"
    by auto
  have eq: "FreeAll (e # es) sh = Some (sh\<lparr>heap_of := hp', deleted := del'\<rparr>)" using f(1) r(1) by simp
  have hp': "\<forall>x. hp' x = (if x \<in> X then None else heap_of sh x)"
  proof
    fix x
    show "hp' x = (if x \<in> X then None else heap_of sh x)" using r(3) [rule_format, of x] e(1) by (cases "x = e") simp_all
  qed
  show ?case by (intro exI conjI, rule eq, rule r(2), rule hp')
qed

definition ev_rel :: "nat set \<Rightarrow> LRUCacheShard \<Rightarrow> LRUCacheShard \<Rightarrow> bool" where
  "ev_rel D sh sh' \<longleftrightarrow>
     capacity sh' = capacity sh \<and> strict_capacity_limit sh' = strict_capacity_limit sh \<and>
     next_addr sh' = next_addr sh \<and> deleted sh' = deleted sh \<and>
     entries (table sh') = entries (table sh) - D \<and> (\<forall>x. x \<notin> D \<longrightarrow> heap_of sh' x = heap_of sh x)"

lemma evict_one_spec:
  assumes "base X ext sh" "lru sh = old # rest"
  shows "\<exists>sh'. evict_one old sh = Some sh' \<and> base (insert old X) ext sh' \<and> lru sh' = rest \<and> old \<notin> X \<and>
    freeable (heap_of sh') old \<and> ev_rel {old} sh sh'"
proof -
  let ?hp = "heap_of sh"
  have m: "mem_ok X ext ?hp (table sh) (next_addr sh) (deleted sh)" and li: "lru_inv sh"
    using assms(1) by (auto simp: base_def)
  have "old \<in> {e \<in> entries (table sh). ext e = 0}" using assms by (auto simp: base_def)
  then have old: "old \<in> entries (table sh)" "ext old = 0" by auto
  have ti: "table_inv ?hp (table sh)" using m by (simp add: mem_ok_def)
  obtain h where h: "?hp old = Some h" using lru_table.elems_live [OF ti old(1)] by blast
  have oX: "old \<notin> X" using old(1) m by (auto simp: mem_ok_def)
  then have "handle_ok ext (table sh) old h" using h m by (auto simp: mem_ok_def)
  then have h1: "InCache h" "h_refs h = 1" using old by (auto simp: handle_ok_def)
  obtain p u q where r: "LRU_Remove old sh = Some (sh\<lparr>lru := rest, lru_low_pri := p, lru_usage := u, high_pri_pool_usage := q\<rparr>)"
      "lru_inv (sh\<lparr>lru := rest, lru_low_pri := p, lru_usage := u, high_pri_pool_usage := q\<rparr>)"
    using LRU_Remove_spec [OF li, of old] assms(2) by auto
  obtain t' where t': "Table_Remove ?hp (h_key h) (h_hash h) (table sh) = Some (Some old, t')" "table_inv ?hp t'"
      "entries t' = entries (table sh) - {old}"
    using lru_table.remove_entry [OF ti old(1), of "h_key h" "h_hash h"] h by (auto simp: key_hash_def)
  let ?h = "h\<lparr>InCache := False, h_refs := 0\<rparr>"
  let ?sh = "sh\<lparr>lru := rest, lru_low_pri := p, lru_usage := u, high_pri_pool_usage := q, table := t', heap_of := ?hp(old \<mapsto> ?h), usage := usage sh - h_charge h\<rparr>"
  have eq: "evict_one old sh = Some ?sh"
    using h h1 r(1) t'(1) by (simp add: evict_one_def Let_def Unref_def set_handle_def)
  have "mem_ok (insert old X) ext (?hp(old \<mapsto> ?h)) t' (next_addr sh) (deleted sh)"
    using t' old(2) by (intro mem_ok_update [OF m h]) auto
  moreover have "lru_inv ?sh"
  proof -
    have "distinct (old # rest)" using lru_inv_distinct [OF li] assms(2) by simp
    then have "lru_inv (sh\<lparr>lru := rest, lru_low_pri := p, lru_usage := u, high_pri_pool_usage := q, heap_of := ?hp(old \<mapsto> ?h)\<rparr>)"
      by (intro lru_inv_heap [OF r(2)]) auto
    then show ?thesis by (rule lru_inv_cong) simp_all
  qed
  moreover have "set rest = {e \<in> entries t'. ext e = 0}"
  proof -
    have "distinct (old # rest)" using lru_inv_distinct [OF li] assms(2) by simp
    then have "set rest = set (lru sh) - {old}" using assms(2) by auto
    then show ?thesis using assms(1) t'(3) by (auto simp: base_def)
  qed
  moreover have "usage sh - h_charge h = total (?hp(old \<mapsto> ?h)) (dom (?hp(old \<mapsto> ?h)) - insert old X)"
  proof -
    let ?D = "dom ?hp - X"
    have "finite ?D" "old \<in> ?D" using m oX h by (auto simp: mem_ok_def)
    then have "total ?hp (?D - {old}) = usage sh - h_charge h"
      using total_remove assms(1) h by (simp add: base_def charge_of_Some)
    moreover have "dom (?hp(old \<mapsto> ?h)) - insert old X = ?D - {old}" by auto
    moreover have "total (?hp(old \<mapsto> ?h)) (?D - {old}) = total ?hp (?D - {old})"
      by (intro total_cong) (auto simp: charge_of_def)
    ultimately show ?thesis by simp
  qed
  ultimately have "base (insert old X) ext ?sh" using assms(1) by (simp add: base_def)
  moreover have "freeable (heap_of ?sh) old" by (simp add: freeable_def)
  moreover have "ev_rel {old} sh ?sh" using t'(3) by (simp add: ev_rel_def)
  ultimately show ?thesis using eq oX by (intro exI [of _ ?sh]) simp
qed

definition evicted :: "nat list \<Rightarrow> nat set \<Rightarrow> (nat \<Rightarrow> nat) \<Rightarrow> LRUCacheShard \<Rightarrow> LRUCacheShard \<Rightarrow> bool" where
  "evicted del X ext sh sh' \<longleftrightarrow>
     distinct del \<and> set del \<inter> X = {} \<and> base (X \<union> set del) ext sh' \<and> ev_rel (set del) sh sh' \<and>
     (\<forall>e \<in> set del. freeable (heap_of sh') e)"

lemma evicted_none: "base X ext sh \<Longrightarrow> evicted [] X ext sh sh"
  by (simp add: evicted_def ev_rel_def)

lemma evicted_Cons:
  assumes "ev_rel {old} sh sh1" "old \<notin> X" "freeable (heap_of sh1) old" "evicted del (insert old X) ext sh1 sh'"
  shows "evicted (old # del) X ext sh sh'"
proof -
  have "old \<notin> set del" using assms(4) by (auto simp: evicted_def)
  then have "heap_of sh' old = heap_of sh1 old" using assms(4) by (simp add: evicted_def ev_rel_def)
  then have "freeable (heap_of sh') old" using assms(3) by (simp add: freeable_def)
  moreover have "ev_rel (set (old # del)) sh sh'" using assms(1,4) by (auto simp: evicted_def ev_rel_def)
  moreover have "X \<union> set (old # del) = insert old X \<union> set del" by auto
  ultimately show ?thesis using assms(2,4) \<open>old \<notin> set del\<close> by (auto simp: evicted_def)
qed

lemma EvictFromLRU_loop_spec:
  assumes "base X ext sh" "length (lru sh) \<le> n"
  shows "\<exists>del sh'. EvictFromLRU_loop c n d0 sh = Some (d0 @ del, sh') \<and> evicted del X ext sh sh' \<and>
    (usage sh' + c \<le> capacity sh' \<or> lru sh' = [])"
  using assms
proof (induction n arbitrary: X sh d0)
  case 0
  then show ?case using evicted_none by (intro exI [of _ "[]"] exI [of _ sh]) auto
next
  case (Suc n)
  show ?case
  proof (cases "lru sh = [] \<or> usage sh + c \<le> capacity sh")
    case True
    then have "EvictFromLRU_loop c (Suc n) d0 sh = Some (d0 @ [], sh)" by (auto split: list.splits)
    then show ?thesis using True evicted_none [OF Suc.prems(1)] by blast
  next
    case False
    then obtain old rest where l: "lru sh = old # rest" by (cases "lru sh") auto
    obtain sh1 where e: "evict_one old sh = Some sh1" "base (insert old X) ext sh1" "lru sh1 = rest" "old \<notin> X"
        "freeable (heap_of sh1) old" "ev_rel {old} sh sh1"
      using evict_one_spec [OF Suc.prems(1) l] by blast
    have "length (lru sh1) \<le> n" using Suc.prems(2) l e(3) by simp
    from Suc.IH [OF e(2) this, of "d0 @ [old]"] obtain del sh' where
      ih: "EvictFromLRU_loop c n (d0 @ [old]) sh1 = Some ((d0 @ [old]) @ del, sh')" "evicted del (insert old X) ext sh1 sh'"
        "usage sh' + c \<le> capacity sh' \<or> lru sh' = []"
      by blast
    have "EvictFromLRU_loop c (Suc n) d0 sh = Some (d0 @ old # del, sh')" using False l e(1) ih(1) by simp
    moreover have "evicted (old # del) X ext sh sh'" by (rule evicted_Cons [OF e(6,4,5) ih(2)])
    ultimately show ?thesis using ih(3) by blast
  qed
qed

lemma EvictFromLRU_spec:
  assumes "base X ext sh"
  obtains del sh' where "EvictFromLRU c sh = Some (del, sh')" "evicted del X ext sh sh'"
    "usage sh' + c \<le> capacity sh' \<or> lru sh' = []"
proof -
  obtain del sh' where "EvictFromLRU c sh = Some ([] @ del, sh')" "evicted del X ext sh sh'"
      "usage sh' + c \<le> capacity sh' \<or> lru sh' = []"
    using EvictFromLRU_loop_spec [OF assms order_refl, of c "[]"] unfolding EvictFromLRU_def by blast
  then show ?thesis using that by simp
qed

lemma erase_loop_spec:
  assumes "base X ext sh" "length (lru sh) \<le> n"
  shows "\<exists>del sh'. erase_loop n d0 sh = Some (d0 @ del, sh') \<and> evicted del X ext sh sh' \<and> lru sh' = []"
  using assms
proof (induction n arbitrary: X sh d0)
  case 0
  then show ?case using evicted_none by (intro exI [of _ "[]"] exI [of _ sh]) auto
next
  case (Suc n)
  show ?case
  proof (cases "lru sh")
    case Nil
    then have "erase_loop (Suc n) d0 sh = Some (d0 @ [], sh)" by simp
    then show ?thesis using Nil evicted_none [OF Suc.prems(1)] by blast
  next
    case l: (Cons old rest)
    obtain sh1 where e: "evict_one old sh = Some sh1" "base (insert old X) ext sh1" "lru sh1 = rest" "old \<notin> X"
        "freeable (heap_of sh1) old" "ev_rel {old} sh sh1"
      using evict_one_spec [OF Suc.prems(1) l] by blast
    have "length (lru sh1) \<le> n" using Suc.prems(2) l e(3) by simp
    from Suc.IH [OF e(2) this, of "d0 @ [old]"] obtain del sh' where
      ih: "erase_loop n (d0 @ [old]) sh1 = Some ((d0 @ [old]) @ del, sh')" "evicted del (insert old X) ext sh1 sh'" "lru sh' = []"
      by blast
    have "erase_loop (Suc n) d0 sh = Some (d0 @ old # del, sh')" using l e(1) ih(1) by simp
    moreover have "evicted (old # del) X ext sh sh'" by (rule evicted_Cons [OF e(6,4,5) ih(2)])
    ultimately show ?thesis using ih(3) by blast
  qed
qed

section \<open>The invariant of a shard\<close>

definition cache_inv :: "(nat \<Rightarrow> nat) \<Rightarrow> LRUCacheShard \<Rightarrow> bool" where
  "cache_inv ext sh \<longleftrightarrow> base {} ext sh \<and> (usage sh \<le> capacity sh \<or> lru sh = [])"

text \<open>Freeing the evicted entries ends the operations that evict.\<close>

lemma evicted_FreeAll:
  assumes "evicted del {} ext sh sh'" "usage sh' \<le> capacity sh' \<or> lru sh' = []"
  obtains sh'' where "FreeAll del sh' = Some sh''" "cache_inv ext sh''"
    "capacity sh'' = capacity sh" "strict_capacity_limit sh'' = strict_capacity_limit sh" "usage sh'' = usage sh'"
    "lru sh'' = lru sh'" "table sh'' = table sh'" "heap_of sh'' = (\<lambda>x. if x \<in> set del then None else heap_of sh x)"
proof -
  have e: "distinct del" "base (set del) ext sh'" "\<forall>e \<in> set del. freeable (heap_of sh') e" "ev_rel (set del) sh sh'"
    using assms(1) by (auto simp: evicted_def)
  obtain hp' del' where f: "FreeAll del sh' = Some (sh'\<lparr>heap_of := hp', deleted := del'\<rparr>)"
      "base {} ext (sh'\<lparr>heap_of := hp', deleted := del'\<rparr>)" "\<forall>x. hp' x = (if x \<in> set del then None else heap_of sh' x)"
    using base_FreeAll [OF e(2,1) refl e(3)] by blast
  have "hp' = (\<lambda>x. if x \<in> set del then None else heap_of sh x)" using f(3) e(4) by (auto simp: ev_rel_def fun_eq_iff)
  moreover have "cache_inv ext (sh'\<lparr>heap_of := hp', deleted := del'\<rparr>)" using f(2) assms(2) by (simp add: cache_inv_def)
  ultimately show ?thesis using that [OF f(1)] e(4) by (simp add: ev_rel_def)
qed

lemma SetCapacity_spec:
  assumes "cache_inv ext sh"
  shows "\<exists>sh'. SetCapacity cap sh = Some sh' \<and> cache_inv ext sh' \<and> capacity sh' = cap"
proof -
  define sh0 where "sh0 = sh\<lparr>capacity := cap, high_pri_pool_capacity := of_nat cap * high_pri_pool_ratio sh\<rparr>"
  have "lru_inv sh0" using assms by (auto simp: cache_inv_def base_def sh0_def intro: lru_inv_cong)
  then have "base {} ext sh0" using assms by (simp add: cache_inv_def base_def sh0_def)
  then obtain del sh1 where e: "EvictFromLRU 0 sh0 = Some (del, sh1)" "evicted del {} ext sh0 sh1"
      "usage sh1 + 0 \<le> capacity sh1 \<or> lru sh1 = []"
    using EvictFromLRU_spec by blast
  have "usage sh1 \<le> capacity sh1 \<or> lru sh1 = []" using e(3) by simp
  then obtain sh2 where "FreeAll del sh1 = Some sh2" "cache_inv ext sh2" "capacity sh2 = capacity sh0"
    using evicted_FreeAll [OF e(2)] by blast
  then show ?thesis using e(1) by (simp add: SetCapacity_def Let_def sh0_def)
qed

lemma EraseUnRefEntries_spec:
  assumes "cache_inv ext sh"
  shows "\<exists>sh'. EraseUnRefEntries sh = Some sh' \<and> cache_inv ext sh' \<and> lru sh' = [] \<and> capacity sh' = capacity sh"
proof -
  have b: "base {} ext sh" using assms by (simp add: cache_inv_def)
  obtain del sh1 where e: "erase_loop (length (lru sh)) [] sh = Some (del, sh1)" "evicted del {} ext sh sh1" "lru sh1 = []"
    using erase_loop_spec [OF b order_refl, of "[]"] by auto
  obtain sh2 where "FreeAll del sh1 = Some sh2" "cache_inv ext sh2" "capacity sh2 = capacity sh" "lru sh2 = lru sh1"
    using evicted_FreeAll [OF e(2)] e(3) by blast
  then show ?thesis using e(1,3) by (simp add: EraseUnRefEntries_def)
qed

lemma SetStrict_spec: "cache_inv ext sh \<Longrightarrow> cache_inv ext (SetStrictCapacityLimit b sh)"
  unfolding cache_inv_def base_def SetStrictCapacityLimit_def by (auto intro: lru_inv_cong)

lemma dom_pool_eq: "pool_eq hp hp' \<Longrightarrow> dom hp' = dom hp"
  using pool_eq_None [of hp hp'] unfolding dom_def by simp

lemma SetRatio_spec:
  assumes "cache_inv ext sh" "0 \<le> ratio"
  shows "\<exists>sh'. SetHighPriorityPoolRatio ratio sh = Some sh' \<and> cache_inv ext sh' \<and> capacity sh' = capacity sh"
proof -
  let ?sh = "sh\<lparr>high_pri_pool_ratio := ratio, high_pri_pool_capacity := of_nat (capacity sh) * ratio\<rparr>"
  have b: "base {} ext sh" using assms(1) by (simp add: cache_inv_def)
  then obtain low high where "lru_split low high sh" by (auto simp: base_def lru_inv_def)
  then have sp: "lru_split low high ?sh" by (simp add: lru_split_def)
  then have len: "length high \<le> length (lru ?sh)" by (simp add: lru_split_def)
  have "0 \<le> high_pri_pool_capacity ?sh" using assms(2) by simp
  from pool_loop_spec [OF sp len this] obtain p q hp' low' high' where
    r: "pool_loop (length (lru ?sh)) ?sh = Some (?sh\<lparr>lru_low_pri := p, high_pri_pool_usage := q, heap_of := hp'\<rparr>)"
      "lru_split low' high' (?sh\<lparr>lru_low_pri := p, high_pri_pool_usage := q, heap_of := hp'\<rparr>)" "pool_eq (heap_of ?sh) hp'"
    by blast
  have pe: "pool_eq (heap_of sh) hp'" using r(3) by simp
  have "lru_inv (?sh\<lparr>lru_low_pri := p, high_pri_pool_usage := q, heap_of := hp'\<rparr>)"
    using r(2) b pool_eq_total [OF pe] by (auto simp: lru_inv_def base_def)
  moreover have "mem_ok {} ext hp' (table sh) (next_addr sh) (deleted sh)"
    using mem_ok_pool [OF pe] b by (simp add: base_def)
  ultimately have "cache_inv ext (?sh\<lparr>lru_low_pri := p, high_pri_pool_usage := q, heap_of := hp'\<rparr>)"
    using assms pool_eq_total [OF pe] dom_pool_eq [OF pe] unfolding cache_inv_def base_def by auto
  then show ?thesis using r(1) by (simp add: SetHighPriorityPoolRatio_def MaintainPoolSize_def)
qed

lemma take_reference:
  assumes "base {} ext sh" "heap_of sh e = Some h"
  shows "\<exists>sh'. (if InCache h \<and> h_refs h = 1 then LRU_Remove e sh else Some sh) = Some sh' \<and>
    base {} (ext(e := ext e + 1)) (set_handle e (h\<lparr>h_refs := h_refs h + 1\<rparr>) sh') \<and>
    capacity sh' = capacity sh \<and> usage sh' = usage sh \<and> table sh' = table sh \<and> heap_of sh' = heap_of sh \<and>
    strict_capacity_limit sh' = strict_capacity_limit sh \<and> (lru sh = [] \<longrightarrow> lru sh' = [])"
proof -
  let ?hp = "heap_of sh" and ?h = "h\<lparr>h_refs := h_refs h + 1\<rparr>" and ?ext = "ext(e := ext e + 1)"
  have m: "mem_ok {} ext ?hp (table sh) (next_addr sh) (deleted sh)" and li: "lru_inv sh"
    and ls: "set (lru sh) = {e \<in> entries (table sh). ext e = 0}" using assms(1) by (auto simp: base_def)
  have ok: "handle_ok ext (table sh) e h" using m assms(2) by (auto simp: mem_ok_def)
  have m': "mem_ok {} ?ext (?hp(e \<mapsto> ?h)) (table sh) (next_addr sh) (deleted sh)"
    using ok m by (intro mem_ok_update [OF m assms(2)]) (auto simp: handle_ok_def mem_ok_def)
  have tot: "total (?hp(e \<mapsto> ?h)) (dom (?hp(e \<mapsto> ?h)) - {}) = total ?hp (dom ?hp - {})"
  proof -
    have "dom (?hp(e \<mapsto> ?h)) = dom ?hp" using assms(2) by auto
    then show ?thesis using assms(2) by (auto intro!: total_cong simp: charge_of_def)
  qed
  show ?thesis
  proof (cases "InCache h \<and> h_refs h = 1")
    case True
    then have "e \<in> entries (table sh)" "ext e = 0" using ok by (auto simp: handle_ok_def)
    then have el: "e \<in> set (lru sh)" using ls by simp
    obtain p u q where r: "LRU_Remove e sh = Some (sh\<lparr>lru := remove1 e (lru sh), lru_low_pri := p, lru_usage := u, high_pri_pool_usage := q\<rparr>)"
        "lru_inv (sh\<lparr>lru := remove1 e (lru sh), lru_low_pri := p, lru_usage := u, high_pri_pool_usage := q\<rparr>)"
      using LRU_Remove_spec [OF li el] by blast
    let ?sh = "sh\<lparr>lru := remove1 e (lru sh), lru_low_pri := p, lru_usage := u, high_pri_pool_usage := q\<rparr>"
    have st: "set (remove1 e (lru sh)) = set (lru sh) - {e}" using lru_inv_distinct [OF li] by simp
    have "lru_inv (?sh\<lparr>heap_of := ?hp(e \<mapsto> ?h)\<rparr>)" by (rule lru_inv_heap [OF r(2)]) (use st in auto)
    moreover have "set (lru sh) - {e} = {x \<in> entries (table sh). ?ext x = 0}" using ls by auto
    ultimately have "base {} ?ext (set_handle e ?h ?sh)"
      using m' assms(1) tot st by (simp add: base_def set_handle_def)
    then show ?thesis using True r(1) by auto
  next
    case False
    have "e \<notin> set (lru sh)" using False ok ls by (auto simp: handle_ok_def)
    then have "lru_inv (sh\<lparr>heap_of := ?hp(e \<mapsto> ?h)\<rparr>)" by (intro lru_inv_heap [OF li]) auto
    moreover have "set (lru sh) = {x \<in> entries (table sh). ?ext x = 0}" using ls \<open>e \<notin> set (lru sh)\<close> by auto
    ultimately have "base {} ?ext (set_handle e ?h sh)"
      using m' assms(1) tot by (simp add: base_def set_handle_def)
    then show ?thesis using False by auto
  qed
qed

lemma base_held:
  assumes "base X ext sh" "0 < ext e"
  shows "e \<notin> X \<and> (\<exists>h. heap_of sh e = Some h)"
proof -
  have "e \<in> dom (heap_of sh) - X" using assms unfolding base_def mem_ok_def by blast
  then show ?thesis by auto
qed

lemma Ref_spec:
  assumes "cache_inv ext sh" "0 < ext e"
  shows "\<exists>sh'. Cache_Ref e sh = Some sh' \<and> cache_inv (ext(e := ext e + 1)) sh'"
proof -
  have b: "base {} ext sh" using assms(1) by (simp add: cache_inv_def)
  then obtain h where h: "heap_of sh e = Some h" using base_held [of "{}" ext sh e] assms(2) by blast
  from take_reference [OF b h] obtain sh1 where r:
      "(if InCache h \<and> h_refs h = 1 then LRU_Remove e sh else Some sh) = Some sh1"
      "base {} (ext(e := ext e + 1)) (set_handle e (h\<lparr>h_refs := h_refs h + 1\<rparr>) sh1)"
      "capacity sh1 = capacity sh" "usage sh1 = usage sh" "lru sh = [] \<longrightarrow> lru sh1 = []"
    by blast
  have "Cache_Ref e sh = Some (set_handle e (h\<lparr>h_refs := h_refs h + 1\<rparr>) sh1)"
    unfolding Cache_Ref_def using h r(1) by (simp del: if_split)
  then show ?thesis using r assms(1) by (simp add: cache_inv_def set_handle_def) auto
qed

lemma Lookup_spec:
  assumes "cache_inv ext sh"
  shows "\<exists>r sh'. Cache_Lookup key hash sh = Some (r, sh') \<and>
    (case r of
       None \<Rightarrow> sh' = sh \<and> (\<forall>e \<in> entries (table sh). key_hash (heap_of sh) e \<noteq> Some (key, hash))
     | Some e \<Rightarrow> cache_inv (ext(e := ext e + 1)) sh' \<and> e \<in> entries (table sh) \<and> key_hash (heap_of sh) e = Some (key, hash))"
proof -
  have b: "base {} ext sh" using assms by (simp add: cache_inv_def)
  then have ti: "table_inv (heap_of sh) (table sh)" by (simp add: base_def mem_ok_def)
  obtain r where r: "Table_Lookup (heap_of sh) key hash (table sh) = Some r"
      "case r of None \<Rightarrow> \<forall>e \<in> entries (table sh). key_hash (heap_of sh) e \<noteq> Some (key, hash)
       | Some e \<Rightarrow> e \<in> entries (table sh) \<and> key_hash (heap_of sh) e = Some (key, hash)"
    using lru_table.lookup_ex [OF ti] by blast
  show ?thesis
  proof (cases r)
    case None
    then show ?thesis using r by (simp add: Cache_Lookup_def)
  next
    case (Some e)
    then have e: "e \<in> entries (table sh)" using r(2) by simp
    then obtain h where h: "heap_of sh e = Some h" using lru_table.elems_live [OF ti] by blast
    then have "handle_ok ext (table sh) e h" using b by (auto simp: base_def mem_ok_def)
    then have ic: "InCache h" using e by (simp add: handle_ok_def)
    from take_reference [OF b h] obtain sh1 where t:
        "(if InCache h \<and> h_refs h = 1 then LRU_Remove e sh else Some sh) = Some sh1"
        "base {} (ext(e := ext e + 1)) (set_handle e (h\<lparr>h_refs := h_refs h + 1\<rparr>) sh1)"
        "capacity sh1 = capacity sh" "usage sh1 = usage sh" "lru sh = [] \<longrightarrow> lru sh1 = []"
      by blast
    have "Cache_Lookup key hash sh = Some (Some e, set_handle e (h\<lparr>h_refs := h_refs h + 1\<rparr>) sh1)"
      unfolding Cache_Lookup_def using r(1) Some h t(1) ic by (simp del: if_split)
    moreover have "cache_inv (ext(e := ext e + 1)) (set_handle e (h\<lparr>h_refs := h_refs h + 1\<rparr>) sh1)"
      using t assms by (simp add: cache_inv_def set_handle_def) auto
    ultimately show ?thesis using r(2) Some by (intro exI conjI) auto
  qed
qed

text \<open>A handle whose last reference is gone leaves the account.\<close>

lemma unaccount:
  assumes "mem_ok X ext hp t n d" "hp e = Some h" "e \<notin> X" "table_inv hp t'" "entries t' = entries t - {e}"
  defines "hp' \<equiv> hp(e \<mapsto> h\<lparr>InCache := False, h_refs := 0\<rparr>)"
  shows "mem_ok (insert e X) (ext(e := 0)) hp' t' n d" "freeable hp' e"
    "total hp' (dom hp' - insert e X) = total hp (dom hp - X) - h_charge h"
proof -
  show "mem_ok (insert e X) (ext(e := 0)) hp' t' n d"
    unfolding hp'_def using assms(4,5) by (intro mem_ok_update [OF assms(1,2)]) auto
  show "freeable hp' e" by (simp add: freeable_def hp'_def)
  let ?D = "dom hp - X"
  have "finite ?D" "e \<in> ?D" using assms(1-3) by (auto simp: mem_ok_def)
  then have "total hp (?D - {e}) = total hp ?D - h_charge h" using total_remove assms(2) by (simp add: charge_of_Some)
  moreover have "dom hp' - insert e X = ?D - {e}" by (auto simp: hp'_def)
  moreover have "total hp' (?D - {e}) = total hp (?D - {e})" by (intro total_cong) (auto simp: charge_of_def hp'_def)
  ultimately show "total hp' (dom hp' - insert e X) = total hp (dom hp - X) - h_charge h" by simp
qed

lemma lru_inv_upd: "lru_inv sh \<Longrightarrow> e \<notin> set (lru sh) \<Longrightarrow> lru_inv (set_handle e h sh)"
  unfolding set_handle_def by (rule lru_inv_heap) auto

lemma total_upd:
  assumes "hp e = Some h" "h_charge h' = h_charge h"
  shows "total (hp(e \<mapsto> h')) (dom (hp(e \<mapsto> h')) - X) = total hp (dom hp - X)"
proof -
  have "dom (hp(e \<mapsto> h')) = dom hp" using assms(1) by auto
  then show ?thesis using assms by (auto intro!: total_cong simp: charge_of_def)
qed

lemma base_unaccount:
  assumes "base X ext sh" "heap_of sh e = Some h" "e \<notin> X" "e \<notin> set (lru sh)"
    "table_inv (heap_of sh) t'" "entries t' = entries (table sh) - {e}"
  shows "base (insert e X) (ext(e := 0))
      (sh\<lparr>heap_of := (heap_of sh)(e \<mapsto> h\<lparr>InCache := False, h_refs := 0\<rparr>), table := t', usage := usage sh - h_charge h\<rparr>)"
proof -
  let ?hp = "(heap_of sh)(e \<mapsto> h\<lparr>InCache := False, h_refs := 0\<rparr>)"
  have m: "mem_ok X ext (heap_of sh) (table sh) (next_addr sh) (deleted sh)" using assms(1) by (simp add: base_def)
  note u = unaccount [OF m assms(2,3,5,6)]
  have "lru_inv (sh\<lparr>heap_of := ?hp\<rparr>)" using assms(1,4) by (intro lru_inv_heap) (auto simp: base_def)
  then have "lru_inv (sh\<lparr>heap_of := ?hp, table := t', usage := usage sh - h_charge h\<rparr>)" by (rule lru_inv_cong) simp_all
  moreover have "set (lru sh) = {x \<in> entries t'. (ext(e := 0)) x = 0}" using assms(1,4,6) by (auto simp: base_def)
  ultimately show ?thesis using u(1,3) assms(1) unfolding base_def by simp
qed

lemma base_usage_Free:
  assumes "base (insert e {}) ext sh" "freeable (heap_of sh) e" "usage sh \<le> capacity sh \<or> lru sh = []"
  obtains sh' where "Free e sh = Some sh'" "cache_inv ext sh'" "capacity sh' = capacity sh"
proof -
  obtain del' where "Free e sh = Some (sh\<lparr>heap_of := (heap_of sh)(e := None), deleted := del'\<rparr>)"
      "base ({e} - {e}) ext (sh\<lparr>heap_of := (heap_of sh)(e := None), deleted := del'\<rparr>)"
    using base_Free [OF assms(1) _ assms(2)] by blast
  then show ?thesis using that assms(3) by (simp add: cache_inv_def)
qed

lemma table_heap_swap: "sh\<lparr>table := t, heap_of := hp\<rparr> = sh\<lparr>heap_of := hp, table := t\<rparr>"
  by simp

text \<open>
  A handle held once is, when it is no longer in the cache, freed by its release; one in the cache is erased if
  that is asked for or the cache is over its capacity, and linked into the list otherwise.
\<close>

lemma release_start:
  assumes "base {} ext sh" "0 < ext e"
  obtains h where "heap_of sh e = Some h" "handle_ok ext (table sh) e h" "e \<notin> set (lru sh)"
    "Unref e sh = Some (h_refs h - 1 = 0, set_handle e (h\<lparr>h_refs := h_refs h - 1\<rparr>) sh)"
proof -
  obtain h where h: "heap_of sh e = Some h" using base_held [OF assms] by blast
  then have ok: "handle_ok ext (table sh) e h" using assms(1) by (auto simp: base_def mem_ok_def)
  then have "0 < h_refs h" unfolding handle_ok_def by blast
  then have "Unref e sh = Some (h_refs h - 1 = 0, set_handle e (h\<lparr>h_refs := h_refs h - 1\<rparr>) sh)"
    using h by (simp add: Unref_def Let_def)
  moreover have "e \<notin> set (lru sh)" using assms by (auto simp: base_def)
  ultimately show ?thesis using that h ok by blast
qed

lemma release_memory:
  assumes "base {} ext sh" "heap_of sh e = Some h" "1 < h_refs h" "0 < ext e"
  shows "mem_ok {} (ext(e := ext e - 1)) ((heap_of sh)(e \<mapsto> h\<lparr>h_refs := h_refs h - 1\<rparr>)) (table sh) (next_addr sh) (deleted sh)"
    "total ((heap_of sh)(e \<mapsto> h\<lparr>h_refs := h_refs h - 1\<rparr>)) (dom ((heap_of sh)(e \<mapsto> h\<lparr>h_refs := h_refs h - 1\<rparr>)) - {}) =
     total (heap_of sh) (dom (heap_of sh) - {})"
proof -
  have m: "mem_ok {} ext (heap_of sh) (table sh) (next_addr sh) (deleted sh)" using assms(1) by (auto simp: base_def)
  then have "handle_ok ext (table sh) e h" using assms(2) by (auto simp: mem_ok_def)
  then show "mem_ok {} (ext(e := ext e - 1)) ((heap_of sh)(e \<mapsto> h\<lparr>h_refs := h_refs h - 1\<rparr>)) (table sh) (next_addr sh) (deleted sh)"
    using assms(3,4) m by (intro mem_ok_update [OF m assms(2)]) (auto simp: handle_ok_def mem_ok_def)
qed (use total_upd [of "heap_of sh" e h "h\<lparr>h_refs := h_refs h - 1\<rparr>" "{}"] assms(2) in simp)

lemma release_free:
  assumes "base {} ext sh" "heap_of sh e = Some h" "ext e = 1" "e \<notin> set (lru sh)" "table_inv (heap_of sh) t'"
    "entries t' = entries (table sh) - {e}" "usage sh \<le> capacity sh \<or> lru sh = []"
  obtains sh' where "Free e (sh\<lparr>heap_of := (heap_of sh)(e \<mapsto> h\<lparr>InCache := False, h_refs := 0\<rparr>), table := t', usage := usage sh - h_charge h\<rparr>) = Some sh'"
    "cache_inv (ext(e := ext e - 1)) sh'" "heap_of sh' e = None"
proof -
  let ?sh = "sh\<lparr>heap_of := (heap_of sh)(e \<mapsto> h\<lparr>InCache := False, h_refs := 0\<rparr>), table := t', usage := usage sh - h_charge h\<rparr>"
  have "base {e} (ext(e := 0)) ?sh" using base_unaccount [OF assms(1,2) _ assms(4,5,6)] by simp
  moreover have "freeable (heap_of ?sh) e" by (simp add: freeable_def)
  moreover have "usage ?sh \<le> capacity ?sh \<or> lru ?sh = []" using assms(7) by auto
  ultimately obtain sh' where f: "Free e ?sh = Some sh'" "cache_inv (ext(e := 0)) sh'" using base_usage_Free by blast
  moreover have "heap_of sh' e = None" using f(1) by (auto simp: Free_def split: if_splits)
  ultimately show ?thesis using that assms(3) by simp
qed

lemma release_last:
  assumes "cache_inv ext sh" "heap_of sh e = Some h" "\<not> InCache h" "ext e = 1"
  shows "\<exists>sh'. Cache_Release e force sh = Some (True, sh') \<and> cache_inv (ext(e := ext e - 1)) sh' \<and> heap_of sh' e = None"
proof -
  have b: "base {} ext sh" and cap: "usage sh \<le> capacity sh \<or> lru sh = []" using assms(1) by (auto simp: cache_inv_def)
  obtain h' where "heap_of sh e = Some h'" "handle_ok ext (table sh) e h'" "e \<notin> set (lru sh)"
      "Unref e sh = Some (h_refs h' - 1 = 0, set_handle e (h'\<lparr>h_refs := h_refs h' - 1\<rparr>) sh)"
    using release_start [OF b, of e] assms(4) by auto
  then have st: "handle_ok ext (table sh) e h" "e \<notin> set (lru sh)"
      "Unref e sh = Some (h_refs h - 1 = 0, set_handle e (h\<lparr>h_refs := h_refs h - 1\<rparr>) sh)" using assms(2) by auto
  then have r: "h_refs h = 1" "e \<notin> entries (table sh)" using assms(3,4) by (auto simp: handle_ok_def)
  have "table_inv (heap_of sh) (table sh)" using b by (simp add: base_def mem_ok_def)
  then obtain sh' where f: "Free e (sh\<lparr>heap_of := (heap_of sh)(e \<mapsto> h\<lparr>InCache := False, h_refs := 0\<rparr>), table := table sh, usage := usage sh - h_charge h\<rparr>) = Some sh'"
      "cache_inv (ext(e := ext e - 1)) sh'" "heap_of sh' e = None"
    using release_free [OF b assms(2,4) st(2) _ _ cap] r(2) by blast
  have hz: "h\<lparr>InCache := False, h_refs := 0\<rparr> = h\<lparr>h_refs := 0\<rparr>" using assms(3) by simp
  have "Cache_Release e force sh = Some (True, sh')"
    using st(3) r(1) f(1) [unfolded hz] assms(3) unfolding Cache_Release_def release_unused_def by (simp add: Let_def set_handle_def)
  then show ?thesis using f by blast
qed

lemma release_held:
  assumes "cache_inv ext sh" "1 < ext e"
  shows "\<exists>sh'. Cache_Release e force sh = Some (False, sh') \<and> cache_inv (ext(e := ext e - 1)) sh' \<and> heap_of sh' e \<noteq> None"
proof -
  have b: "base {} ext sh" and cap: "usage sh \<le> capacity sh \<or> lru sh = []" using assms(1) by (auto simp: cache_inv_def)
  have ext: "0 < ext e" using assms(2) by simp
  obtain h where h: "heap_of sh e = Some h" "handle_ok ext (table sh) e h" "e \<notin> set (lru sh)"
      and un: "Unref e sh = Some (h_refs h - 1 = 0, set_handle e (h\<lparr>h_refs := h_refs h - 1\<rparr>) sh)"
    using release_start [OF b ext] by blast
  let ?h = "h\<lparr>h_refs := h_refs h - 1\<rparr>"
  have r: "1 < h_refs h" "\<not> (h_refs h = 2 \<and> InCache h)" using h(2) assms(2) unfolding handle_ok_def by auto
  have "Cache_Release e force sh = Some (False, set_handle e ?h sh)"
    using un r unfolding Cache_Release_def release_unused_def by (auto simp: Let_def set_handle_def)
  moreover have "cache_inv (ext(e := ext e - 1)) (set_handle e ?h sh)"
  proof -
    have "set (lru sh) = {x \<in> entries (table sh). (ext(e := ext e - 1)) x = 0}" using b assms(2) by (auto simp: base_def)
    then have "base {} (ext(e := ext e - 1)) (set_handle e ?h sh)"
      using release_memory [OF b h(1) r(1) ext] lru_inv_upd [of sh e ?h] h(3) b
      unfolding base_def by (simp add: set_handle_def)
    then show ?thesis using cap by (simp add: cache_inv_def set_handle_def)
  qed
  ultimately show ?thesis by (auto simp: set_handle_def)
qed

lemma release_erased:
  assumes "cache_inv ext sh" "heap_of sh e = Some h" "InCache h" "ext e = 1" "usage sh > capacity sh \<or> force"
  shows "\<exists>sh'. Cache_Release e force sh = Some (True, sh') \<and> cache_inv (ext(e := ext e - 1)) sh' \<and> heap_of sh' e = None"
proof -
  let ?hp = "heap_of sh" and ?h = "h\<lparr>h_refs := h_refs h - 1\<rparr>"
  have b: "base {} ext sh" and cap: "usage sh \<le> capacity sh \<or> lru sh = []" using assms(1) by (auto simp: cache_inv_def)
  obtain h' where "heap_of sh e = Some h'" "handle_ok ext (table sh) e h'" "e \<notin> set (lru sh)"
      "Unref e sh = Some (h_refs h' - 1 = 0, set_handle e (h'\<lparr>h_refs := h_refs h' - 1\<rparr>) sh)"
    using release_start [OF b, of e] assms(4) by auto
  then have st: "handle_ok ext (table sh) e h" "e \<notin> set (lru sh)"
      "Unref e sh = Some (h_refs h - 1 = 0, set_handle e ?h sh)" using assms(2) by auto
  then have r: "h_refs h = 2" "e \<in> entries (table sh)" using assms(3,4) by (auto simp: handle_ok_def)
  have ti: "table_inv ?hp (table sh)" using b by (simp add: base_def mem_ok_def)
  have kh: "key_hash (?hp(e \<mapsto> ?h)) = key_hash ?hp" using key_hash_upd [of ?hp e h ?h] assms(2) by simp
  have ti1: "table_inv (?hp(e \<mapsto> ?h)) (table sh)" using lru_table.inv_frame [OF ti] kh by simp
  obtain t' where t': "Table_Remove (?hp(e \<mapsto> ?h)) (h_key h) (h_hash h) (table sh) = Some (Some e, t')"
      "table_inv (?hp(e \<mapsto> ?h)) t'" "entries t' = entries (table sh) - {e}"
    using lru_table.remove_entry [OF ti1 r(2), of "h_key h" "h_hash h"] by (auto simp: key_hash_def)
  have ti': "table_inv ?hp t'" using lru_table.inv_frame [OF t'(2)] kh by simp
  obtain sh' where f: "Free e (sh\<lparr>heap_of := ?hp(e \<mapsto> h\<lparr>InCache := False, h_refs := 0\<rparr>), table := t', usage := usage sh - h_charge h\<rparr>) = Some sh'"
      "cache_inv (ext(e := ext e - 1)) sh'" "heap_of sh' e = None"
    using release_free [OF b assms(2,4) st(2) ti' t'(3) cap] by blast
  have "Cache_Release e force sh = Some (True, sh')"
    using st(3) r(1) f(1) assms(3,5) cap t'(1) unfolding Cache_Release_def release_unused_def
    by (auto simp: Let_def set_handle_def Unref_def table_heap_swap)
  then show ?thesis using f by blast
qed

lemma release_idle:
  assumes "cache_inv ext sh" "heap_of sh e = Some h" "InCache h" "ext e = 1" "\<not> (usage sh > capacity sh \<or> force)"
  shows "\<exists>sh'. Cache_Release e force sh = Some (False, sh') \<and> cache_inv (ext(e := ext e - 1)) sh' \<and> heap_of sh' e \<noteq> None"
proof -
  let ?hp = "heap_of sh" and ?h = "h\<lparr>h_refs := h_refs h - 1\<rparr>" and ?ext = "ext(e := ext e - 1)"
  have b: "base {} ext sh" using assms(1) by (auto simp: cache_inv_def)
  obtain h' where "heap_of sh e = Some h'" "handle_ok ext (table sh) e h'" "e \<notin> set (lru sh)"
      "Unref e sh = Some (h_refs h' - 1 = 0, set_handle e (h'\<lparr>h_refs := h_refs h' - 1\<rparr>) sh)"
    using release_start [OF b, of e] assms(4) by auto
  then have st: "handle_ok ext (table sh) e h" "e \<notin> set (lru sh)"
      "Unref e sh = Some (h_refs h - 1 = 0, set_handle e ?h sh)" using assms(2) by auto
  then have r: "h_refs h = 2" "e \<in> entries (table sh)" using assms(3,4) by (auto simp: handle_ok_def)
  define sh1 where "sh1 = set_handle e ?h sh"
  have u1: "usage sh1 = usage sh" "capacity sh1 = capacity sh" "lru sh1 = lru sh" "table sh1 = table sh"
    "heap_of sh1 = ?hp(e \<mapsto> ?h)" "heap_of sh1 e = Some ?h" by (simp_all add: sh1_def set_handle_def)
  have li1: "lru_inv sh1" using lru_inv_upd [OF _ st(2), of ?h] b by (simp add: sh1_def base_def)
  have "0 \<le> high_pri_pool_capacity sh1" "e \<notin> set (lru sh1)" using b st(2) by (simp_all add: base_def sh1_def set_handle_def)
  then obtain l p u q hp' where i: "LRU_Insert e sh1 = Some (sh1\<lparr>lru := l, lru_low_pri := p, lru_usage := u, high_pri_pool_usage := q, heap_of := hp'\<rparr>)"
      "lru_inv (sh1\<lparr>lru := l, lru_low_pri := p, lru_usage := u, high_pri_pool_usage := q, heap_of := hp'\<rparr>)"
      "set l = insert e (set (lru sh1))" "pool_eq (heap_of sh1) hp'"
    using LRU_Insert_spec [OF li1 u1(6)] by blast
  let ?sh = "sh1\<lparr>lru := l, lru_low_pri := p, lru_usage := u, high_pri_pool_usage := q, heap_of := hp'\<rparr>"
  have pe: "pool_eq (?hp(e \<mapsto> ?h)) hp'" using i(4) u1 by simp
  have eq: "Cache_Release e force sh = Some (False, ?sh)"
    using st(3) u1 r(1) assms(3,5) i(1) unfolding Cache_Release_def release_unused_def sh1_def [symmetric] by (simp add: Let_def)
  have ext: "1 < h_refs h" "0 < ext e" using r(1) assms(4) by simp_all
  have "mem_ok {} ?ext hp' (table sh) (next_addr sh) (deleted sh)"
    using mem_ok_pool [OF pe] release_memory(1) [OF b assms(2) ext] by simp
  moreover have "set l = {x \<in> entries (table sh). ?ext x = 0}" using i(3) b r(2) assms(4) by (auto simp: u1 base_def)
  moreover have "total hp' (dom hp' - {}) = total ?hp (dom ?hp - {})"
    using pool_eq_total [OF pe] dom_pool_eq [OF pe] release_memory(2) [OF b assms(2) ext] by simp
  ultimately have "base {} ?ext ?sh" using i(2) b unfolding base_def by (simp add: sh1_def set_handle_def)
  then have "cache_inv ?ext ?sh" using assms(5) by (simp add: cache_inv_def u1)
  moreover have "hp' e \<noteq> None" using pool_eq_None [OF pe, of e] by simp
  ultimately show ?thesis using eq by auto
qed

lemma Release_spec:
  assumes "cache_inv ext sh" "0 < ext e"
  shows "\<exists>r sh'. Cache_Release e force sh = Some (r, sh') \<and> cache_inv (ext(e := ext e - 1)) sh' \<and>
    (r \<longleftrightarrow> heap_of sh' e = None)"
proof -
  obtain h where h: "heap_of sh e = Some h" using base_held [of "{}" ext sh e] assms by (auto simp: cache_inv_def)
  consider "1 < ext e" | "ext e = 1" "\<not> InCache h" | "ext e = 1" "InCache h" "usage sh > capacity sh \<or> force"
    | "ext e = 1" "InCache h" "\<not> (usage sh > capacity sh \<or> force)"
    using assms(2) by linarith
  then show ?thesis
  proof cases
    case 1
    from release_held [OF assms(1) 1, of force] show ?thesis by auto
  next
    case 2
    from release_last [OF assms(1) h 2(2,1), of force] show ?thesis by auto
  next
    case 3
    from release_erased [OF assms(1) h 3(2,1,3)] show ?thesis by auto
  next
    case 4
    from release_idle [OF assms(1) h 4(2,1,3)] show ?thesis by auto
  qed
qed

lemma lru_inv_heap_same:
  assumes "lru_inv sh" "\<And>x. x \<in> set (lru sh) \<Longrightarrow>
      map_option (\<lambda>h. (h_charge h, InHighPriPool h)) (hp' x) = map_option (\<lambda>h. (h_charge h, InHighPriPool h)) (heap_of sh x)"
  shows "lru_inv (sh\<lparr>heap_of := hp'\<rparr>)"
proof -
  obtain low high where sp: "lru_split low high sh" using assms(1) by (auto simp: lru_inv_def)
  then have l: "lru sh = low @ high" by (simp add: lru_split_def)
  have ch: "charge_of hp' x = charge_of (heap_of sh) x" "pooled hp' b x = pooled (heap_of sh) b x" if "x \<in> set (lru sh)" for x b
    using assms(2) [OF that] by (cases "hp' x"; cases "heap_of sh x"; simp add: charge_of_def pooled_def)+
  have t: "total hp' (set high) = total (heap_of sh) (set high)" "total hp' (set (lru sh)) = total (heap_of sh) (set (lru sh))"
    using ch(1) l by (auto intro!: total_cong)
  have "lru_split low high (sh\<lparr>heap_of := hp'\<rparr>)" using sp l t(1) ch(2) by (simp add: lru_split_def)
  then show ?thesis using assms(1) t(2) by (auto simp: lru_inv_def)
qed

text \<open>An entry leaves the table.\<close>

lemma detach:
  assumes "mem_ok X ext hp t n d" "e \<in> entries t" "hp e = Some h" "table_inv hp t'" "entries t' = entries t - {e}"
  defines "hp' \<equiv> hp(e \<mapsto> h\<lparr>h_refs := h_refs h - 1, InCache := False\<rparr>)"
  shows "InCache h" "h_refs h = ext e + 1"
    "ext e = 0 \<Longrightarrow> mem_ok (insert e X) ext hp' t' n d \<and> freeable hp' e \<and>
      total hp' (dom hp' - insert e X) = total hp (dom hp - X) - h_charge h \<and> h_charge h \<le> total hp (dom hp - X)"
    "0 < ext e \<Longrightarrow> mem_ok X ext hp' t' n d \<and> total hp' (dom hp' - X) = total hp (dom hp - X)"
proof -
  have eX: "e \<notin> X" using assms(1,2) by (auto simp: mem_ok_def)
  then have ok: "handle_ok ext t e h" using assms(1,3) by (auto simp: mem_ok_def)
  show h: "InCache h" "h_refs h = ext e + 1" using ok assms(2) by (auto simp: handle_ok_def)
  show "mem_ok (insert e X) ext hp' t' n d \<and> freeable hp' e \<and>
      total hp' (dom hp' - insert e X) = total hp (dom hp - X) - h_charge h \<and> h_charge h \<le> total hp (dom hp - X)" if z: "ext e = 0"
  proof -
    have "ext(e := 0) = ext" using z by auto
    moreover have swap: "h\<lparr>h_refs := h_refs h - 1, InCache := False\<rparr> = h\<lparr>InCache := False, h_refs := 0\<rparr>" using h z by simp
    have "hp' = hp(e \<mapsto> h\<lparr>InCache := False, h_refs := 0\<rparr>)" unfolding hp'_def swap ..
    moreover have "finite (dom hp - X)" "e \<in> dom hp - X" using assms(1,3) eX by (auto simp: mem_ok_def)
    ultimately show ?thesis
      using unaccount [OF assms(1,3) eX assms(4,5)] total_member [of "dom hp - X" e hp] assms(3) by (simp add: charge_of_Some)
  qed
  show "mem_ok X ext hp' t' n d \<and> total hp' (dom hp' - X) = total hp (dom hp - X)" if "0 < ext e"
  proof
    show "mem_ok X ext hp' t' n d"
      unfolding hp'_def using assms(4,5) h eX that by (intro mem_ok_update [OF assms(1,3)]) (auto simp: handle_ok_def)
    show "total hp' (dom hp' - X) = total hp (dom hp - X)"
      unfolding hp'_def using total_upd [of hp e h _ X] assms(3) by simp
  qed
qed

lemma erase_held:
  assumes "cache_inv ext sh" "Table_Remove (heap_of sh) key hash (table sh) = Some (Some e, t')" "table_inv (heap_of sh) t'"
    "e \<in> entries (table sh)" "entries t' = entries (table sh) - {e}" "heap_of sh e = Some h" "0 < ext e"
  defines "hp' \<equiv> (heap_of sh)(e \<mapsto> h\<lparr>h_refs := h_refs h - 1, InCache := False\<rparr>)"
  shows "Cache_Erase key hash sh = Some (sh\<lparr>table := t', heap_of := hp'\<rparr>)" "cache_inv ext (sh\<lparr>table := t', heap_of := hp'\<rparr>)"
proof -
  let ?sh = "sh\<lparr>table := t', heap_of := hp'\<rparr>"
  have b: "base {} ext sh" and cap: "usage sh \<le> capacity sh \<or> lru sh = []" using assms(1) by (auto simp: cache_inv_def)
  have m: "mem_ok {} ext (heap_of sh) (table sh) (next_addr sh) (deleted sh)" and li: "lru_inv sh"
    and ls: "set (lru sh) = {e \<in> entries (table sh). ext e = 0}" using b by (auto simp: base_def)
  note d = detach [OF m assms(4,6,3,5), folded hp'_def]
  show "Cache_Erase key hash sh = Some ?sh"
    using assms(2,6,7) d(1,2) by (simp add: Cache_Erase_def Unref_def set_handle_def Let_def hp'_def)
  have "lru_inv ?sh"
  proof (rule lru_inv_cong)
    show "lru_inv (set_handle e (h\<lparr>h_refs := h_refs h - 1, InCache := False\<rparr>) sh)"
      using ls assms(7) by (intro lru_inv_upd [OF li]) simp
  qed (simp_all add: set_handle_def hp'_def)
  then have "base {} ext ?sh" using b d(4) assms(7) ls assms(5) unfolding base_def by auto
  then show "cache_inv ext ?sh" using cap by (auto simp: cache_inv_def)
qed

lemma erase_unused:
  assumes "cache_inv ext sh" "Table_Remove (heap_of sh) key hash (table sh) = Some (Some e, t')" "table_inv (heap_of sh) t'"
    "e \<in> entries (table sh)" "entries t' = entries (table sh) - {e}" "heap_of sh e = Some h" "ext e = 0"
  shows "\<exists>sh'. Cache_Erase key hash sh = Some sh' \<and> cache_inv ext sh' \<and> heap_of sh' = (heap_of sh)(e := None) \<and> table sh' = t'"
proof -
  define hp' where "hp' = (heap_of sh)(e \<mapsto> h\<lparr>h_refs := h_refs h - 1, InCache := False\<rparr>)"
  define h1 where "h1 = h\<lparr>h_refs := h_refs h - 1\<rparr>"
  define sh1 where "sh1 = sh\<lparr>table := t', heap_of := (heap_of sh)(e \<mapsto> h1), usage := usage sh - h_charge h\<rparr>"
  have b: "base {} ext sh" and cap: "usage sh \<le> capacity sh \<or> lru sh = []" using assms(1) by (auto simp: cache_inv_def)
  have m: "mem_ok {} ext (heap_of sh) (table sh) (next_addr sh) (deleted sh)" and li: "lru_inv sh"
    and ls: "set (lru sh) = {e \<in> entries (table sh). ext e = 0}" using b by (auto simp: base_def)
  note d = detach [OF m assms(4,6,3,5), folded hp'_def]
  have el: "e \<in> set (lru sh)" using ls assms(4,7) by simp
  have "lru_inv (sh\<lparr>heap_of := (heap_of sh)(e \<mapsto> h1)\<rparr>)"
    using assms(6) by (intro lru_inv_heap_same [OF li]) (auto simp: h1_def)
  then have li1: "lru_inv sh1" by (rule lru_inv_cong) (simp_all add: sh1_def)
  obtain p u q where rm: "LRU_Remove e sh1 = Some (sh1\<lparr>lru := remove1 e (lru sh1), lru_low_pri := p, lru_usage := u, high_pri_pool_usage := q\<rparr>)"
      "lru_inv (sh1\<lparr>lru := remove1 e (lru sh1), lru_low_pri := p, lru_usage := u, high_pri_pool_usage := q\<rparr>)"
    using LRU_Remove_spec [OF li1, of e] el by (auto simp: sh1_def)
  define sh2 where "sh2 = set_handle e (h1\<lparr>InCache := False\<rparr>)
    (sh1\<lparr>lru := remove1 e (lru sh1), lru_low_pri := p, lru_usage := u, high_pri_pool_usage := q\<rparr>)"
  have f2: "heap_of sh2 = hp'" "table sh2 = t'" "usage sh2 = usage sh - h_charge h" "lru sh2 = remove1 e (lru sh)"
      "capacity sh2 = capacity sh" "next_addr sh2 = next_addr sh" "deleted sh2 = deleted sh"
      "high_pri_pool_capacity sh2 = high_pri_pool_capacity sh" "high_pri_pool_ratio sh2 = high_pri_pool_ratio sh"
    by (simp_all add: sh2_def sh1_def set_handle_def hp'_def h1_def)
  have st: "set (remove1 e (lru sh)) = set (lru sh) - {e}" using lru_inv_distinct [OF li] by simp
  have "lru_inv sh2" unfolding sh2_def using st by (intro lru_inv_upd [OF rm(2)]) (simp add: sh1_def)
  moreover have "set (lru sh2) = {x \<in> entries t'. ext x = 0}" using st ls assms(5) f2(4) by auto
  ultimately have b2: "base {e} ext sh2" using b d(3) [OF assms(7)] unfolding base_def f2 by simp
  have "freeable (heap_of sh2) e" "usage sh2 \<le> capacity sh2 \<or> lru sh2 = []" using d(3) [OF assms(7)] cap f2 by auto
  then obtain sh3 where f: "Free e sh2 = Some sh3" "cache_inv ext sh3" using base_usage_Free [OF b2] by blast
  have "Cache_Erase key hash sh = Free e sh2"
    using assms(2,6,7) d(1,2) rm(1) by (simp add: Cache_Erase_def Unref_def Let_def sh2_def sh1_def h1_def set_handle_def)
  moreover have "heap_of sh3 = hp'(e := None)" "table sh3 = t'" using f(1) f2 by (auto simp: Free_def split: if_splits bind_splits)
  ultimately show ?thesis using f by (simp add: hp'_def)
qed

lemma Erase_spec:
  assumes "cache_inv ext sh"
  shows "\<exists>sh'. Cache_Erase key hash sh = Some sh' \<and> cache_inv ext sh' \<and>
    (\<forall>e \<in> entries (table sh'). key_hash (heap_of sh') e \<noteq> Some (key, hash))"
proof -
  let ?hp = "heap_of sh"
  have b: "base {} ext sh" and cap: "usage sh \<le> capacity sh \<or> lru sh = []" using assms by (auto simp: cache_inv_def)
  have m: "mem_ok {} ext ?hp (table sh) (next_addr sh) (deleted sh)" and li: "lru_inv sh" using b by (auto simp: base_def)
  have ti: "table_inv ?hp (table sh)" using m by (simp add: mem_ok_def)
  obtain r t' where r: "Table_Remove ?hp key hash (table sh) = Some (r, t')" "table_inv ?hp t'"
      "case r of None \<Rightarrow> entries t' = entries (table sh) \<and> (\<forall>e \<in> entries (table sh). key_hash ?hp e \<noteq> Some (key, hash))
       | Some e \<Rightarrow> e \<in> entries (table sh) \<and> key_hash ?hp e = Some (key, hash) \<and> entries t' = entries (table sh) - {e}"
    using lru_table.remove_ex [OF ti] by blast
  show ?thesis
  proof (cases r)
    case None
    then have e: "entries t' = entries (table sh)" using r(3) by simp
    then have "mem_ok {} ext ?hp t' (next_addr sh) (deleted sh)" using m r(2) unfolding mem_ok_def handle_ok_def e by blast
    moreover have "lru_inv (sh\<lparr>table := t'\<rparr>)" using li by (rule lru_inv_cong) simp_all
    ultimately have "base {} ext (sh\<lparr>table := t'\<rparr>)" using b e unfolding base_def by simp
    then show ?thesis using None r cap by (simp add: Cache_Erase_def cache_inv_def)
  next
    case (Some e)
    then have e: "e \<in> entries (table sh)" "key_hash ?hp e = Some (key, hash)" "entries t' = entries (table sh) - {e}"
      and rm: "Table_Remove ?hp key hash (table sh) = Some (Some e, t')" using r(1,3) by auto
    obtain h where h: "?hp e = Some h" using lru_table.elems_live [OF ti e(1)] by blast
    have gone: "key_hash ?hp x \<noteq> Some (key, hash)" if "x \<in> entries t'" for x
      using lru_table.same_entry [OF ti e(1) _ e(2), of x] that e(3) by auto
    show ?thesis
    proof (cases "ext e = 0")
      case False
      then show ?thesis
        using erase_held [OF assms rm r(2) e(1,3) h] gone e(3) by (auto simp: key_hash_def)
    next
      case True
      then show ?thesis
        using erase_unused [OF assms rm r(2) e(1,3) h] gone e(3) by (auto simp: key_hash_def)
    qed
  qed
qed

end
