(* ===== verification/LRUCacheInsert.thy ===== *)
theory LRUCacheInsert
  imports LRUCacheInv
begin

text \<open>
  Insertion into a shard of the block cache: what \<open>Cache_Insert\<close> does on each of its branches, and that
  it keeps the invariant. The handle under insertion is outside the table and not counted in the usage until
  \<open>insert_entry\<close> links it.
\<close>

lemma alloc_spec:
  assumes "base {} ext sh"
  shows "base {next_addr sh} ext (set_handle (next_addr sh) h (sh\<lparr>next_addr := next_addr sh + 1\<rparr>))"
    "heap_of sh (next_addr sh) = None" "ext (next_addr sh) = 0" "next_addr sh \<notin> entries (table sh)"
proof -
  let ?e = "next_addr sh" and ?hp = "heap_of sh"
  let ?hp' = "?hp(?e \<mapsto> h)"
  have m: "mem_ok {} ext ?hp (table sh) ?e (deleted sh)" using assms by (simp add: base_def)
  then show n: "?hp ?e = None" unfolding mem_ok_def by blast
  then show x: "ext ?e = 0" using m unfolding mem_ok_def by (metis Diff_iff domIff neq0_conv)
  have ti: "table_inv ?hp (table sh)" using m by (simp add: mem_ok_def)
  then show ne: "?e \<notin> entries (table sh)" using lru_table.elems_live [OF ti, of ?e] n by auto
  have d: "dom ?hp' = insert ?e (dom ?hp)" by simp
  have "table_inv ?hp' (table sh)"
    by (rule lru_table.inv_frame [OF ti]) (use ne in \<open>auto simp: key_hash_def\<close>)
  moreover have "\<forall>e k. ?hp' e = Some k \<longrightarrow> e \<notin> {?e} \<longrightarrow> handle_ok ext (table sh) e k" using m by (auto simp: mem_ok_def)
  moreover have "\<forall>e. 0 < ext e \<longrightarrow> e \<in> dom ?hp' - {?e}" using m x unfolding mem_ok_def d by auto
  moreover have "set (deleted sh) \<inter> dom ?hp' = {}" using m unfolding mem_ok_def d by auto
  moreover have "dom ?hp' \<subseteq> {..<?e + 1}" "set (deleted sh) \<subseteq> {..<?e + 1}" using m unfolding mem_ok_def d by auto
  ultimately have m': "mem_ok {?e} ext ?hp' (table sh) (?e + 1) (deleted sh)" using m ne unfolding mem_ok_def d by simp
  have "?e \<notin> set (lru sh)" using ne assms by (simp add: base_def)
  then have "lru_inv (set_handle ?e h sh)" using assms by (intro lru_inv_upd) (auto simp: base_def)
  then have "lru_inv (set_handle ?e h (sh\<lparr>next_addr := ?e + 1\<rparr>))" by (rule lru_inv_cong) (simp_all add: set_handle_def)
  moreover have "total ?hp' (dom ?hp' - {?e}) = total ?hp (dom ?hp - {})"
  proof -
    have "dom ?hp' - {?e} = dom ?hp" using n by auto
    then show ?thesis using n by (auto intro!: total_cong simp: charge_of_def)
  qed
  ultimately show "base {?e} ext (set_handle ?e h (sh\<lparr>next_addr := ?e + 1\<rparr>))"
    using m' assms unfolding base_def by (simp add: set_handle_def)
qed

text \<open>A shard with a new entry in the table that is not on the list yet.\<close>

definition pending :: "nat set \<Rightarrow> (nat \<Rightarrow> nat) \<Rightarrow> nat \<Rightarrow> LRUCacheShard \<Rightarrow> bool" where
  "pending X ext e sh \<longleftrightarrow>
     mem_ok X ext (heap_of sh) (table sh) (next_addr sh) (deleted sh) \<and> lru_inv sh \<and>
     set (lru sh) = {x \<in> entries (table sh). ext x = 0} - {e} \<and> e \<in> entries (table sh) \<and>
     usage sh = total (heap_of sh) (dom (heap_of sh) - X) \<and>
     0 \<le> high_pri_pool_capacity sh \<and> 0 \<le> high_pri_pool_ratio sh"

lemma pending_held: "pending X ext e sh \<Longrightarrow> 0 < ext e \<Longrightarrow> base X ext sh"
  unfolding pending_def base_def by auto

lemma pending_insert:
  assumes "pending X ext e sh" "ext e = 0"
  obtains l p u q hp' where "LRU_Insert e sh = Some (sh\<lparr>lru := l, lru_low_pri := p, lru_usage := u, high_pri_pool_usage := q, heap_of := hp'\<rparr>)"
    "base X ext (sh\<lparr>lru := l, lru_low_pri := p, lru_usage := u, high_pri_pool_usage := q, heap_of := hp'\<rparr>)" "pool_eq (heap_of sh) hp'"
proof -
  have m: "mem_ok X ext (heap_of sh) (table sh) (next_addr sh) (deleted sh)" and li: "lru_inv sh"
    and e: "e \<in> entries (table sh)" "e \<notin> set (lru sh)" "0 \<le> high_pri_pool_capacity sh"
    using assms(1) by (auto simp: pending_def)
  have "table_inv (heap_of sh) (table sh)" using m by (simp add: mem_ok_def)
  then obtain h where h: "heap_of sh e = Some h" using lru_table.elems_live e(1) by blast
  obtain l p u q hp' where i: "LRU_Insert e sh = Some (sh\<lparr>lru := l, lru_low_pri := p, lru_usage := u, high_pri_pool_usage := q, heap_of := hp'\<rparr>)"
      "lru_inv (sh\<lparr>lru := l, lru_low_pri := p, lru_usage := u, high_pri_pool_usage := q, heap_of := hp'\<rparr>)"
      "set l = insert e (set (lru sh))" "pool_eq (heap_of sh) hp'"
    using LRU_Insert_spec [OF li h e(2,3)] by blast
  have "mem_ok X ext hp' (table sh) (next_addr sh) (deleted sh)" by (rule mem_ok_pool [OF i(4) m])
  moreover have "set l = {x \<in> entries (table sh). ext x = 0}" using i(3) assms by (auto simp: pending_def)
  moreover have "total hp' (dom hp' - X) = total (heap_of sh) (dom (heap_of sh) - X)"
    using pool_eq_total [OF i(4)] dom_pool_eq [OF i(4)] by simp
  ultimately have "base X ext (sh\<lparr>lru := l, lru_low_pri := p, lru_usage := u, high_pri_pool_usage := q, heap_of := hp'\<rparr>)"
    using i(2) assms(1) unfolding base_def pending_def by simp
  then show ?thesis using that i(1,4) by blast
qed

lemma account:
  assumes "mem_ok X ext hp t n d" "e \<in> X" "hp e = Some h" "InCache h" "h_refs h = a + 1" "table_inv hp t'"
    "entries t' = insert e (entries t)"
  shows "mem_ok (X - {e}) (ext(e := a)) hp t' n d"
    "total hp (dom hp - (X - {e})) = total hp (dom hp - X) + h_charge h" "ext e = 0"
proof -
  have "hp(e \<mapsto> h) = hp" using assms(3) by auto
  moreover have "mem_ok (X - {e}) (ext(e := a)) (hp(e \<mapsto> h)) t' n d"
    using assms(4-7) by (intro mem_ok_update [OF assms(1,3)]) (auto simp: handle_ok_def)
  ultimately show "mem_ok (X - {e}) (ext(e := a)) hp t' n d" by simp
  have "finite (dom hp - X)" "e \<notin> dom hp - X" "dom hp - (X - {e}) = insert e (dom hp - X)"
    using assms(1-3) by (auto simp: mem_ok_def)
  then show "total hp (dom hp - (X - {e})) = total hp (dom hp - X) + h_charge h"
    using total_insert [of "dom hp - X" e hp] assms(3) by (simp add: charge_of_Some)
  show "ext e = 0" using assms(1,2) unfolding mem_ok_def by blast
qed

text \<open>What an insertion leaves behind: the replaced entry is detached, and to be freed if nobody holds it.\<close>

definition replaced :: "nat list \<Rightarrow> nat set \<Rightarrow> (nat \<Rightarrow> nat) \<Rightarrow> nat \<Rightarrow> LRUCacheShard \<Rightarrow> LRUCacheShard \<Rightarrow> bool" where
  "replaced del' X ext e sh sh' \<longleftrightarrow>
     pending (X - {e} \<union> set del') ext e sh' \<and> distinct del' \<and> set del' \<inter> X = {} \<and>
     (\<forall>x \<in> set del'. freeable (heap_of sh') x) \<and> (\<forall>x \<in> X. heap_of sh' x = heap_of sh x) \<and>
     capacity sh' = capacity sh \<and> strict_capacity_limit sh' = strict_capacity_limit sh \<and> set (lru sh') \<subseteq> set (lru sh)"

lemma insert_new:
  assumes "base X ext sh" "e \<in> X" "heap_of sh e = Some h" "InCache h" "h_refs h = a + 1"
    "table_inv (heap_of sh) t'" "entries t' = insert e (entries (table sh))"
  shows "replaced [] X (ext(e := a)) e sh (sh\<lparr>table := t', usage := usage sh + h_charge h\<rparr>)"
proof -
  have m: "mem_ok X ext (heap_of sh) (table sh) (next_addr sh) (deleted sh)" and li: "lru_inv sh"
    using assms(1) by (auto simp: base_def)
  note ac = account [OF m assms(2-7)]
  have ne: "e \<notin> entries (table sh)" using m assms(2) by (auto simp: mem_ok_def)
  have "lru_inv (sh\<lparr>table := t', usage := usage sh + h_charge h\<rparr>)" using li by (rule lru_inv_cong) simp_all
  moreover have "set (lru sh) = {x \<in> entries t'. (ext(e := a)) x = 0} - {e}" using assms(1,7) ne by (auto simp: base_def)
  ultimately have "pending (X - {e}) (ext(e := a)) e (sh\<lparr>table := t', usage := usage sh + h_charge h\<rparr>)"
    using ac assms(1,7) unfolding pending_def base_def by simp
  then show ?thesis by (simp add: replaced_def)
qed

lemma insert_old:
  assumes "base X ext sh" "e \<in> X" "heap_of sh e = Some h" "InCache h" "h_refs h = a + 1"
    "table_inv (heap_of sh) t'" "old \<in> entries (table sh)" "key_hash (heap_of sh) old = Some k"
    "entries t' = insert e (entries (table sh) - {old})"
  shows "\<exists>del' sh'. drop_replaced (Some old) del (sh\<lparr>table := t', usage := usage sh + h_charge h\<rparr>) = Some (del @ del', sh') \<and>
    replaced del' X (ext(e := a)) e sh sh' \<and> usage sh' \<le> usage sh + h_charge h"
proof -
  let ?hp = "heap_of sh" and ?ext = "ext(e := a)"
  have m: "mem_ok X ext ?hp (table sh) (next_addr sh) (deleted sh)" and li: "lru_inv sh"
    and ls: "set (lru sh) = {x \<in> entries (table sh). ext x = 0}" using assms(1) by (auto simp: base_def)
  have ti: "table_inv ?hp (table sh)" using m by (simp add: mem_ok_def)
  have ne: "e \<notin> entries (table sh)" using m assms(2) by (auto simp: mem_ok_def)
  then have eo: "e \<noteq> old" using assms(7) by auto
  have oX: "old \<notin> X" using m assms(7) by (auto simp: mem_ok_def)
  obtain oh where oh: "?hp old = Some oh" using lru_table.elems_live [OF ti assms(7)] by blast
  obtain t1 where t1: "table_inv ?hp t1" "entries t1 = entries (table sh) - {old}"
    using lru_table.remove_entry [OF ti assms(7), of "fst k" "snd k"] assms(8) by auto
  define oh1 where "oh1 = oh\<lparr>h_refs := h_refs oh - 1, InCache := False\<rparr>"
  define hp' where "hp' = ?hp(old \<mapsto> oh1)"
  note d = detach [OF m assms(7) oh t1, unfolded oh1_def [symmetric], unfolded hp'_def [symmetric]]
  have he: "hp' e = Some h" using eo assms(3) by (simp add: hp'_def)
  have ti': "table_inv hp' t'"
    using lru_table.inv_frame [OF assms(6)] key_hash_upd [of ?hp old oh oh1] oh by (simp add: hp'_def oh1_def)
  have swap: "oh\<lparr>InCache := False, h_refs := h_refs oh - 1\<rparr> = oh1" by (simp add: oh1_def)
  have et: "entries t' = insert e (entries t1)" using assms(9) t1(2) by simp
  show ?thesis
  proof (cases "ext old = 0")
    case False
    let ?sh = "sh\<lparr>table := t', usage := usage sh + h_charge h, heap_of := hp'\<rparr>"
    have m1: "mem_ok X ext hp' t1 (next_addr sh) (deleted sh)" "total hp' (dom hp' - X) = usage sh"
      using d(4) False assms(1) by (auto simp: base_def)
    note ac = account [OF m1(1) assms(2) he assms(4,5) ti' et]
    have "drop_replaced (Some old) del (sh\<lparr>table := t', usage := usage sh + h_charge h\<rparr>) = Some (del @ [], ?sh)"
      using oh d(1,2) False by (simp add: drop_replaced_def Unref_def set_handle_def Let_def hp'_def swap [symmetric])
    moreover have "lru_inv ?sh"
    proof (rule lru_inv_cong)
      show "lru_inv (set_handle old oh1 sh)" using ls False by (intro lru_inv_upd [OF li]) simp
    qed (simp_all add: set_handle_def hp'_def)
    moreover have "set (lru sh) = {x \<in> entries t'. ?ext x = 0} - {e}" using ls False ne et t1(2) by auto
    ultimately have "replaced [] X ?ext e sh ?sh"
      using ac m1(2) assms(1) et oX unfolding replaced_def pending_def base_def by (auto simp: hp'_def)
    then show ?thesis using \<open>drop_replaced _ _ _ = _\<close> by (intro exI [of _ "[]"] exI [of _ ?sh]) simp
  next
    case True
    let ?u = "usage sh + h_charge h - h_charge oh"
    define sh1 where "sh1 = sh\<lparr>table := t', usage := ?u, heap_of := hp'\<rparr>"
    have m1: "mem_ok (insert old X) ext hp' t1 (next_addr sh) (deleted sh)" "freeable hp' old"
        "total hp' (dom hp' - insert old X) = usage sh - h_charge oh" "h_charge oh \<le> usage sh"
      using d(3) True assms(1) by (auto simp: base_def)
    have X1: "insert old X - {e} = X - {e} \<union> set [old]" using eo by auto
    have "e \<in> insert old X" using assms(2) by simp
    note ac = account [OF m1(1) this he assms(4,5) ti' et, unfolded X1]
    have "lru_inv (sh\<lparr>heap_of := hp'\<rparr>)"
      using oh by (intro lru_inv_heap_same [OF li]) (auto simp: hp'_def oh1_def)
    then have li1: "lru_inv sh1" by (rule lru_inv_cong) (simp_all add: sh1_def)
    have ol: "old \<in> set (lru sh1)" using ls assms(7) True by (simp add: sh1_def)
    obtain p u q where rm: "LRU_Remove old sh1 = Some (sh1\<lparr>lru := remove1 old (lru sh1), lru_low_pri := p, lru_usage := u, high_pri_pool_usage := q\<rparr>)"
        "lru_inv (sh1\<lparr>lru := remove1 old (lru sh1), lru_low_pri := p, lru_usage := u, high_pri_pool_usage := q\<rparr>)"
      using LRU_Remove_spec [OF li1 ol] by blast
    let ?sh = "sh1\<lparr>lru := remove1 old (lru sh1), lru_low_pri := p, lru_usage := u, high_pri_pool_usage := q\<rparr>"
    have upd: "sh\<lparr>table := t', usage := usage sh + h_charge h, heap_of := hp'\<rparr>\<lparr>usage := ?u\<rparr> = sh1" by (simp add: sh1_def)
    have eq: "drop_replaced (Some old) del (sh\<lparr>table := t', usage := usage sh + h_charge h\<rparr>) = Some (del @ [old], ?sh)"
      using oh d(1,2) True rm(1) upd by (simp add: drop_replaced_def Unref_def set_handle_def Let_def hp'_def swap [symmetric])
    have st: "set (remove1 old (lru sh)) = set (lru sh) - {old}" using lru_inv_distinct [OF li] by simp
    have "set (remove1 old (lru sh)) = {x \<in> entries t'. ?ext x = 0} - {e}" using st ls ne et t1(2) by auto
    moreover have "usage sh - h_charge oh + h_charge h = ?u" using m1(4) by simp
    ultimately have "pending (X - {e} \<union> set [old]) ?ext e ?sh"
      using ac m1(3) assms(1) et rm(2) unfolding pending_def base_def by (simp add: sh1_def)
    then have "replaced [old] X ?ext e sh ?sh"
      using m1(2) oX st unfolding replaced_def by (auto simp: hp'_def sh1_def)
    then show ?thesis using eq by (intro exI [of _ "[old]"] exI [of _ ?sh]) (simp add: sh1_def)
  qed
qed

lemma freeable_pool: "pool_eq hp hp' \<Longrightarrow> freeable hp e \<Longrightarrow> freeable hp' e"
proof -
  assume pe: "pool_eq hp hp'" and "freeable hp e"
  then obtain h where h: "hp e = Some h" "h_refs h = 1 \<and> InCache h \<or> h_refs h = 0 \<and> \<not> InCache h" by (auto simp: freeable_def)
  obtain b where "hp' e = Some (h\<lparr>InHighPriPool := b\<rparr>)" using pool_eq_Some [OF pe h(1)] by blast
  then show ?thesis using h(2) by (auto simp: freeable_def)
qed

definition inserted :: "bool \<Rightarrow> nat list \<Rightarrow> nat set \<Rightarrow> (nat \<Rightarrow> nat) \<Rightarrow> nat \<Rightarrow> LRUHandle \<Rightarrow> LRUCacheShard \<Rightarrow> LRUCacheShard \<Rightarrow> bool" where
  "inserted want del' X ext e h sh sh' \<longleftrightarrow>
     base (X - {e} \<union> set del') (ext(e := if want then 1 else 0)) sh' \<and> distinct del' \<and> set del' \<inter> X = {} \<and>
     (\<forall>x \<in> set del'. freeable (heap_of sh') x) \<and>
     (\<forall>x \<in> X - {e}. freeable (heap_of sh) x \<longrightarrow> freeable (heap_of sh') x) \<and>
     capacity sh' = capacity sh \<and> strict_capacity_limit sh' = strict_capacity_limit sh \<and>
     usage sh' \<le> usage sh + h_charge h \<and> (want \<longrightarrow> set (lru sh') \<subseteq> set (lru sh)) \<and>
     e \<in> entries (table sh') \<and> (\<exists>b. heap_of sh' e = Some (h\<lparr>InHighPriPool := b\<rparr>))"

lemma insert_entry_spec:
  assumes "base X ext sh" "e \<in> X" "heap_of sh e = Some h" "InCache h" "h_refs h = (if want then 1 else 0) + 1"
  shows "\<exists>del' sh'. insert_entry e (h_charge h) want del sh = Some (Status_OK, if want then Some e else None, del @ del', sh') \<and>
    inserted want del' X ext e h sh sh'"
proof -
  let ?hp = "heap_of sh" and ?a = "if want then 1 else 0 :: nat"
  let ?ext = "ext(e := ?a)"
  have m: "mem_ok X ext ?hp (table sh) (next_addr sh) (deleted sh)" using assms(1) by (simp add: base_def)
  have ti: "table_inv ?hp (table sh)" and ne: "e \<notin> entries (table sh)" using m assms(2) by (auto simp: mem_ok_def)
  obtain old t' where t': "Table_Insert ?hp e (table sh) = Some (old, t')" "table_inv ?hp t'"
      "case old of None \<Rightarrow> entries t' = insert e (entries (table sh)) \<and> (\<forall>x \<in> entries (table sh). key_hash ?hp x \<noteq> key_hash ?hp e)
       | Some o' \<Rightarrow> o' \<in> entries (table sh) \<and> key_hash ?hp o' = key_hash ?hp e \<and> entries t' = insert e (entries (table sh) - {o'})"
    using lru_table.insert_ex [OF ti assms(3) ne] by blast
  have "\<exists>del' sh'. drop_replaced old del (sh\<lparr>table := t', usage := usage sh + h_charge h\<rparr>) = Some (del @ del', sh') \<and>
      replaced del' X ?ext e sh sh' \<and> usage sh' \<le> usage sh + h_charge h"
  proof (cases old)
    case None
    then have "entries t' = insert e (entries (table sh))" using t'(3) by simp
    note n = insert_new [OF assms t'(2) this]
    have "drop_replaced old del (sh\<lparr>table := t', usage := usage sh + h_charge h\<rparr>)
        = Some (del @ [], sh\<lparr>table := t', usage := usage sh + h_charge h\<rparr>)" using None by (simp add: drop_replaced_def)
    then show ?thesis using n by (intro exI [of _ "[]"] exI [of _ "sh\<lparr>table := t', usage := usage sh + h_charge h\<rparr>"]) simp
  next
    case (Some o')
    then have o: "o' \<in> entries (table sh)" "key_hash ?hp o' = Some (h_key h, h_hash h)" "entries t' = insert e (entries (table sh) - {o'})"
      using t'(3) assms(3) by (auto simp: key_hash_def)
    show ?thesis using insert_old [OF assms t'(2) o] Some by simp
  qed
  then obtain del' sh1 where d: "drop_replaced old del (sh\<lparr>table := t', usage := usage sh + h_charge h\<rparr>) = Some (del @ del', sh1)"
      "replaced del' X ?ext e sh sh1" "usage sh1 \<le> usage sh + h_charge h"
    by blast
  have pend: "pending (X - {e} \<union> set del') ?ext e sh1" using d(2) by (simp add: replaced_def)
  have keep: "\<forall>x \<in> X - {e}. freeable ?hp x \<longrightarrow> freeable (heap_of sh1) x" "heap_of sh1 e = Some (h\<lparr>InHighPriPool := InHighPriPool h\<rparr>)"
    using d(2) assms(2,3) by (auto simp: replaced_def freeable_def)
  show ?thesis
  proof (cases want)
    case True
    have "base (X - {e} \<union> set del') ?ext sh1" using pending_held [OF pend] True by simp
    then have "inserted want del' X ext e h sh sh1"
      using d(2,3) keep True unfolding inserted_def replaced_def pending_def by blast
    then show ?thesis using t'(1) d(1) True by (simp add: insert_entry_def)
  next
    case False
    obtain l p u q hp' where i: "LRU_Insert e sh1 = Some (sh1\<lparr>lru := l, lru_low_pri := p, lru_usage := u, high_pri_pool_usage := q, heap_of := hp'\<rparr>)"
        "base (X - {e} \<union> set del') ?ext (sh1\<lparr>lru := l, lru_low_pri := p, lru_usage := u, high_pri_pool_usage := q, heap_of := hp'\<rparr>)"
        "pool_eq (heap_of sh1) hp'"
      by (rule pending_insert [OF pend]) (use False in simp)
    let ?sh = "sh1\<lparr>lru := l, lru_low_pri := p, lru_usage := u, high_pri_pool_usage := q, heap_of := hp'\<rparr>"
    obtain b where b: "hp' e = Some (h\<lparr>InHighPriPool := b\<rparr>)" using pool_eq_Some [OF i(3) keep(2)] by auto
    have fr: "\<forall>x \<in> set del'. freeable hp' x" "\<forall>x \<in> X - {e}. freeable ?hp x \<longrightarrow> freeable hp' x"
      using d(2) keep(1) freeable_pool [OF i(3)] unfolding replaced_def by blast+
    have ex: "\<exists>b. heap_of ?sh e = Some (h\<lparr>InHighPriPool := b\<rparr>)" using b by (intro exI [of _ b]) simp
    have "inserted want del' X ext e h sh ?sh"
      using d(2,3) ex fr i(2) False unfolding inserted_def replaced_def pending_def by simp
    then show ?thesis using t'(1) d(1) False i(1) by (simp add: insert_entry_def)
  qed
qed

lemma base_unalloc:
  assumes "base X ext sh" "e \<in> X"
  shows "base (X - {e}) ext (sh\<lparr>heap_of := (heap_of sh)(e := None)\<rparr>)"
proof -
  let ?hp = "(heap_of sh)(e := None)"
  have m: "mem_ok X ext (heap_of sh) (table sh) (next_addr sh) (deleted sh)" using assms(1) by (simp add: base_def)
  have e: "e \<notin> entries (table sh)" using m assms(2) by (auto simp: mem_ok_def)
  have "table_inv ?hp (table sh)"
    using m lru_table.inv_frame [of "heap_of sh" "table sh" ?hp] e by (auto simp: mem_ok_def key_hash_def)
  moreover have d: "dom ?hp = dom (heap_of sh) - {e}" by auto
  ultimately have "mem_ok (X - {e}) ext ?hp (table sh) (next_addr sh) (deleted sh)"
    using m assms(2) e unfolding mem_ok_def d by (auto split: if_splits)
  moreover have "lru_inv (sh\<lparr>heap_of := ?hp\<rparr>)" using assms(1) e by (intro lru_inv_heap) (auto simp: base_def)
  moreover have "total ?hp (dom ?hp - (X - {e})) = total (heap_of sh) (dom (heap_of sh) - X)"
  proof -
    have "dom ?hp - (X - {e}) = dom (heap_of sh) - X" using assms(2) by auto
    then show ?thesis using assms(2) by (auto intro!: total_cong simp: charge_of_def)
  qed
  ultimately show ?thesis using assms(1) unfolding base_def by simp
qed

lemma evicted_usage:
  assumes "evicted del X ext sh sh'" "base X ext sh"
  shows "usage sh' \<le> usage sh"
proof -
  have b: "base (X \<union> set del) ext sh'" "\<And>x. x \<notin> set del \<Longrightarrow> heap_of sh' x = heap_of sh x"
    using assms(1) by (auto simp: evicted_def ev_rel_def)
  have s: "dom (heap_of sh') - (X \<union> set del) \<subseteq> dom (heap_of sh) - X" using b(2) by (auto simp: domIff)
  have "usage sh' = total (heap_of sh') (dom (heap_of sh') - (X \<union> set del))" using b(1) by (simp add: base_def)
  also have "\<dots> = total (heap_of sh) (dom (heap_of sh') - (X \<union> set del))"
    using b(2) by (intro total_cong) (simp add: charge_of_def)
  also have "\<dots> \<le> total (heap_of sh) (dom (heap_of sh) - X)"
    using assms(2) s by (intro total_subset) (auto simp: base_def mem_ok_def)
  finally show ?thesis using assms(2) by (simp add: base_def)
qed

text \<open>The outcome of an insertion, of which \<open>r\<close> is the handle returned.\<close>

definition insert_post ::
    "slice \<Rightarrow> u32 \<Rightarrow> nat \<Rightarrow> bool \<Rightarrow> (nat \<Rightarrow> nat) \<Rightarrow> LRUCacheShard \<Rightarrow> Status \<Rightarrow> nat option \<Rightarrow> LRUCacheShard \<Rightarrow> bool" where
  "insert_post key hash val want ext sh s r sh' \<longleftrightarrow>
     capacity sh' = capacity sh \<and> strict_capacity_limit sh' = strict_capacity_limit sh \<and>
     (case r of
        None \<Rightarrow> cache_inv ext sh' \<and> (ok s \<longleftrightarrow> \<not> want)
      | Some e \<Rightarrow> want \<and> s = Status_OK \<and> e = next_addr sh \<and> cache_inv (ext(e := 1)) sh' \<and> e \<in> entries (table sh') \<and>
          (\<exists>h. heap_of sh' e = Some h \<and> h_value h = val \<and> h_key h = key \<and> h_hash h = hash)) \<and>
     (strict_capacity_limit sh \<and> usage sh \<le> capacity sh \<longrightarrow> usage sh' \<le> capacity sh')"

lemma insert_reject:
  assumes "evicted del {e} ext sh1 sh2" "base {e} ext sh1" "usage sh2 + c \<le> capacity sh2 \<or> lru sh2 = []"
    "heap_of sh2 e = Some h" "h_refs h = 1" "InCache h"
  obtains sh3 where "FreeAll (del @ [e]) sh2 = Some sh3" "cache_inv ext sh3"
    "capacity sh3 = capacity sh1" "strict_capacity_limit sh3 = strict_capacity_limit sh1" "usage sh3 \<le> usage sh1"
proof -
  have ev: "distinct del" "e \<notin> set del" "base ({e} \<union> set del) ext sh2" "\<forall>x \<in> set del. freeable (heap_of sh2) x" "ev_rel (set del) sh1 sh2"
    using assms(1) by (auto simp: evicted_def)
  have "freeable (heap_of sh2) e" using assms(4-6) by (simp add: freeable_def)
  then have fr: "\<forall>x \<in> {e} \<union> set del. freeable (heap_of sh2) x" using ev(4) by blast
  have del: "distinct (del @ [e])" "set (del @ [e]) = {e} \<union> set del" using ev(1,2) by auto
  obtain hp' d' where f: "FreeAll (del @ [e]) sh2 = Some (sh2\<lparr>heap_of := hp', deleted := d'\<rparr>)"
      "base {} ext (sh2\<lparr>heap_of := hp', deleted := d'\<rparr>)"
    using base_FreeAll [OF ev(3) del fr] by blast
  have "cache_inv ext (sh2\<lparr>heap_of := hp', deleted := d'\<rparr>)" using f(2) assms(3) by (auto simp: cache_inv_def)
  then show ?thesis
    using that [OF f(1)] evicted_usage [OF assms(1,2)] ev(5) by (simp add: ev_rel_def)
qed

lemma insert_full:
  assumes "evicted del {e} ext sh1 sh2" "base {e} ext sh1" "usage sh2 + c \<le> capacity sh2 \<or> lru sh2 = []"
  obtains sh3 where "FreeAll del (sh2\<lparr>heap_of := (heap_of sh2)(e := None)\<rparr>) = Some sh3" "cache_inv ext sh3"
    "capacity sh3 = capacity sh1" "strict_capacity_limit sh3 = strict_capacity_limit sh1" "usage sh3 \<le> usage sh1"
proof -
  let ?sh = "sh2\<lparr>heap_of := (heap_of sh2)(e := None)\<rparr>"
  have ev: "distinct del" "e \<notin> set del" "base ({e} \<union> set del) ext sh2" "\<forall>x \<in> set del. freeable (heap_of sh2) x" "ev_rel (set del) sh1 sh2"
    using assms(1) by (auto simp: evicted_def)
  have "{e} \<union> set del - {e} = set del" using ev(2) by auto
  then have b: "base (set del) ext ?sh" using base_unalloc [OF ev(3), of e] by simp
  have fr: "\<forall>x \<in> set del. freeable (heap_of ?sh) x" using ev(2,4) by (auto simp: freeable_def)
  obtain hp' d' where f: "FreeAll del ?sh = Some (?sh\<lparr>heap_of := hp', deleted := d'\<rparr>)"
      "base {} ext (?sh\<lparr>heap_of := hp', deleted := d'\<rparr>)"
    using base_FreeAll [OF b ev(1) refl fr] by blast
  have "cache_inv ext (?sh\<lparr>heap_of := hp', deleted := d'\<rparr>)" using f(2) assms(3) by (auto simp: cache_inv_def)
  then show ?thesis
    using that [OF f(1)] evicted_usage [OF assms(1,2)] ev(5) by (simp add: ev_rel_def)
qed

lemma insert_done:
  assumes "evicted del {e} ext sh1 sh2" "usage sh2 + h_charge h \<le> capacity sh2 \<or> lru sh2 = []"
    "inserted want del' ({e} \<union> set del) ext e h sh2 sh3"
    "\<not> (usage sh2 - lru_usage sh2 + h_charge h > capacity sh2 \<and> (strict_capacity_limit sh2 \<or> \<not> want))"
  obtains sh4 b where "FreeAll (del @ del') sh3 = Some sh4" "cache_inv (ext(e := if want then 1 else 0)) sh4"
    "capacity sh4 = capacity sh1" "strict_capacity_limit sh4 = strict_capacity_limit sh1"
    "strict_capacity_limit sh1 \<Longrightarrow> usage sh4 \<le> capacity sh4"
    "e \<in> entries (table sh4)" "heap_of sh4 e = Some (h\<lparr>InHighPriPool := b\<rparr>)"
proof -
  let ?ext = "ext(e := if want then 1 else 0)"
  have ev: "distinct del" "e \<notin> set del" "base ({e} \<union> set del) ext sh2" "\<forall>x \<in> set del. freeable (heap_of sh2) x" "ev_rel (set del) sh1 sh2"
    using assms(1) by (auto simp: evicted_def)
  have "{e} \<union> set del - {e} = set del" using ev(2) by auto
  then have ins: "base (set del \<union> set del') ?ext sh3" "distinct del'" "set del' \<inter> ({e} \<union> set del) = {}"
      "\<forall>x \<in> set del'. freeable (heap_of sh3) x" "\<forall>x \<in> set del. freeable (heap_of sh2) x \<longrightarrow> freeable (heap_of sh3) x"
      "capacity sh3 = capacity sh2" "strict_capacity_limit sh3 = strict_capacity_limit sh2" "usage sh3 \<le> usage sh2 + h_charge h"
      "want \<longrightarrow> set (lru sh3) \<subseteq> set (lru sh2)" "e \<in> entries (table sh3)"
    using assms(3) unfolding inserted_def by auto
  obtain b where b: "heap_of sh3 e = Some (h\<lparr>InHighPriPool := b\<rparr>)" using assms(3) unfolding inserted_def by blast
  have del: "distinct (del @ del')" "set (del @ del') = set del \<union> set del'" using ev(1) ins(2,3) by auto
  have fr: "\<forall>x \<in> set del \<union> set del'. freeable (heap_of sh3) x" using ev(4) ins(4,5) by blast
  obtain hp' d' where f: "FreeAll (del @ del') sh3 = Some (sh3\<lparr>heap_of := hp', deleted := d'\<rparr>)"
      "base {} ?ext (sh3\<lparr>heap_of := hp', deleted := d'\<rparr>)" "\<forall>x. hp' x = (if x \<in> set del \<union> set del' then None else heap_of sh3 x)"
    using base_FreeAll [OF ins(1) del fr] by blast
  have "lru_usage sh2 = 0" if "lru sh2 = []" using ev(3) that by (simp add: base_def lru_inv_def total_def)
  then have fit: "usage sh2 + h_charge h \<le> capacity sh2" if "strict_capacity_limit sh2 \<or> \<not> want"
    using assms(2,4) that by auto
  have "usage sh3 \<le> capacity sh3 \<or> lru sh3 = []"
  proof (cases "usage sh2 + h_charge h \<le> capacity sh2")
    case True
    then show ?thesis using ins(6,8) by linarith
  next
    case False
    then have "lru sh2 = []" "want" using assms(2) fit by auto
    then show ?thesis using ins(9) by simp
  qed
  then have inv: "cache_inv ?ext (sh3\<lparr>heap_of := hp', deleted := d'\<rparr>)" using f(2) by (simp add: cache_inv_def)
  have he: "hp' e = Some (h\<lparr>InHighPriPool := b\<rparr>)" using f(3) ev(2) ins(3) b by auto
  show ?thesis
  proof (rule that [OF f(1) inv])
    show "usage (sh3\<lparr>heap_of := hp', deleted := d'\<rparr>) \<le> capacity (sh3\<lparr>heap_of := hp', deleted := d'\<rparr>)"
      if "strict_capacity_limit sh1" using fit ev(5) ins(6,8) that by (simp add: ev_rel_def)
  qed (use ev(5) ins(6,7,10) he in \<open>simp_all add: ev_rel_def\<close>)
qed

lemma Insert_spec:
  assumes "cache_inv ext sh"
  shows "\<exists>s r sh'. Cache_Insert pool0 key hash val charge want high_pri sh = Some (s, r, sh') \<and>
    insert_post key hash val want ext sh s r sh'"
proof -
  define e h sh0 where d: "e = next_addr sh"
    "h = \<lparr>h_value = val, h_key = key, h_hash = hash, h_charge = charge, h_refs = (if want then 2 else 1),
            InCache = True, IsHighPri = high_pri, InHighPriPool = pool0\<rparr>"
    "sh0 = set_handle e h (sh\<lparr>next_addr := e + 1\<rparr>)"
  have b: "base {} ext sh" and cap: "usage sh \<le> capacity sh \<or> lru sh = []" using assms by (auto simp: cache_inv_def)
  have b0: "base {e} ext sh0" and x: "ext e = 0" using alloc_spec [OF b] by (simp_all add: d)
  have s0: "capacity sh0 = capacity sh" "strict_capacity_limit sh0 = strict_capacity_limit sh" "usage sh0 = usage sh"
      "heap_of sh0 e = Some h" by (simp_all add: d(3) set_handle_def)
  obtain del sh2 where ev: "EvictFromLRU charge sh0 = Some (del, sh2)" "evicted del {e} ext sh0 sh2"
      "usage sh2 + charge \<le> capacity sh2 \<or> lru sh2 = []"
    using EvictFromLRU_spec [OF b0] by blast
  have b2: "base ({e} \<union> set del) ext sh2" "e \<notin> set del" "ev_rel (set del) sh0 sh2" using ev(2) by (auto simp: evicted_def)
  then have h2: "heap_of sh2 e = Some h" using s0(4) by (auto simp: ev_rel_def)
  have ue: "Cache_Insert pool0 key hash val charge want high_pri sh =
      do { (s, r, del, sh) \<leftarrow>
                (if usage sh2 - lru_usage sh2 + charge > capacity sh2 \<and> (strict_capacity_limit sh2 \<or> \<not> want)
                 then if \<not> want then Some (Status_OK, None, del @ [e], sh2)
                      else Some (Incomplete ''Insert failed due to LRU cache being full.'', None, del,
                                 sh2\<lparr>heap_of := (heap_of sh2)(e := None)\<rparr>)
                 else insert_entry e charge want del sh2);
              sh \<leftarrow> FreeAll del sh;
              Some (s, r, sh) }"
    using ev(1) by (simp add: Cache_Insert_def Let_def d)
  show ?thesis
  proof (cases "usage sh2 - lru_usage sh2 + charge > capacity sh2 \<and> (strict_capacity_limit sh2 \<or> \<not> want)")
    case full: True
    show ?thesis
    proof (cases want)
      case True
      obtain sh3 where f: "FreeAll del (sh2\<lparr>heap_of := (heap_of sh2)(e := None)\<rparr>) = Some sh3" "cache_inv ext sh3"
          "capacity sh3 = capacity sh0" "strict_capacity_limit sh3 = strict_capacity_limit sh0" "usage sh3 \<le> usage sh0"
        using insert_full [OF ev(2) b0 ev(3)] by blast
      then have "insert_post key hash val want ext sh (Incomplete ''Insert failed due to LRU cache being full.'') None sh3"
        using s0 True by (simp add: insert_post_def Incomplete_def ok_def Status_msg_def)
      moreover have "Cache_Insert pool0 key hash val charge want high_pri sh =
          Some (Incomplete ''Insert failed due to LRU cache being full.'', None, sh3)"
        unfolding ue using full True f(1) by simp
      ultimately show ?thesis by blast
    next
      case False
      obtain sh3 where f: "FreeAll (del @ [e]) sh2 = Some sh3" "cache_inv ext sh3"
          "capacity sh3 = capacity sh0" "strict_capacity_limit sh3 = strict_capacity_limit sh0" "usage sh3 \<le> usage sh0"
        using insert_reject [OF ev(2) b0 ev(3) h2] False by (auto simp: d(2))
      then have "insert_post key hash val want ext sh Status_OK None sh3"
        using s0 False by (simp add: insert_post_def)
      moreover have "Cache_Insert pool0 key hash val charge want high_pri sh = Some (Status_OK, None, sh3)"
        unfolding ue using full False f(1) by simp
      ultimately show ?thesis by blast
    qed
  next
    case room: False
    have hc: "h_charge h = charge" "InCache h" "h_refs h = (if want then 1 else 0) + 1" by (simp_all add: d(2))
    obtain del' sh3 where i: "insert_entry e charge want del sh2 = Some (Status_OK, if want then Some e else None, del @ del', sh3)"
        "inserted want del' ({e} \<union> set del) ext e h sh2 sh3"
      using insert_entry_spec [OF b2(1) _ h2 hc(2,3), of del] hc(1) by auto
    obtain sh4 b where f: "FreeAll (del @ del') sh3 = Some sh4" "cache_inv (ext(e := if want then 1 else 0)) sh4"
        "capacity sh4 = capacity sh0" "strict_capacity_limit sh4 = strict_capacity_limit sh0"
        "strict_capacity_limit sh0 \<Longrightarrow> usage sh4 \<le> capacity sh4"
        "e \<in> entries (table sh4)" "heap_of sh4 e = Some (h\<lparr>InHighPriPool := b\<rparr>)"
      using insert_done [OF ev(2) _ i(2)] ev(3) room hc(1) by metis
    have "ext(e := 0) = ext" using x by auto
    then have "insert_post key hash val want ext sh Status_OK (if want then Some e else None) sh4"
      using f s0 by (auto simp: insert_post_def d)
    moreover have "Cache_Insert pool0 key hash val charge want high_pri sh = Some (Status_OK, if want then Some e else None, sh4)"
      unfolding ue using room i(1) f(1) by auto
    ultimately show ?thesis by blast
  qed
qed

end
