(* ===== verification/LRUCacheFrame.thy ===== *)
theory LRUCacheFrame
  imports LRUCacheInsert
begin

text \<open>
  What the operations of a shard of the block cache leave alone. These facts follow from the definitions
  without the invariant.
\<close>

section \<open>What an operation can do to the entries\<close>

text \<open>
  No operation puts a handle into the table but the one under insertion, and none changes the key, the hash
  or the value of a handle. \<open>E\<close> are the handles that may be new in the table.
\<close>

definition same_data :: "LRUHandle \<Rightarrow> LRUHandle \<Rightarrow> bool" where
  "same_data h h' \<longleftrightarrow> h_key h' = h_key h \<and> h_hash h' = h_hash h \<and> h_value h' = h_value h"

definition shrinks :: "nat set \<Rightarrow> LRUCacheShard \<Rightarrow> LRUCacheShard \<Rightarrow> bool" where
  "shrinks E sh sh' \<longleftrightarrow>
     entries (table sh') \<subseteq> entries (table sh) \<union> E \<and>
     (\<forall>e h'. heap_of sh' e = Some h' \<longrightarrow> (\<exists>h. heap_of sh e = Some h \<and> same_data h h'))"

lemma same_data_refl [simp]: "same_data h h"
  by (simp add: same_data_def)

lemma same_data_trans: "same_data h h' \<Longrightarrow> same_data h' h'' \<Longrightarrow> same_data h h''"
  by (simp add: same_data_def)

lemma shrinks_refl [simp]: "shrinks E sh sh"
  by (simp add: shrinks_def)

lemma shrinks_trans: "shrinks E sh sh' \<Longrightarrow> shrinks E sh' sh'' \<Longrightarrow> shrinks E sh sh''"
  unfolding shrinks_def by (meson same_data_trans subset_trans Un_least Un_upper2 le_sup_iff order_trans)

lemma shrinks_mono: "shrinks {} sh sh' \<Longrightarrow> shrinks E sh sh'"
  by (auto simp: shrinks_def)

lemma shrinks_set_handle: "heap_of sh e = Some h \<Longrightarrow> same_data h h' \<Longrightarrow> shrinks E sh (set_handle e h' sh)"
  by (auto simp: shrinks_def set_handle_def)

lemma shrinks_same: "table sh' = table sh \<Longrightarrow> heap_of sh' = heap_of sh \<Longrightarrow> shrinks E sh sh'"
  by (simp add: shrinks_def)

lemma concat_update_subset:
  assumes "i < length bs \<Longrightarrow> set xs \<subseteq> set (bs ! i) \<union> E"
  shows "set (concat (bs[i := xs])) \<subseteq> set (concat bs) \<union> E"
proof (cases "i < length bs")
  case True
  have "set (bs ! i) \<subseteq> set (concat bs)" using nth_mem [OF True] by force
  moreover have "set (concat (bs[i := xs])) \<subseteq> set (concat bs) \<union> set xs"
    using set_update_subset_insert [of bs i xs] by auto
  ultimately show ?thesis using assms [OF True] by blast
qed (simp add: list_update_beyond)

lemma find_in_chain_append: "find_in_chain hp key hash xs = Some (pre, chain) \<Longrightarrow> pre @ chain = xs"
  by (induction xs arbitrary: pre chain) (auto split: if_splits option.splits simp: Option.bind_eq_Some_conv)

lemma bucket_entries: "pre @ chain = tbl_list t ! i \<Longrightarrow> set xs \<subseteq> set (pre @ chain) \<union> E \<Longrightarrow>
    entries (t\<lparr>tbl_list := (tbl_list t)[i := xs]\<rparr>) \<subseteq> entries t \<union> E"
  using concat_update_subset [of i "tbl_list t" xs E] by (auto simp: entries_def)

lemma Table_Remove_shrinks: "Table_Remove hp key hash t = Some (r, t') \<Longrightarrow> entries t' \<subseteq> entries t"
proof -
  assume a: "Table_Remove hp key hash t = Some (r, t')"
  then obtain pre chain where f: "FindPointer hp key hash t = Some (pre, chain)"
    by (auto simp: Table_Remove_def Option.bind_eq_Some_conv)
  have p: "pre @ chain = tbl_list t ! bucket hash (tbl_length t)"
    using f by (simp add: FindPointer_def find_in_chain_append)
  show ?thesis
  proof (cases chain)
    case (Cons e es)
    then have "entries t' = entries (t\<lparr>tbl_list := (tbl_list t)[bucket hash (tbl_length t) := pre @ es]\<rparr>)"
      using a f by (auto simp: Table_Remove_def entries_def)
    then show ?thesis using bucket_entries [OF p, of "pre @ es" "{}"] Cons by auto
  qed (use a f in \<open>simp add: Table_Remove_def\<close>)
qed

lemma rehash_shrinks:
  "fold (rehash hp n) es bs = Some bs' \<Longrightarrow> set (concat bs') \<subseteq> set es \<union> (case bs of None \<Rightarrow> {} | Some b \<Rightarrow> set (concat b))"
proof (induction es arbitrary: bs)
  case (Cons e es)
  have "(case rehash hp n e bs of None \<Rightarrow> {} | Some b \<Rightarrow> set (concat b))
      \<subseteq> insert e (case bs of None \<Rightarrow> {} | Some b \<Rightarrow> set (concat b))"
  proof (cases "bs = None \<or> hp e = None")
    case False
    then obtain b h where b: "bs = Some b" "hp e = Some h" by auto
    let ?i = "bucket (h_hash h) n"
    have "set (concat (b[?i := e # b ! ?i])) \<subseteq> insert e (set (concat b))"
      using concat_update_subset [of ?i b "e # b ! ?i" "{e}"] by auto
    then show ?thesis using b by (simp add: rehash_def Let_def)
  qed (auto simp: rehash_def)
  then show ?case using Cons.IH [of "rehash hp n e bs"] Cons.prems by auto
qed simp

lemma Resize_shrinks: "Resize hp t = Some t' \<Longrightarrow> entries t' \<subseteq> entries t"
  using rehash_shrinks [of hp _ "concat (tbl_list t)" "Some (replicate _ [])"]
  by (force simp: Resize_def Let_def entries_def)

lemma Table_Insert_shrinks: "Table_Insert hp e t = Some (r, t') \<Longrightarrow> entries t' \<subseteq> insert e (entries t)"
proof -
  assume a: "Table_Insert hp e t = Some (r, t')"
  then obtain h pre chain where h: "hp e = Some h" and f: "FindPointer hp (h_key h) (h_hash h) t = Some (pre, chain)"
    by (auto simp: Table_Insert_def Option.bind_eq_Some_conv)
  let ?i = "bucket (h_hash h) (tbl_length t)"
  let ?t = "t\<lparr>tbl_list := (tbl_list t)[?i := pre @ e # tl chain]\<rparr>"
  have p: "pre @ chain = tbl_list t ! ?i" using f by (simp add: FindPointer_def find_in_chain_append)
  have s: "set (pre @ e # tl chain) \<subseteq> set (pre @ chain) \<union> {e}" by (cases chain) auto
  have t: "entries ?t \<subseteq> insert e (entries t)" using bucket_entries [OF p s] by simp
  have t1: "entries (?t\<lparr>tbl_elems := tbl_elems ?t + 1\<rparr>) = entries ?t" by (simp add: entries_def)
  show ?thesis
  proof (cases chain)
    case Nil
    show ?thesis
    proof (cases "tbl_elems t + 1 > tbl_length t")
      case True
      then have "Resize hp (?t\<lparr>tbl_elems := tbl_elems ?t + 1\<rparr>) = Some t'"
        using a h f Nil by (auto simp: Table_Insert_def Let_def)
      then show ?thesis using Resize_shrinks t t1 by blast
    next
      case False
      then have "t' = ?t\<lparr>tbl_elems := tbl_elems ?t + 1\<rparr>"
        using a h f Nil by (auto simp: Table_Insert_def Let_def)
      then show ?thesis using t t1 by simp
    qed
  next
    case Cons
    then have "t' = ?t" using a h f by (auto simp: Table_Insert_def Let_def)
    then show ?thesis using t by simp
  qed
qed

text \<open>A handle is updated, and fields other than the table and the memory change.\<close>

lemma shrinks_upd:
  "heap_of sh e = Some h \<Longrightarrow> same_data h h' \<Longrightarrow> entries (table sh') \<subseteq> entries (table sh) \<Longrightarrow>
   heap_of sh' = (heap_of sh)(e \<mapsto> h') \<Longrightarrow> shrinks E sh sh'"
  by (auto simp: shrinks_def)

lemma shrinks_table: "entries (table sh') \<subseteq> entries (table sh) \<Longrightarrow> heap_of sh' = heap_of sh \<Longrightarrow> shrinks E sh sh'"
  by (auto simp: shrinks_def)

lemma Unref_shrinks: "Unref e sh = Some (l, sh') \<Longrightarrow> shrinks E sh sh'"
  by (auto simp: Unref_def Option.bind_eq_Some_conv Let_def same_data_def split: if_splits intro!: shrinks_set_handle)

lemma Free_shrinks: "Free e sh = Some sh' \<Longrightarrow> shrinks E sh sh'"
  by (auto simp: Free_def Option.bind_eq_Some_conv shrinks_def split: if_splits)

lemma FreeAll_shrinks: "FreeAll es sh = Some sh' \<Longrightarrow> shrinks E sh sh'"
  by (induction es arbitrary: sh) (auto simp: Option.bind_eq_Some_conv dest!: Free_shrinks [where E = E] intro: shrinks_trans)

lemma LRU_Remove_shrinks: "LRU_Remove e sh = Some sh' \<Longrightarrow> shrinks E sh sh'"
  by (rule shrinks_same) (auto simp: LRU_Remove_def Option.bind_eq_Some_conv Let_def split: if_splits)

lemma pool_loop_shrinks: "pool_loop n sh = Some sh' \<Longrightarrow> shrinks E sh sh'"
proof (induction n arbitrary: sh)
  case (Suc n)
  show ?case
  proof (cases "of_nat (high_pri_pool_usage sh) > high_pri_pool_capacity sh")
    case True
    then obtain e h sh1 where h: "heap_of sh e = Some h" and p: "pool_loop n sh1 = Some sh'"
        and sh1: "sh1 = (set_handle e (h\<lparr>InHighPriPool := False\<rparr>) (sh\<lparr>lru_low_pri := Some e\<rparr>))
           \<lparr>high_pri_pool_usage := high_pri_pool_usage sh - h_charge h\<rparr>"
      using Suc.prems by (auto simp: Option.bind_eq_Some_conv Let_def set_handle_def)
    have "shrinks E sh sh1" by (rule shrinks_upd [OF h]) (auto simp: sh1 set_handle_def same_data_def)
    then show ?thesis using Suc.IH [OF p] shrinks_trans by blast
  qed (use Suc.prems in simp)
qed (simp split: if_splits)

lemma LRU_Insert_shrinks:
  assumes "LRU_Insert e sh = Some sh'"
  shows "shrinks E sh sh'"
proof -
  obtain h where h: "heap_of sh e = Some h" "e \<notin> set (lru sh)"
    using assms by (auto simp: LRU_Insert_def Option.bind_eq_Some_conv split: if_splits)
  show ?thesis
  proof (cases "high_pri_pool_ratio sh > 0 \<and> IsHighPri h")
    case True
    define sh1 where "sh1 = (set_handle e (h\<lparr>InHighPriPool := True\<rparr>) (sh\<lparr>lru := lru sh @ [e]\<rparr>))
        \<lparr>high_pri_pool_usage := high_pri_pool_usage sh + h_charge h\<rparr>"
    obtain sh2 where p: "pool_loop (length (lru sh1)) sh1 = Some sh2" "sh' = sh2\<lparr>lru_usage := lru_usage sh2 + h_charge h\<rparr>"
      using assms h True by (auto simp: LRU_Insert_def MaintainPoolSize_def Option.bind_eq_Some_conv Let_def set_handle_def sh1_def)
    have "shrinks E sh sh1" by (rule shrinks_upd [OF h(1)]) (auto simp: sh1_def set_handle_def same_data_def)
    moreover have "shrinks E sh2 sh'" using p(2) by (intro shrinks_same) simp_all
    ultimately show ?thesis using pool_loop_shrinks [OF p(1)] shrinks_trans by blast
  next
    case False
    then show ?thesis
      using assms h by (intro shrinks_upd [OF h(1), of "h\<lparr>InHighPriPool := False\<rparr>"])
        (auto simp: LRU_Insert_def set_handle_def same_data_def)
  qed
qed

lemma evict_one_shrinks:
  assumes "evict_one old sh = Some sh'"
  shows "shrinks E sh sh'"
proof -
  obtain h sh1 r t l sh2 where h: "heap_of sh old = Some h" and r: "LRU_Remove old sh = Some sh1"
      and t: "Table_Remove (heap_of sh1) (h_key h) (h_hash h) (table sh1) = Some (r, t)"
      and u: "Unref old (set_handle old (h\<lparr>InCache := False\<rparr>) (sh1\<lparr>table := t\<rparr>)) = Some (l, sh2)"
      and s: "sh' = sh2\<lparr>usage := usage sh2 - h_charge h\<rparr>"
    using assms by (auto simp: evict_one_def Option.bind_eq_Some_conv Let_def split: if_splits)
  have "heap_of sh1 old = Some h"
    using r h by (auto simp: LRU_Remove_def Let_def split: if_splits)
  then have a: "shrinks E sh1 (set_handle old (h\<lparr>InCache := False\<rparr>) (sh1\<lparr>table := t\<rparr>))"
    using Table_Remove_shrinks [OF t] by (intro shrinks_upd [of sh1 old h]) (auto simp: set_handle_def same_data_def)
  have b: "shrinks E sh2 sh'" using s by (intro shrinks_same) simp_all
  show ?thesis by (rule LRU_Remove_shrinks [OF r, THEN shrinks_trans, OF a [THEN shrinks_trans, OF Unref_shrinks [OF u, THEN shrinks_trans, OF b]]])
qed

lemma EvictFromLRU_loop_shrinks: "EvictFromLRU_loop c n del sh = Some (del', sh') \<Longrightarrow> shrinks E sh sh'"
  by (induction n arbitrary: del sh)
    (auto simp: Option.bind_eq_Some_conv split: list.splits if_splits dest!: evict_one_shrinks [where E = E] intro: shrinks_trans)

lemma erase_loop_shrinks: "erase_loop n del sh = Some (del', sh') \<Longrightarrow> shrinks E sh sh'"
  by (induction n arbitrary: del sh)
    (auto simp: Option.bind_eq_Some_conv split: list.splits dest!: evict_one_shrinks [where E = E] intro: shrinks_trans)

lemma EraseUnRefEntries_shrinks: "EraseUnRefEntries sh = Some sh' \<Longrightarrow> shrinks E sh sh'"
  by (auto simp: EraseUnRefEntries_def Option.bind_eq_Some_conv dest!: erase_loop_shrinks [where E = E] FreeAll_shrinks [where E = E]
      intro: shrinks_trans)

lemma SetCapacity_shrinks:
  assumes "SetCapacity cap sh = Some sh'"
  shows "shrinks E sh sh'"
proof -
  let ?sh = "sh\<lparr>capacity := cap, high_pri_pool_capacity := of_nat cap * high_pri_pool_ratio sh\<rparr>"
  obtain del sh1 where "EvictFromLRU_loop 0 (length (lru ?sh)) [] ?sh = Some (del, sh1)" "FreeAll del sh1 = Some sh'"
    using assms by (auto simp: SetCapacity_def EvictFromLRU_def Let_def Option.bind_eq_Some_conv)
  then have "shrinks E ?sh sh1" "shrinks E sh1 sh'" using EvictFromLRU_loop_shrinks FreeAll_shrinks by blast+
  moreover have "shrinks E sh ?sh" by (rule shrinks_same) simp_all
  ultimately show ?thesis using shrinks_trans by blast
qed

lemma SetRatio_shrinks:
  assumes "SetHighPriorityPoolRatio ratio sh = Some sh'"
  shows "shrinks E sh sh'"
proof -
  let ?sh = "sh\<lparr>high_pri_pool_ratio := ratio, high_pri_pool_capacity := of_nat (capacity sh) * ratio\<rparr>"
  have "shrinks E ?sh sh'"
    using assms pool_loop_shrinks unfolding SetHighPriorityPoolRatio_def MaintainPoolSize_def by blast
  moreover have "shrinks E sh ?sh" by (rule shrinks_same) simp_all
  ultimately show ?thesis using shrinks_trans by blast
qed

lemma LRU_Remove_heap: "LRU_Remove e sh = Some sh' \<Longrightarrow> heap_of sh' = heap_of sh \<and> table sh' = table sh"
  by (auto simp: LRU_Remove_def Option.bind_eq_Some_conv Let_def split: if_splits)

lemma unlink_heap: "(if b then LRU_Remove e sh else Some sh) = Some sh' \<Longrightarrow> heap_of sh' = heap_of sh \<and> table sh' = table sh"
  using LRU_Remove_heap by (cases b) auto

lemma Ref_shrinks:
  assumes "Cache_Ref e sh = Some sh'"
  shows "shrinks E sh sh'"
proof -
  obtain h sh1 where h: "heap_of sh e = Some h" "(if InCache h \<and> h_refs h = 1 then LRU_Remove e sh else Some sh) = Some sh1"
      "sh' = set_handle e (h\<lparr>h_refs := h_refs h + 1\<rparr>) sh1"
    using assms by (auto simp: Cache_Ref_def Option.bind_eq_Some_conv)
  then show ?thesis using unlink_heap [OF h(2)]
    by (intro shrinks_upd [OF h(1)]) (auto simp: set_handle_def same_data_def)
qed

lemma Lookup_shrinks:
  assumes "Cache_Lookup key hash sh = Some (r, sh')"
  shows "shrinks E sh sh'"
proof -
  obtain r' where "Table_Lookup (heap_of sh) key hash (table sh) = Some r'"
    using assms by (auto simp: Cache_Lookup_def Option.bind_eq_Some_conv)
  then have eq: "Cache_Lookup key hash sh = (case r' of
            None \<Rightarrow> Some (None, sh)
          | Some e \<Rightarrow>
              do { h \<leftarrow> heap_of sh e;
                   if \<not> InCache h then None
                   else do { sh \<leftarrow> (if h_refs h = 1 then LRU_Remove e sh else Some sh);
                        Some (Some e, set_handle e (h\<lparr>h_refs := h_refs h + 1\<rparr>) sh) } })"
    by (simp add: Cache_Lookup_def)
  show ?thesis
  proof (cases r')
    case (Some e)
    then obtain h sh1 where h: "heap_of sh e = Some h" "(if h_refs h = 1 then LRU_Remove e sh else Some sh) = Some sh1"
        "sh' = set_handle e (h\<lparr>h_refs := h_refs h + 1\<rparr>) sh1"
      using assms eq by (auto simp: Option.bind_eq_Some_conv split: if_splits)
    then show ?thesis using unlink_heap [OF h(2)]
      by (intro shrinks_upd [OF h(1)]) (auto simp: set_handle_def same_data_def)
  qed (use assms eq in simp)
qed

lemma release_unused_shrinks:
  assumes "release_unused e force_erase h last_reference sh = Some (l', sh')" "heap_of sh e = Some h"
  shows "shrinks E sh sh'"
proof -
  consider "sh' = sh" | "LRU_Insert e sh = Some sh'"
    | r t l sh1 where "Table_Remove (heap_of sh) (h_key h) (h_hash h) (table sh) = Some (r, t)"
        "Unref e (set_handle e (h\<lparr>InCache := False\<rparr>) (sh\<lparr>table := t\<rparr>)) = Some (l, sh1)" "sh' = sh1\<lparr>usage := usage sh1 - h_charge h\<rparr>"
    using assms(1) by (auto simp: release_unused_def Option.bind_eq_Some_conv Let_def split: if_splits)
  then show ?thesis
  proof cases
    case 3
    have a: "shrinks E sh (set_handle e (h\<lparr>InCache := False\<rparr>) (sh\<lparr>table := t\<rparr>))"
      using Table_Remove_shrinks [OF 3(1)] assms(2) by (intro shrinks_upd [of sh e h]) (auto simp: set_handle_def same_data_def)
    have b: "shrinks E sh1 sh'" using 3(3) by (intro shrinks_same) simp_all
    show ?thesis by (rule a [THEN shrinks_trans, OF Unref_shrinks [OF 3(2), THEN shrinks_trans, OF b]])
  qed (use LRU_Insert_shrinks in auto)
qed

lemma Release_shrinks:
  assumes "Cache_Release e force_erase sh = Some (b, sh')"
  shows "shrinks E sh sh'"
proof -
  obtain l sh1 h where u: "Unref e sh = Some (l, sh1)" and h: "heap_of sh1 e = Some h"
    using assms by (auto simp: Cache_Release_def Option.bind_eq_Some_conv)
  define sh2 where "sh2 = (if l then sh1\<lparr>usage := usage sh1 - h_charge h\<rparr> else sh1)"
  have h2: "heap_of sh2 e = Some h" and s2: "shrinks E sh1 sh2" using h by (auto simp: sh2_def intro: shrinks_same)
  obtain l' sh3 where b: "release_unused e force_erase h l sh2 = Some (l', sh3)" and f: "(if l' then Free e sh3 else Some sh3) = Some sh'"
    using assms u h unfolding Cache_Release_def by (auto simp: Let_def sh2_def [symmetric] Option.bind_eq_Some_conv)
  have s4: "shrinks E sh3 sh'" using f Free_shrinks by (cases l') auto
  show ?thesis
    by (rule Unref_shrinks [OF u, THEN shrinks_trans, OF s2 [THEN shrinks_trans, OF release_unused_shrinks [OF b h2, THEN shrinks_trans, OF s4]]])
qed

lemma Erase_shrinks:
  assumes "Cache_Erase key hash sh = Some sh'"
  shows "shrinks E sh sh'"
proof -
  obtain r t where t: "Table_Remove (heap_of sh) key hash (table sh) = Some (r, t)"
    using assms by (auto simp: Cache_Erase_def Option.bind_eq_Some_conv)
  have s1: "shrinks E sh (sh\<lparr>table := t\<rparr>)" using Table_Remove_shrinks [OF t] by (intro shrinks_table) simp_all
  show ?thesis
  proof (cases r)
    case None
    then show ?thesis using assms t s1 by (simp add: Cache_Erase_def)
  next
    case (Some e)
    then obtain l sh1 h where u: "Unref e (sh\<lparr>table := t\<rparr>) = Some (l, sh1)" and h: "heap_of sh1 e = Some h"
      using assms t by (auto simp: Cache_Erase_def Option.bind_eq_Some_conv)
    define sh2 where "sh2 = (if l then sh1\<lparr>usage := usage sh1 - h_charge h\<rparr> else sh1)"
    obtain sh3 where r3: "(if l \<and> InCache h then LRU_Remove e sh2 else Some sh2) = Some sh3"
        and f: "(if l then Free e (set_handle e (h\<lparr>InCache := False\<rparr>) sh3) else Some (set_handle e (h\<lparr>InCache := False\<rparr>) sh3)) = Some sh'"
      using assms t u h Some unfolding sh2_def by (auto simp: Cache_Erase_def Let_def Option.bind_eq_Some_conv)
    have s3: "heap_of sh3 = heap_of sh1" "table sh3 = table sh1" using unlink_heap [OF r3] by (auto simp: sh2_def)
    have "shrinks E sh1 (set_handle e (h\<lparr>InCache := False\<rparr>) sh3)"
      using s3 by (intro shrinks_upd [OF h]) (auto simp: set_handle_def same_data_def)
    moreover have "shrinks E (set_handle e (h\<lparr>InCache := False\<rparr>) sh3) sh'" using f Free_shrinks by (cases l) auto
    ultimately have "shrinks E sh1 sh'" by (rule shrinks_trans)
    with Unref_shrinks [OF u] have "shrinks E (sh\<lparr>table := t\<rparr>) sh'" by (rule shrinks_trans)
    with s1 show ?thesis by (rule shrinks_trans)
  qed
qed

lemma drop_replaced_shrinks:
  assumes "drop_replaced old del sh = Some (del', sh')"
  shows "shrinks E sh sh'"
proof (cases old)
  case (Some o')
  then obtain h l sh1 where h: "heap_of sh o' = Some h" and u: "Unref o' (set_handle o' (h\<lparr>InCache := False\<rparr>) sh) = Some (l, sh1)"
    using assms by (auto simp: drop_replaced_def Option.bind_eq_Some_conv)
  have "shrinks E sh1 sh'"
  proof (cases l)
    case True
    then have "LRU_Remove o' (sh1\<lparr>usage := usage sh1 - h_charge h\<rparr>) = Some sh'"
      using assms Some h u by (auto simp: drop_replaced_def Option.bind_eq_Some_conv)
    from LRU_Remove_heap [OF this] show ?thesis by (intro shrinks_same) simp_all
  qed (use assms Some h u in \<open>auto simp: drop_replaced_def Option.bind_eq_Some_conv\<close>)
  with Unref_shrinks [OF u] have "shrinks E (set_handle o' (h\<lparr>InCache := False\<rparr>) sh) sh'" by (rule shrinks_trans)
  moreover have "shrinks E sh (set_handle o' (h\<lparr>InCache := False\<rparr>) sh)"
    using h by (intro shrinks_set_handle) (auto simp: same_data_def)
  ultimately show ?thesis using shrinks_trans by blast
qed (use assms in \<open>simp add: drop_replaced_def\<close>)

lemma insert_entry_shrinks:
  assumes "insert_entry e charge want del sh = Some (s, r, del', sh')"
  shows "shrinks {e} sh sh'"
proof -
  obtain old t del1 sh1 where t: "Table_Insert (heap_of sh) e (table sh) = Some (old, t)"
      and d: "drop_replaced old del (sh\<lparr>table := t, usage := usage sh + charge\<rparr>) = Some (del1, sh1)"
    using assms by (auto simp: insert_entry_def Option.bind_eq_Some_conv)
  have "shrinks {e} sh (sh\<lparr>table := t, usage := usage sh + charge\<rparr>)"
    using Table_Insert_shrinks [OF t] by (auto simp: shrinks_def)
  with drop_replaced_shrinks [OF d] have s1: "shrinks {e} sh sh1" using shrinks_trans by blast
  have "shrinks {e} sh1 sh'"
  proof (cases want)
    case False
    then have "LRU_Insert e sh1 = Some sh'" using assms t d by (auto simp: insert_entry_def Option.bind_eq_Some_conv)
    then show ?thesis by (rule LRU_Insert_shrinks)
  qed (use assms t d in \<open>auto simp: insert_entry_def\<close>)
  with s1 show ?thesis by (rule shrinks_trans)
qed

text \<open>What an insertion leaves in the table: entries of before, and the new one.\<close>

lemma Insert_shrinks:
  assumes "Cache_Insert pool0 key hash val charge want high_pri sh = Some (s, r, sh')"
  defines "h \<equiv> \<lparr>h_value = val, h_key = key, h_hash = hash, h_charge = charge, h_refs = (if want then 2 else 1),
               InCache = True, IsHighPri = high_pri, InHighPriPool = pool0\<rparr>"
  shows "shrinks {next_addr sh} (set_handle (next_addr sh) h (sh\<lparr>next_addr := next_addr sh + 1\<rparr>)) sh'"
proof -
  let ?e = "next_addr sh" and ?sh = "set_handle (next_addr sh) h (sh\<lparr>next_addr := next_addr sh + 1\<rparr>)"
  let ?full = "\<lambda>sh. usage sh - lru_usage sh + charge > capacity sh \<and> (strict_capacity_limit sh \<or> \<not> want)"
  obtain del sh1 del2 sh2 where e: "EvictFromLRU charge ?sh = Some (del, sh1)"
      and b: "(if ?full sh1
               then if \<not> want then Some (Status_OK, None, del @ [?e], sh1)
                    else Some (Incomplete ''Insert failed due to LRU cache being full.'', None, del,
                               sh1\<lparr>heap_of := (heap_of sh1)(?e := None)\<rparr>)
               else insert_entry ?e charge want del sh1) = Some (s, r, del2, sh2)"
      and f: "FreeAll del2 sh2 = Some sh'"
    using assms(1) unfolding Cache_Insert_def Let_def h_def [symmetric] by (auto simp: Option.bind_eq_Some_conv)
  have s1: "shrinks {?e} ?sh sh1" using e EvictFromLRU_loop_shrinks by (auto simp: EvictFromLRU_def)
  have "shrinks {?e} sh1 (sh1\<lparr>heap_of := (heap_of sh1)(?e := None)\<rparr>)" by (auto simp: shrinks_def)
  then have "shrinks {?e} sh1 sh2" using b insert_entry_shrinks by (auto split: if_splits)
  then show ?thesis using s1 FreeAll_shrinks [OF f] shrinks_trans by blast
qed

end
