(* ===== verification/LRUCacheClient.thy ===== *)
theory LRUCacheClient
  imports LRUCacheFrame
begin

text \<open>
  A shard of the block cache as its client sees it: the states that can be reached by the calls the interface
  allows, the map from keys to values that the shard stands for, and the properties of both.
\<close>

section \<open>The contents of a shard\<close>





section \<open>A client of the shard\<close>

text \<open>
  The calls a client makes. A handle is passed to \<open>Ref\<close> and \<open>Release\<close> only while the client
  holds it: \<open>ext e\<close> counts how often it does. A ratio is not negative, as \<open>NewLRUCache\<close> requires.
\<close>

datatype CacheOp =
    OpInsert bool slice u32 nat nat bool bool
  | OpLookup slice u32
  | OpRef nat
  | OpRelease nat bool
  | OpErase slice u32
  | OpEraseUnRef
  | OpSetCapacity nat
  | OpSetStrict bool
  | OpSetRatio rat

type_synonym cache_state = "(nat \<Rightarrow> nat) \<times> LRUCacheShard"

fun permitted :: "CacheOp \<Rightarrow> cache_state \<Rightarrow> bool" where
  "permitted (OpRef e) (ext, sh) \<longleftrightarrow> 0 < ext e"
| "permitted (OpRelease e force) (ext, sh) \<longleftrightarrow> 0 < ext e"
| "permitted (OpSetRatio ratio) (ext, sh) \<longleftrightarrow> 0 \<le> ratio"
| "permitted _ (ext, sh) \<longleftrightarrow> True"

definition hold :: "nat option \<Rightarrow> (nat \<Rightarrow> nat) \<Rightarrow> nat \<Rightarrow> nat" where
  "hold r ext = (case r of None \<Rightarrow> ext | Some e \<Rightarrow> ext(e := ext e + 1))"

text \<open>The result is the handle that the call returns, and the next state.\<close>

fun cache_step :: "CacheOp \<Rightarrow> cache_state \<Rightarrow> (nat option \<times> cache_state) option" where
  "cache_step (OpInsert pool0 key hash val charge want high) (ext, sh) =
     do { (s, r, sh) \<leftarrow> Cache_Insert pool0 key hash val charge want high sh; Some (r, hold r ext, sh) }"
| "cache_step (OpLookup key hash) (ext, sh) =
     do { (r, sh) \<leftarrow> Cache_Lookup key hash sh; Some (r, hold r ext, sh) }"
| "cache_step (OpRef e) (ext, sh) = do { sh \<leftarrow> Cache_Ref e sh; Some (None, ext(e := ext e + 1), sh) }"
| "cache_step (OpRelease e force) (ext, sh) =
     do { (l, sh) \<leftarrow> Cache_Release e force sh; Some (None, ext(e := ext e - 1), sh) }"
| "cache_step (OpErase key hash) (ext, sh) = do { sh \<leftarrow> Cache_Erase key hash sh; Some (None, ext, sh) }"
| "cache_step OpEraseUnRef (ext, sh) = do { sh \<leftarrow> EraseUnRefEntries sh; Some (None, ext, sh) }"
| "cache_step (OpSetCapacity cap) (ext, sh) = do { sh \<leftarrow> SetCapacity cap sh; Some (None, ext, sh) }"
| "cache_step (OpSetStrict b) (ext, sh) = Some (None, ext, SetStrictCapacityLimit b sh)"
| "cache_step (OpSetRatio ratio) (ext, sh) = do { sh \<leftarrow> SetHighPriorityPoolRatio ratio sh; Some (None, ext, sh) }"

text \<open>A shard as the constructor of \<open>LRUCache\<close> leaves it; the arguments \<open>c0\<close> to \<open>p0\<close> are the uninitialised fields.\<close>

definition New_shard :: "nat \<Rightarrow> bool \<Rightarrow> rat \<Rightarrow> rat \<Rightarrow> nat \<Rightarrow> bool \<Rightarrow> rat \<Rightarrow> LRUCacheShard option" where
  "New_shard c0 b0 r0 p0 cap strict ratio =
     do { sh \<leftarrow> SetCapacity cap (Shard_make c0 b0 r0 p0);
          SetHighPriorityPoolRatio ratio (SetStrictCapacityLimit strict sh) }"

inductive reachable :: "cache_state \<Rightarrow> bool" where
  start: "New_shard c0 b0 r0 p0 cap strict ratio = Some sh \<Longrightarrow> 0 \<le> ratio \<Longrightarrow> reachable ((\<lambda>_. 0), sh)"
| step: "reachable c \<Longrightarrow> permitted op c \<Longrightarrow> cache_step op c = Some (r, c') \<Longrightarrow> reachable c'"

lemma New_shard_spec:
  assumes "0 \<le> ratio"
  shows "\<exists>sh. New_shard c0 b0 r0 p0 cap strict ratio = Some sh \<and> cache_inv (\<lambda>_. 0) sh \<and> capacity sh = cap \<and>
    strict_capacity_limit sh = strict \<and> heap_of sh = Map.empty"
proof -
  let ?sh = "(Shard_make c0 b0 r0 p0)\<lparr>capacity := cap, strict_capacity_limit := strict, high_pri_pool_ratio := ratio,
    high_pri_pool_capacity := of_nat cap * ratio\<rparr>"
  have p: "0 \<le> of_nat cap * ratio" using assms by simp
  then have "New_shard c0 b0 r0 p0 cap strict ratio = Some ?sh"
    by (simp add: New_shard_def SetCapacity_def EvictFromLRU_def SetStrictCapacityLimit_def SetHighPriorityPoolRatio_def
        MaintainPoolSize_def Shard_make_def Let_def not_less)
  moreover have "lru_split [] [] ?sh" by (simp add: lru_split_def Shard_make_def total_def)
  then have "lru_inv ?sh" unfolding lru_inv_def by (auto simp: Shard_make_def total_def)
  then have "cache_inv (\<lambda>_. 0) ?sh"
    using Table_make_inv assms p
    by (auto simp: cache_inv_def base_def mem_ok_def Shard_make_def total_def entries_def Table_make_def)
  ultimately show ?thesis by (simp add: Shard_make_def)
qed

lemma hold_new: "cache_inv ext sh \<Longrightarrow> hold (Some (next_addr sh)) ext = ext(next_addr sh := 1)"
  using alloc_spec(3) [of ext sh] by (simp add: hold_def cache_inv_def)

text \<open>Every call that a client may make returns, and keeps the invariant.\<close>

lemma cache_step_inv:
  assumes "cache_inv ext sh" "permitted op (ext, sh)"
  shows "\<exists>r ext' sh'. cache_step op (ext, sh) = Some (r, ext', sh') \<and> cache_inv ext' sh'"
proof (cases op)
  case (OpInsert pool0 key hash val charge want high)
  obtain s r sh' where i: "Cache_Insert pool0 key hash val charge want high sh = Some (s, r, sh')"
      "insert_post key hash val want ext sh s r sh'"
    using Insert_spec [OF assms(1)] by blast
  have "cache_inv (hold r ext) sh'"
    using i(2) hold_new [OF assms(1)] by (cases r) (auto simp: insert_post_def hold_def [of None])
  then show ?thesis using i(1) OpInsert by simp
next
  case (OpLookup key hash)
  obtain r sh' where l: "Cache_Lookup key hash sh = Some (r, sh')"
    "case r of
       None \<Rightarrow> sh' = sh \<and> (\<forall>e \<in> entries (table sh). key_hash (heap_of sh) e \<noteq> Some (key, hash))
     | Some e \<Rightarrow> cache_inv (ext(e := ext e + 1)) sh' \<and> e \<in> entries (table sh) \<and> key_hash (heap_of sh) e = Some (key, hash)"
    using Lookup_spec [OF assms(1)] by blast
  then show ?thesis using OpLookup assms(1) by (cases r) (auto simp: hold_def)
next
  case (OpRef e)
  then show ?thesis using Ref_spec [OF assms(1), of e] assms(2) by auto
next
  case (OpRelease e force)
  then show ?thesis using Release_spec [OF assms(1), of e force] assms(2) by auto
next
  case (OpErase key hash)
  then show ?thesis using Erase_spec [OF assms(1), of key hash] by auto
next
  case OpEraseUnRef
  then show ?thesis using EraseUnRefEntries_spec [OF assms(1)] by auto
next
  case (OpSetCapacity cap)
  then show ?thesis using SetCapacity_spec [OF assms(1), of cap] by auto
next
  case (OpSetStrict b)
  then show ?thesis using SetStrict_spec [OF assms(1)] by simp
next
  case (OpSetRatio ratio)
  then show ?thesis using SetRatio_spec [OF assms(1), of ratio] assms(2) by auto
qed

lemma reachable_inv: "reachable c \<Longrightarrow> cache_inv (fst c) (snd c)"
proof (induction rule: reachable.induct)
  case (start c0 b0 r0 p0 cap strict ratio sh)
  then show ?case using New_shard_spec [OF start(2), of c0 b0 r0 p0 cap strict] by simp
next
  case (step c op r c')
  then show ?case using cache_step_inv [of "fst c" "snd c" op] by auto
qed

section \<open>Refinement of a map that may forget\<close>










section \<open>Releasing everything\<close>

fun cache_run :: "CacheOp list \<Rightarrow> cache_state \<Rightarrow> cache_state option" where
  "cache_run [] c = Some c"
| "cache_run (op # ops) c =
     (if permitted op c then do { (r, c) \<leftarrow> cache_step op c; cache_run ops c } else None)"

lemma release_run:
  assumes "cache_inv ext sh" "\<And>e. count_list es e \<le> ext e"
  shows "\<exists>sh'. cache_run (map (\<lambda>e. OpRelease e force) es @ ops) (ext, sh) = cache_run ops (\<lambda>e. ext e - count_list es e, sh') \<and>
    cache_inv (\<lambda>e. ext e - count_list es e) sh'"
  using assms
proof (induction es arbitrary: ext sh)
  case (Cons x es)
  have x: "0 < ext x" using Cons.prems(2) [of x] by simp
  obtain r sh1 where r: "Cache_Release x force sh = Some (r, sh1)" "cache_inv (ext(x := ext x - 1)) sh1"
    using Release_spec [OF Cons.prems(1) x] by blast
  have le: "count_list es e \<le> (ext(x := ext x - 1)) e" for e using Cons.prems(2) [of e] by (cases "e = x") auto
  have eq: "(\<lambda>e. (ext(x := ext x - 1)) e - count_list es e) = (\<lambda>e. ext e - count_list (x # es) e)" by auto
  have "cache_run (map (\<lambda>e. OpRelease e force) (x # es) @ ops) (ext, sh) =
      cache_run (map (\<lambda>e. OpRelease e force) es @ ops) (ext(x := ext x - 1), sh1)" using r(1) x by simp
  then show ?case using Cons.IH [of "ext(x := ext x - 1)", OF r(2) le, unfolded eq] by metis
qed auto

lemma unused_empty:
  assumes "cache_inv (\<lambda>_. 0) sh" "lru sh = []"
  shows "heap_of sh = Map.empty \<and> usage sh = 0"
proof -
  have b: "base {} (\<lambda>_. 0) sh" using assms(1) by (simp add: cache_inv_def)
  then have e: "entries (table sh) = {}" using assms(2) by (auto simp: base_def)
  have "heap_of sh x = None" for x
  proof (cases "heap_of sh x")
    case (Some h)
    then have "handle_ok (\<lambda>_. 0) (table sh) x h" using b by (auto simp: base_def mem_ok_def)
    then show ?thesis using e by (auto simp: handle_ok_def)
  qed
  then have "heap_of sh = Map.empty" by auto
  then show ?thesis using b by (simp add: base_def total_def)
qed

section \<open>Properties\<close>


definition demo_shard :: LRUCacheShard where
  "demo_shard = the (New_shard 0 False 0 0 2 True (1 / 2))"

lemma demo_reachable: "reachable ((\<lambda>_. 0), demo_shard)"
  using New_shard_spec [of "1 / 2" 0 False 0 0 2 True] reachable.start [of 0 False 0 0 2 True "1 / 2"] unfolding demo_shard_def by auto




text \<open>
  C33: With a strict capacity limit an insertion never takes the usage above the capacity: it returns a
  handle on the new entry, or refuses with Incomplete when a handle was asked for, or drops the entry.
\<close>

theorem strict_capacity_bound:
  assumes "reachable (ext, sh)" "strict_capacity_limit sh" "usage sh \<le> capacity sh"
  shows "\<exists>s r sh'. Cache_Insert pool0 key hash val charge want high sh = Some (s, r, sh') \<and>
    usage sh' \<le> capacity sh' \<and> capacity sh' = capacity sh \<and> (ok s \<longleftrightarrow> (want \<longrightarrow> r \<noteq> None)) \<and> (r \<noteq> None \<longrightarrow> want)"
proof -
  have inv: "cache_inv ext sh" using reachable_inv [OF assms(1)] by simp
  obtain s r sh' where i: "Cache_Insert pool0 key hash val charge want high sh = Some (s, r, sh')"
      "insert_post key hash val want ext sh s r sh'"
    using Insert_spec [OF inv] by blast
  then show ?thesis using assms(2,3) by (cases r) (auto simp: insert_post_def)
qed

theorem strict_capacity_bound_witness:
  "\<exists>s r sh'. Cache_Insert False [1] 7 42 5 True True demo_shard = Some (s, r, sh') \<and> usage sh' \<le> capacity sh' \<and> r = None \<and> \<not> ok s"
proof -
  have d: "strict_capacity_limit demo_shard" "usage demo_shard \<le> capacity demo_shard" by code_simp+
  have "\<not> ok (fst (the (Cache_Insert False [1] 7 42 5 True True demo_shard)))"
    "fst (snd (the (Cache_Insert False [1] 7 42 5 True True demo_shard))) = None" by code_simp+
  then show ?thesis using strict_capacity_bound [OF demo_reachable d, of False "[1]" 7 42 5 True True] by auto
qed

text \<open>
  C34: Everything the cache holds can be given back: once the client has released the handles it holds, each as
  often as it holds it and in any order, erasing the entries nobody refers to leaves no handle in
  memory and a usage of zero.
\<close>

theorem lru_cache_drains:
  assumes "reachable (ext, sh)" "\<And>e. count_list es e = ext e"
  shows "\<exists>sh'. cache_run (map (\<lambda>e. OpRelease e False) es @ [OpEraseUnRef]) (ext, sh) = Some ((\<lambda>_. 0), sh') \<and>
    heap_of sh' = Map.empty \<and> usage sh' = 0"
proof -
  have inv: "cache_inv ext sh" using reachable_inv [OF assms(1)] by simp
  have z: "(\<lambda>e. ext e - count_list es e) = (\<lambda>_. 0)" using assms(2) by simp
  obtain sh1 where s1: "cache_run (map (\<lambda>e. OpRelease e False) es @ [OpEraseUnRef]) (ext, sh) = cache_run [OpEraseUnRef] ((\<lambda>_. 0), sh1)"
      "cache_inv (\<lambda>_. 0) sh1"
    using release_run [OF inv, of es False "[OpEraseUnRef]"] assms(2) unfolding z by auto
  obtain sh2 where "EraseUnRefEntries sh1 = Some sh2" "cache_inv (\<lambda>_. 0) sh2" "lru sh2 = []"
    using EraseUnRefEntries_spec [OF s1(2)] by blast
  then show ?thesis using s1(1) unused_empty by simp
qed

definition demo_held :: cache_state where
  "demo_held = snd (the (cache_step (OpInsert False [1] 7 42 2 True False) ((\<lambda>_. 0), demo_shard)))"

lemma demo_held_reachable: "reachable (fst demo_held, snd demo_held)" "fst demo_held e = count_list [0] e"
proof -
  let ?op = "OpInsert False [1] 7 42 2 True False"
  have p: "permitted ?op ((\<lambda>_. 0), demo_shard)" by simp
  obtain r ext' sh' where s: "cache_step ?op ((\<lambda>_. 0), demo_shard) = Some (r, ext', sh')"
    using cache_step_inv [OF _ p] reachable_inv [OF demo_reachable] by auto
  then show "reachable (fst demo_held, snd demo_held)"
    using reachable.step [OF demo_reachable p s] by (simp add: demo_held_def)
  have "fst (the (cache_step ?op ((\<lambda>_. 0), demo_shard))) = Some 0" by code_simp
  then have "r = Some 0" using s by simp
  then have "ext' = (\<lambda>_. 0)(0 := 1)" using s by (auto simp: Option.bind_eq_Some_conv hold_def)
  then show "fst demo_held e = count_list [0] e" using s by (simp add: demo_held_def)
qed

theorem lru_cache_drains_witness:
  "\<exists>sh'. cache_run (map (\<lambda>e. OpRelease e False) [0] @ [OpEraseUnRef]) (fst demo_held, snd demo_held) = Some ((\<lambda>_. 0), sh') \<and>
     heap_of sh' = Map.empty \<and> usage sh' = 0"
  by (rule lru_cache_drains [OF demo_held_reachable(1)]) (simp only: demo_held_reachable(2))


end
