(* ===== verification/ShardedCache.thy ===== *)
theory ShardedCache
  imports LRUCacheClient
begin

text \<open>
  \<^verbatim>\<open>class ShardedCache\<close> of \<^verbatim>\<open>cache/sharded_cache.{h,cc}\<close> and \<^verbatim>\<open>class LRUCache\<close> of
  \<^verbatim>\<open>cache/lru_cache.cc\<close>: the block cache. A key belongs to the shard that the top bits of its hash
  select. A handle is the index of the shard whose memory holds it and its address there; the operations on a
  handle find the shard from the hash that is stored in it.
\<close>

type_synonym handle = "nat \<times> nat"

record ShardedCache =
  num_shard_bits :: nat
  sc_capacity :: nat
  sc_strict_capacity_limit :: bool
  last_id :: u64
  shards :: "LRUCacheShard list"

definition HashSlice :: "slice \<Rightarrow> u32" where
  "HashSlice s = Hash s 0"

definition Shard :: "ShardedCache \<Rightarrow> u32 \<Rightarrow> nat" where
  "Shard c hash = (if num_shard_bits c > 0 then unat (drop_bit (32 - num_shard_bits c) hash) else 0)"

text \<open>A call on the shard of the given index, and one on every shard.\<close>

definition at_shard :: "nat \<Rightarrow> (LRUCacheShard \<Rightarrow> ('a \<times> LRUCacheShard) option) \<Rightarrow> ShardedCache \<Rightarrow> ('a \<times> ShardedCache) option" where
  "at_shard i f c =
     (if i < length (shards c)
      then do { (x, sh) \<leftarrow> f (shards c ! i); Some (x, c\<lparr>shards := (shards c)[i := sh]\<rparr>) }
      else None)"

definition at_all_shards :: "(LRUCacheShard \<Rightarrow> LRUCacheShard option) \<Rightarrow> ShardedCache \<Rightarrow> ShardedCache option" where
  "at_all_shards f c = map_option (\<lambda>shs. c\<lparr>shards := shs\<rparr>) (those (map f (shards c)))"

definition SC_SetCapacity :: "nat \<Rightarrow> ShardedCache \<Rightarrow> ShardedCache option" where
  "SC_SetCapacity cap c =
     (let num_shards = 2 ^ num_shard_bits c; per_shard = (cap + (num_shards - 1)) div num_shards
      in map_option (\<lambda>c. c\<lparr>sc_capacity := cap\<rparr>) (at_all_shards (SetCapacity per_shard) c))"

definition SC_SetStrictCapacityLimit :: "bool \<Rightarrow> ShardedCache \<Rightarrow> ShardedCache" where
  "SC_SetStrictCapacityLimit strict c =
     c\<lparr>shards := map (SetStrictCapacityLimit strict) (shards c), sc_strict_capacity_limit := strict\<rparr>"

definition SC_Insert ::
    "bool \<Rightarrow> slice \<Rightarrow> nat \<Rightarrow> nat \<Rightarrow> bool \<Rightarrow> bool \<Rightarrow> ShardedCache \<Rightarrow> ((Status \<times> handle option) \<times> ShardedCache) option" where
  "SC_Insert pool0 key val charge want high c =
     (let hash = HashSlice key; i = Shard c hash
      in at_shard i (\<lambda>sh. map_option (\<lambda>(s, r, sh). ((s, map_option (Pair i) r), sh))
           (Cache_Insert pool0 key hash val charge want high sh)) c)"

definition SC_Lookup :: "slice \<Rightarrow> ShardedCache \<Rightarrow> (handle option \<times> ShardedCache) option" where
  "SC_Lookup key c =
     (let hash = HashSlice key; i = Shard c hash
      in at_shard i (\<lambda>sh. map_option (\<lambda>(r, sh). (map_option (Pair i) r, sh)) (Cache_Lookup key hash sh)) c)"

definition GetHandle :: "handle \<Rightarrow> ShardedCache \<Rightarrow> LRUHandle option" where
  "GetHandle hnd c = (if fst hnd < length (shards c) then heap_of (shards c ! fst hnd) (snd hnd) else None)"

definition SC_Value :: "handle \<Rightarrow> ShardedCache \<Rightarrow> nat option" where
  "SC_Value hnd c = map_option h_value (GetHandle hnd c)"

definition GetCharge :: "handle \<Rightarrow> ShardedCache \<Rightarrow> nat option" where
  "GetCharge hnd c = map_option h_charge (GetHandle hnd c)"

definition GetHash :: "handle \<Rightarrow> ShardedCache \<Rightarrow> u32 option" where
  "GetHash hnd c = map_option h_hash (GetHandle hnd c)"

text \<open>
  A handle that is passed to another shard than its own is foreign memory there: the call is then \<open>None\<close>.
\<close>

definition SC_Ref :: "handle \<Rightarrow> ShardedCache \<Rightarrow> (bool \<times> ShardedCache) option" where
  "SC_Ref hnd c =
     do { hash \<leftarrow> GetHash hnd c;
          if Shard c hash = fst hnd then at_shard (Shard c hash) (\<lambda>sh. map_option (Pair True) (Cache_Ref (snd hnd) sh)) c
          else None }"

definition SC_Release :: "handle \<Rightarrow> bool \<Rightarrow> ShardedCache \<Rightarrow> (bool \<times> ShardedCache) option" where
  "SC_Release hnd force_erase c =
     do { hash \<leftarrow> GetHash hnd c;
          if Shard c hash = fst hnd then at_shard (Shard c hash) (Cache_Release (snd hnd) force_erase) c
          else None }"

definition SC_Erase :: "slice \<Rightarrow> ShardedCache \<Rightarrow> ShardedCache option" where
  "SC_Erase key c =
     (let hash = HashSlice key
      in map_option snd (at_shard (Shard c hash) (\<lambda>sh. map_option (Pair ()) (Cache_Erase key hash sh)) c))"

definition NewId :: "ShardedCache \<Rightarrow> u64 \<times> ShardedCache" where
  "NewId c = (last_id c, c\<lparr>last_id := last_id c + 1\<rparr>)"

definition SC_GetUsage :: "ShardedCache \<Rightarrow> nat" where
  "SC_GetUsage c = sum_list (map usage (shards c))"

definition SC_GetPinnedUsage :: "ShardedCache \<Rightarrow> nat" where
  "SC_GetPinnedUsage c = sum_list (map GetPinnedUsage (shards c))"

definition SC_ApplyToAllCacheEntries :: "ShardedCache \<Rightarrow> (nat \<times> nat) list option" where
  "SC_ApplyToAllCacheEntries c = map_option concat (those (map ApplyToAllCacheEntries (shards c)))"

definition SC_EraseUnRefEntries :: "ShardedCache \<Rightarrow> ShardedCache option" where
  "SC_EraseUnRefEntries c = at_all_shards EraseUnRefEntries c"

function shard_bits_loop :: "nat \<Rightarrow> nat \<Rightarrow> nat" where
  "shard_bits_loop bits num_shards =
     (if num_shards div 2 = 0 then bits
      else if bits + 1 \<ge> 6 then bits + 1
      else shard_bits_loop (bits + 1) (num_shards div 2))"
  by pat_completeness auto
termination by (relation "measure snd") auto

declare shard_bits_loop.simps [simp del]

definition GetDefaultCacheShardBits :: "nat \<Rightarrow> nat" where
  "GetDefaultCacheShardBits cap = shard_bits_loop 0 (cap div (512 * 1024))"

text \<open>\<open>init i\<close> are the fields that the constructor of shard \<open>i\<close> leaves uninitialised.\<close>

definition LRUCache_make :: "(nat \<Rightarrow> nat \<times> bool \<times> rat \<times> rat) \<Rightarrow> nat \<Rightarrow> nat \<Rightarrow> bool \<Rightarrow> rat \<Rightarrow> ShardedCache option" where
  "LRUCache_make init cap bits strict ratio =
     (let c = \<lparr>num_shard_bits = bits, sc_capacity = cap, sc_strict_capacity_limit = strict, last_id = 1,
               shards = map (\<lambda>i. let (c0, b0, r0, p0) = init i in Shard_make c0 b0 r0 p0) [0..<2 ^ bits]\<rparr>
      in do { c \<leftarrow> SC_SetCapacity cap c;
              at_all_shards (SetHighPriorityPoolRatio ratio) (SC_SetStrictCapacityLimit strict c) })"

text \<open>The outer option is a null pointer.\<close>

definition NewLRUCache :: "(nat \<Rightarrow> nat \<times> bool \<times> rat \<times> rat) \<Rightarrow> nat \<Rightarrow> int \<Rightarrow> bool \<Rightarrow> rat \<Rightarrow> ShardedCache option option" where
  "NewLRUCache init cap bits strict ratio =
     (if bits \<ge> 20 then None
      else if ratio < 0 \<or> ratio > 1 then None
      else Some (LRUCache_make init cap (if bits < 0 then GetDefaultCacheShardBits cap else nat bits) strict ratio))"

section \<open>Every handle is in the shard of its hash\<close>

definition shard_wf :: "ShardedCache \<Rightarrow> nat \<Rightarrow> LRUCacheShard \<Rightarrow> bool" where
  "shard_wf c i sh \<longleftrightarrow> (\<forall>e h. heap_of sh e = Some h \<longrightarrow> Shard c (h_hash h) = i)"

definition sc_wf :: "(nat \<Rightarrow> nat \<Rightarrow> nat) \<Rightarrow> ShardedCache \<Rightarrow> bool" where
  "sc_wf ext c \<longleftrightarrow>
     num_shard_bits c \<le> 32 \<and> length (shards c) = 2 ^ num_shard_bits c \<and>
     (\<forall>i < length (shards c). cache_inv (ext i) (shards c ! i) \<and> shard_wf c i (shards c ! i)) \<and>
     (\<forall>i e. i \<ge> length (shards c) \<longrightarrow> ext i e = 0)"

lemma Shard_less: "num_shard_bits c \<le> 32 \<Longrightarrow> Shard c hash < 2 ^ num_shard_bits c"
proof -
  assume b: "num_shard_bits c \<le> 32"
  show ?thesis
  proof (cases "num_shard_bits c = 0")
    case False
    have "unat hash < 2 ^ (num_shard_bits c + (32 - num_shard_bits c))" using unat_lt [of hash] b by simp
    then have "unat hash div 2 ^ (32 - num_shard_bits c) < 2 ^ num_shard_bits c"
      by (simp add: power_add less_mult_imp_div_less)
    then show ?thesis using False by (simp add: Shard_def unat_drop_bit)
  qed (simp add: Shard_def)
qed

lemma Shard_cong [simp]: "Shard (c\<lparr>shards := shs\<rparr>) = Shard c" "Shard (c\<lparr>sc_capacity := n\<rparr>) = Shard c"
    "Shard (c\<lparr>sc_strict_capacity_limit := b\<rparr>) = Shard c" "Shard (c\<lparr>last_id := k\<rparr>) = Shard c"
  by (auto simp: Shard_def fun_eq_iff)

lemma shards_less: "sc_wf ext c \<Longrightarrow> Shard c hash < length (shards c)"
  using Shard_less [of c hash] by (simp add: sc_wf_def)

lemma shard_wf_shrinks: "shrinks E sh sh' \<Longrightarrow> shard_wf c i sh \<Longrightarrow> shard_wf c i sh'"
  unfolding shrinks_def shard_wf_def same_data_def by metis

lemma shard_wf_cong [simp]: "shard_wf (c\<lparr>shards := shs\<rparr>) = shard_wf c"
  by (auto simp: shard_wf_def fun_eq_iff)

text \<open>A call on one shard keeps the cache well-formed if it keeps that shard so.\<close>

lemma at_shard_wf:
  assumes "sc_wf ext c" "i < length (shards c)" "f (shards c ! i) = Some (x, sh')" "cache_inv ext' sh'" "shard_wf c i sh'"
  shows "\<exists>c'. at_shard i f c = Some (x, c') \<and> sc_wf (ext(i := ext')) c' \<and> num_shard_bits c' = num_shard_bits c \<and>
    shards c' = (shards c)[i := sh']"
  using assms by (auto simp: at_shard_def sc_wf_def nth_list_update)

lemma those_map_Some: "(\<And>x. x \<in> set xs \<Longrightarrow> f x = Some (g x)) \<Longrightarrow> those (map f xs) = Some (map g xs)"
  by (induction xs) auto

lemma at_all_shards_wf:
  assumes "sc_wf ext c" "\<And>i. i < length (shards c) \<Longrightarrow> \<exists>sh'. f (shards c ! i) = Some sh' \<and> cache_inv (ext i) sh' \<and> shard_wf c i sh'"
  shows "\<exists>c'. at_all_shards f c = Some c' \<and> sc_wf ext c' \<and> num_shard_bits c' = num_shard_bits c"
proof -
  let ?g = "\<lambda>sh. the (f sh)"
  have "those (map f (shards c)) = Some (map ?g (shards c))"
    using assms(2) by (intro those_map_Some) (metis in_set_conv_nth option.sel)
  moreover have "cache_inv (ext i) (?g (shards c ! i)) \<and> shard_wf c i (?g (shards c ! i))" if "i < length (shards c)" for i
    using assms(2) [OF that] by auto
  ultimately show ?thesis using assms(1) by (auto simp: at_all_shards_def sc_wf_def)
qed

lemma at_all_shards_spec:
  "(\<And>sh. sh \<in> set (shards c) \<Longrightarrow> f sh = Some (g sh)) \<Longrightarrow> at_all_shards f c = Some (c\<lparr>shards := map g (shards c)\<rparr>)"
  by (simp add: at_all_shards_def those_map_Some)

lemma SetCapacity_new: "lru sh = [] \<Longrightarrow>
    SetCapacity n sh = Some (sh\<lparr>capacity := n, high_pri_pool_capacity := of_nat n * high_pri_pool_ratio sh\<rparr>)"
  by (simp add: SetCapacity_def EvictFromLRU_def Let_def)

text \<open>The shards of a new cache are new shards.\<close>

lemma LRUCache_make_spec:
  assumes "bits \<le> 32" "0 \<le> ratio"
  shows "\<exists>c. LRUCache_make init cap bits strict ratio = Some c \<and> sc_wf (\<lambda>_ _. 0) c"
proof -
  define per where "per = (cap + (2 ^ bits - 1)) div 2 ^ bits"
  define new where "new = (\<lambda>i. let (c0, b0, r0, p0) = init i in Shard_make c0 b0 r0 p0)"
  define c where "c = \<lparr>num_shard_bits = bits, sc_capacity = cap, sc_strict_capacity_limit = strict, last_id = 1,
               shards = map new [0..<2 ^ bits]\<rparr>"
  let ?g = "\<lambda>sh. sh\<lparr>capacity := per, high_pri_pool_capacity := of_nat per * high_pri_pool_ratio sh\<rparr>"
  let ?r = "\<lambda>sh. sh\<lparr>high_pri_pool_ratio := ratio, high_pri_pool_capacity := of_nat (capacity sh) * ratio\<rparr>"
  have l: "lru (new i) = []" "high_pri_pool_usage (new i) = 0" for i by (cases "init i"; simp add: new_def Shard_make_def)+
  have g: "\<And>sh. sh \<in> set (shards c) \<Longrightarrow> SetCapacity per sh = Some (?g sh)"
    using l(1) by (auto simp: c_def intro: SetCapacity_new)
  have "SC_SetCapacity cap c = Some (c\<lparr>shards := map ?g (shards c)\<rparr>)"
    using at_all_shards_spec [of c "SetCapacity per" ?g, OF g] by (simp add: SC_SetCapacity_def per_def c_def Let_def)
  moreover define c1 where "c1 = SC_SetStrictCapacityLimit strict (c\<lparr>shards := map ?g (shards c)\<rparr>)"
  have r: "\<And>sh. sh \<in> set (shards c1) \<Longrightarrow> SetHighPriorityPoolRatio ratio sh = Some (?r sh)"
    using l assms(2)
    by (auto simp: c1_def c_def SC_SetStrictCapacityLimit_def SetStrictCapacityLimit_def SetHighPriorityPoolRatio_def MaintainPoolSize_def not_less)
  ultimately have eq: "LRUCache_make init cap bits strict ratio = Some (c1\<lparr>shards := map ?r (shards c1)\<rparr>)"
    using at_all_shards_spec [of c1 "SetHighPriorityPoolRatio ratio" ?r, OF r]
    by (simp add: LRUCache_make_def Let_def c_def new_def c1_def case_prod_beta)
  have "cache_inv (\<lambda>_. 0) (?r (SetStrictCapacityLimit strict (?g (new i)))) \<and>
      heap_of (?r (SetStrictCapacityLimit strict (?g (new i)))) = Map.empty" for i
  proof -
    obtain c0 b0 r0 p0 where i: "init i = (c0, b0, r0, p0)" by (cases "init i")
    have "New_shard c0 b0 r0 p0 per strict ratio = Some (?r (SetStrictCapacityLimit strict (?g (new i))))"
      using assms(2) by (simp add: New_shard_def SetCapacity_new new_def i Shard_make_def SetStrictCapacityLimit_def
          SetHighPriorityPoolRatio_def MaintainPoolSize_def not_less)
    then show ?thesis using New_shard_spec [OF assms(2), of c0 b0 r0 p0 per strict] by auto
  qed
  then have "sc_wf (\<lambda>_ _. 0) (c1\<lparr>shards := map ?r (shards c1)\<rparr>)"
    using assms(1) by (auto simp: sc_wf_def c1_def c_def SC_SetStrictCapacityLimit_def shard_wf_def)
  then show ?thesis using eq by blast
qed

lemma shard_bits_le: "bits \<le> 5 \<Longrightarrow> shard_bits_loop bits n \<le> 6"
proof (induction bits n rule: shard_bits_loop.induct)
  case (1 bits n)
  then show ?case by (subst shard_bits_loop.simps) auto
qed

lemma NewLRUCache_spec:
  assumes "NewLRUCache init cap bits strict ratio = Some r"
  shows "\<exists>c. r = Some c \<and> sc_wf (\<lambda>_ _. 0) c"
proof -
  have b: "bits < 20" "0 \<le> ratio" using assms by (auto simp: NewLRUCache_def split: if_splits)
  have "(if bits < 0 then GetDefaultCacheShardBits cap else nat bits) \<le> 32"
    using b(1) shard_bits_le [of 0 "cap div (512 * 1024)"] by (auto simp: GetDefaultCacheShardBits_def)
  moreover have "r = LRUCache_make init cap (if bits < 0 then GetDefaultCacheShardBits cap else nat bits) strict ratio"
    using assms by (simp add: NewLRUCache_def split: if_splits)
  ultimately show ?thesis using LRUCache_make_spec b(2) by blast
qed

section \<open>A client of the cache\<close>

datatype ScOp =
    ScInsert bool slice nat nat bool bool
  | ScLookup slice
  | ScRef handle
  | ScRelease handle bool
  | ScErase slice
  | ScEraseUnRef
  | ScSetCapacity nat
  | ScSetStrict bool

type_synonym sc_state = "(nat \<Rightarrow> nat \<Rightarrow> nat) \<times> ShardedCache"

fun sc_permitted :: "ScOp \<Rightarrow> sc_state \<Rightarrow> bool" where
  "sc_permitted (ScRef hnd) (ext, c) \<longleftrightarrow> 0 < ext (fst hnd) (snd hnd)"
| "sc_permitted (ScRelease hnd force) (ext, c) \<longleftrightarrow> 0 < ext (fst hnd) (snd hnd)"
| "sc_permitted _ (ext, c) \<longleftrightarrow> True"

definition sc_hold :: "handle option \<Rightarrow> (nat \<Rightarrow> nat \<Rightarrow> nat) \<Rightarrow> nat \<Rightarrow> nat \<Rightarrow> nat" where
  "sc_hold r ext = (case r of None \<Rightarrow> ext | Some (i, e) \<Rightarrow> ext(i := (ext i)(e := ext i e + 1)))"

definition sc_drop :: "handle \<Rightarrow> (nat \<Rightarrow> nat \<Rightarrow> nat) \<Rightarrow> nat \<Rightarrow> nat \<Rightarrow> nat" where
  "sc_drop hnd ext = (case hnd of (i, e) \<Rightarrow> ext(i := (ext i)(e := ext i e - 1)))"

fun sc_step :: "ScOp \<Rightarrow> sc_state \<Rightarrow> (handle option \<times> sc_state) option" where
  "sc_step (ScInsert pool0 key val charge want high) (ext, c) =
     do { ((s, r), c) \<leftarrow> SC_Insert pool0 key val charge want high c; Some (r, sc_hold r ext, c) }"
| "sc_step (ScLookup key) (ext, c) = do { (r, c) \<leftarrow> SC_Lookup key c; Some (r, sc_hold r ext, c) }"
| "sc_step (ScRef hnd) (ext, c) = do { (b, c) \<leftarrow> SC_Ref hnd c; Some (None, sc_hold (Some hnd) ext, c) }"
| "sc_step (ScRelease hnd force) (ext, c) = do { (b, c) \<leftarrow> SC_Release hnd force c; Some (None, sc_drop hnd ext, c) }"
| "sc_step (ScErase key) (ext, c) = do { c \<leftarrow> SC_Erase key c; Some (None, ext, c) }"
| "sc_step ScEraseUnRef (ext, c) = do { c \<leftarrow> SC_EraseUnRefEntries c; Some (None, ext, c) }"
| "sc_step (ScSetCapacity cap) (ext, c) = do { c \<leftarrow> SC_SetCapacity cap c; Some (None, ext, c) }"
| "sc_step (ScSetStrict b) (ext, c) = Some (None, ext, SC_SetStrictCapacityLimit b c)"

inductive sc_reachable :: "sc_state \<Rightarrow> bool" where
  new: "NewLRUCache init cap bits strict ratio = Some (Some c) \<Longrightarrow> sc_reachable ((\<lambda>_ _. 0), c)"
| call: "sc_reachable s \<Longrightarrow> sc_permitted op s \<Longrightarrow> sc_step op s = Some (r, s') \<Longrightarrow> sc_reachable s'"

lemma shard_wf_insert:
  assumes "Cache_Insert pool0 key hash val charge want high sh = Some (s, r, sh')" "shard_wf c i sh" "Shard c hash = i"
  shows "shard_wf c i sh'"
  using assms(2,3) by (intro shard_wf_shrinks [OF Insert_shrinks [OF assms(1)]]) (auto simp: shard_wf_def set_handle_def)

lemma SC_Insert_wf:
  assumes "sc_wf ext c"
  shows "\<exists>s r c'. SC_Insert pool0 key val charge want high c = Some ((s, r), c') \<and> sc_wf (sc_hold r ext) c'"
proof -
  let ?hash = "HashSlice key" and ?i = "Shard c (HashSlice key)"
  have i: "?i < length (shards c)" using shards_less [OF assms] .
  then have w: "cache_inv (ext ?i) (shards c ! ?i)" "shard_wf c ?i (shards c ! ?i)" using assms by (auto simp: sc_wf_def)
  obtain r ext' sh' where st: "cache_step (OpInsert pool0 key ?hash val charge want high) (ext ?i, shards c ! ?i) = Some (r, ext', sh')"
      "cache_inv ext' sh'"
    using cache_step_inv [OF w(1), of "OpInsert pool0 key ?hash val charge want high"] by (auto simp del: cache_step.simps)
  then obtain s where s: "Cache_Insert pool0 key ?hash val charge want high (shards c ! ?i) = Some (s, r, sh')" "ext' = hold r (ext ?i)"
    by (auto simp: Option.bind_eq_Some_conv)
  have "shard_wf c ?i sh'" using shard_wf_insert [OF s(1) w(2)] by simp
  from at_shard_wf [OF assms i _ st(2) this, of "\<lambda>sh. map_option (\<lambda>(s, r, sh). ((s, map_option (Pair ?i) r), sh))
        (Cache_Insert pool0 key ?hash val charge want high sh)" "(s, map_option (Pair ?i) r)"]
  obtain c' where c': "SC_Insert pool0 key val charge want high c = Some ((s, map_option (Pair ?i) r), c')" "sc_wf (ext(?i := ext')) c'"
    using s(1) by (auto simp: SC_Insert_def Let_def)
  have "ext(?i := ext') = sc_hold (map_option (Pair ?i) r) ext" using s(2) by (cases r) (auto simp: sc_hold_def hold_def)
  then show ?thesis using c' by auto
qed

lemma SC_Lookup_wf:
  assumes "sc_wf ext c"
  shows "\<exists>r c'. SC_Lookup key c = Some (r, c') \<and> sc_wf (sc_hold r ext) c'"
proof -
  let ?hash = "HashSlice key" and ?i = "Shard c (HashSlice key)"
  have i: "?i < length (shards c)" using shards_less [OF assms] .
  then have w: "cache_inv (ext ?i) (shards c ! ?i)" "shard_wf c ?i (shards c ! ?i)" using assms by (auto simp: sc_wf_def)
  obtain r ext' sh' where st: "cache_step (OpLookup key ?hash) (ext ?i, shards c ! ?i) = Some (r, ext', sh')" "cache_inv ext' sh'"
    using cache_step_inv [OF w(1), of "OpLookup key ?hash"] by (auto simp del: cache_step.simps)
  then have s: "Cache_Lookup key ?hash (shards c ! ?i) = Some (r, sh')" "ext' = hold r (ext ?i)"
    by (auto simp: Option.bind_eq_Some_conv)
  have "shard_wf c ?i sh'" by (rule shard_wf_shrinks [OF Lookup_shrinks [OF s(1)] w(2)])
  from at_shard_wf [OF assms i _ st(2) this, of "\<lambda>sh. map_option (\<lambda>(r, sh). (map_option (Pair ?i) r, sh)) (Cache_Lookup key ?hash sh)"
      "map_option (Pair ?i) r"]
  obtain c' where c': "SC_Lookup key c = Some (map_option (Pair ?i) r, c')" "sc_wf (ext(?i := ext')) c'"
    using s(1) by (auto simp: SC_Lookup_def Let_def)
  have "ext(?i := ext') = sc_hold (map_option (Pair ?i) r) ext" using s(2) by (cases r) (auto simp: sc_hold_def hold_def)
  then show ?thesis using c' by auto
qed

text \<open>A handle that the client holds leads back to the shard it is from.\<close>

lemma held_shard:
  assumes "sc_wf ext c" "0 < ext i e"
  shows "i < length (shards c)" "cache_inv (ext i) (shards c ! i)" "shard_wf c i (shards c ! i)"
    "\<exists>hash. GetHash (i, e) c = Some hash \<and> Shard c hash = i"
proof -
  show i: "i < length (shards c)" using assms by (auto simp: sc_wf_def) (metis less_irrefl not_le)
  then show w: "cache_inv (ext i) (shards c ! i)" "shard_wf c i (shards c ! i)" using assms(1) by (auto simp: sc_wf_def)
  obtain h where "heap_of (shards c ! i) e = Some h" using base_held [of "{}" "ext i" "shards c ! i" e] w(1) assms(2) by (auto simp: cache_inv_def)
  then show "\<exists>hash. GetHash (i, e) c = Some hash \<and> Shard c hash = i" using i w(2) by (auto simp: GetHash_def GetHandle_def shard_wf_def)
qed

lemma SC_Ref_wf:
  assumes "sc_wf ext c" "0 < ext i e"
  shows "\<exists>c'. SC_Ref (i, e) c = Some (True, c') \<and> sc_wf (sc_hold (Some (i, e)) ext) c'"
proof -
  note h = held_shard [OF assms]
  obtain hash where g: "GetHash (i, e) c = Some hash" "Shard c hash = i" using h(4) by blast
  obtain sh' where s: "Cache_Ref e (shards c ! i) = Some sh'" "cache_inv ((ext i)(e := ext i e + 1)) sh'"
    using Ref_spec [OF h(2) assms(2)] by blast
  have "shard_wf c i sh'" by (rule shard_wf_shrinks [OF Ref_shrinks [OF s(1)] h(3)])
  from at_shard_wf [OF assms(1) h(1) _ s(2) this, of "\<lambda>sh. map_option (Pair True) (Cache_Ref e sh)" True]
  show ?thesis using g s(1) by (auto simp: SC_Ref_def sc_hold_def)
qed

lemma SC_Release_wf:
  assumes "sc_wf ext c" "0 < ext i e"
  shows "\<exists>b c'. SC_Release (i, e) force c = Some (b, c') \<and> sc_wf (sc_drop (i, e) ext) c'"
proof -
  note h = held_shard [OF assms]
  obtain hash where g: "GetHash (i, e) c = Some hash" "Shard c hash = i" using h(4) by blast
  obtain b sh' where s: "Cache_Release e force (shards c ! i) = Some (b, sh')" "cache_inv ((ext i)(e := ext i e - 1)) sh'"
    using Release_spec [OF h(2) assms(2)] by blast
  have "shard_wf c i sh'" by (rule shard_wf_shrinks [OF Release_shrinks [OF s(1)] h(3)])
  from at_shard_wf [OF assms(1) h(1) _ s(2) this, of "Cache_Release e force" b]
  show ?thesis using g s(1) by (auto simp: SC_Release_def sc_drop_def)
qed

lemma SC_Erase_wf:
  assumes "sc_wf ext c"
  shows "\<exists>c'. SC_Erase key c = Some c' \<and> sc_wf ext c'"
proof -
  let ?hash = "HashSlice key" and ?i = "Shard c (HashSlice key)"
  have i: "?i < length (shards c)" using shards_less [OF assms] .
  then have w: "cache_inv (ext ?i) (shards c ! ?i)" "shard_wf c ?i (shards c ! ?i)" using assms by (auto simp: sc_wf_def)
  obtain sh' where s: "Cache_Erase key ?hash (shards c ! ?i) = Some sh'" "cache_inv (ext ?i) sh'"
    using Erase_spec [OF w(1), of key ?hash] by blast
  have "shard_wf c ?i sh'" by (rule shard_wf_shrinks [OF Erase_shrinks [OF s(1)] w(2)])
  from at_shard_wf [OF assms i _ s(2) this, of "\<lambda>sh. map_option (Pair ()) (Cache_Erase key ?hash sh)" "()"]
  show ?thesis using s(1) by (auto simp: SC_Erase_def Let_def)
qed

lemma sc_wf_cong: "sc_wf ext c \<Longrightarrow> num_shard_bits c' = num_shard_bits c \<Longrightarrow> shards c' = shards c \<Longrightarrow> sc_wf ext c'"
  by (auto simp: sc_wf_def shard_wf_def Shard_def)

lemma sc_step_wf:
  assumes "sc_wf ext c" "sc_permitted op (ext, c)"
  shows "\<exists>r ext' c'. sc_step op (ext, c) = Some (r, ext', c') \<and> sc_wf ext' c'"
proof (cases op)
  case (ScInsert pool0 key val charge want high)
  then show ?thesis using SC_Insert_wf [OF assms(1), of pool0 key val charge want high] by auto
next
  case (ScLookup key)
  then show ?thesis using SC_Lookup_wf [OF assms(1), of key] by auto
next
  case (ScRef hnd)
  then show ?thesis using SC_Ref_wf [OF assms(1), of "fst hnd" "snd hnd"] assms(2) by auto
next
  case (ScRelease hnd force)
  then show ?thesis using SC_Release_wf [OF assms(1), of "fst hnd" "snd hnd" force] assms(2) by auto
next
  case (ScErase key)
  then show ?thesis using SC_Erase_wf [OF assms(1), of key] by auto
next
  case ScEraseUnRef
  have "\<exists>sh'. EraseUnRefEntries (shards c ! i) = Some sh' \<and> cache_inv (ext i) sh' \<and> shard_wf c i sh'" if "i < length (shards c)" for i
    using EraseUnRefEntries_spec [of "ext i" "shards c ! i"] EraseUnRefEntries_shrinks shard_wf_shrinks that assms(1) unfolding sc_wf_def by meson
  from at_all_shards_wf [OF assms(1) this] show ?thesis using ScEraseUnRef by (auto simp: SC_EraseUnRefEntries_def)
next
  case (ScSetCapacity cap)
  let ?n = "(cap + (2 ^ num_shard_bits c - 1)) div 2 ^ num_shard_bits c"
  have "\<exists>sh'. SetCapacity ?n (shards c ! i) = Some sh' \<and> cache_inv (ext i) sh' \<and> shard_wf c i sh'" if "i < length (shards c)" for i
    using SetCapacity_spec [of "ext i" "shards c ! i" ?n] SetCapacity_shrinks shard_wf_shrinks that assms(1) unfolding sc_wf_def by meson
  from at_all_shards_wf [OF assms(1) this] obtain c' where "at_all_shards (SetCapacity ?n) c = Some c'" "sc_wf ext c'" by blast
  moreover from this(2) have "sc_wf ext (c'\<lparr>sc_capacity := cap\<rparr>)" by (rule sc_wf_cong) simp_all
  ultimately show ?thesis using ScSetCapacity by (simp add: SC_SetCapacity_def Let_def)
next
  case (ScSetStrict b)
  have "heap_of (SetStrictCapacityLimit b sh) = heap_of sh" for sh by (simp add: SetStrictCapacityLimit_def)
  then show ?thesis using assms(1) ScSetStrict by (auto simp: SC_SetStrictCapacityLimit_def sc_wf_def SetStrict_spec shard_wf_def)
qed

lemma sc_reachable_wf: "sc_reachable s \<Longrightarrow> sc_wf (fst s) (snd s)"
proof (induction rule: sc_reachable.induct)
  case (new init cap bits strict ratio c)
  then show ?case using NewLRUCache_spec by fastforce
next
  case (call s op r s')
  then show ?case using sc_step_wf [of "fst s" "snd s" op] by auto
qed

section \<open>Properties\<close>

text \<open>
  C36: The cache is always well-formed. \<open>NewLRUCache\<close> builds a cache for every argument it accepts. In every
  state that a client can reach, there are two to the number of shard bits shards, each handle in memory is in
  the shard that its hash selects, so that \<open>Ref\<close> and \<open>Release\<close>, which know only the handle, reach the shard
  that owns it, and every further call of the client returns.
\<close>

theorem sharded_cache_well_formed:
  assumes "sc_reachable (ext, c)" "sc_permitted op (ext, c)"
  shows "(\<forall>init cap bits strict ratio. NewLRUCache init cap bits strict ratio \<noteq> Some None) \<and>
    length (shards c) = 2 ^ num_shard_bits c \<and>
    (\<forall>hnd h. GetHandle hnd c = Some h \<longrightarrow> Shard c (h_hash h) = fst hnd) \<and>
    (\<forall>i e. 0 < ext i e \<longrightarrow> GetHandle (i, e) c \<noteq> None) \<and>
    (\<exists>r ext' c'. sc_step op (ext, c) = Some (r, ext', c'))"
proof -
  have wf: "sc_wf ext c" using sc_reachable_wf [OF assms(1)] by simp
  have "NewLRUCache init cap bits strict ratio \<noteq> Some None" for init cap bits strict ratio
    using NewLRUCache_spec [of init cap bits strict ratio None] by blast
  moreover have "Shard c (h_hash h) = fst hnd" if "GetHandle hnd c = Some h" for hnd h
    using wf that by (auto simp: sc_wf_def GetHandle_def shard_wf_def split: if_splits)
  moreover have "GetHandle (i, e) c \<noteq> None" if "0 < ext i e" for i e
    using held_shard(4) [of ext c i e] wf that by (auto simp: GetHash_def)
  ultimately show ?thesis using sc_step_wf [OF wf assms(2)] wf by (auto simp: sc_wf_def)
qed

definition demo_cache :: ShardedCache where
  "demo_cache = the (the (NewLRUCache (\<lambda>_. (0, False, 0, 0)) 8 1 False (1 / 2)))"

theorem sharded_cache_well_formed_witness:
  "length (shards demo_cache) = 2 ^ num_shard_bits demo_cache \<and>
   (\<exists>r ext' c'. sc_step (ScInsert True [1] 42 2 True True) ((\<lambda>_ _. 0), demo_cache) = Some (r, ext', c'))"
proof -
  have "NewLRUCache (\<lambda>_. (0, False, 0, 0)) 8 1 False (1 / 2) \<noteq> None" by (simp add: NewLRUCache_def)
  then have "NewLRUCache (\<lambda>_. (0, False, 0, 0)) 8 1 False (1 / 2) = Some (Some demo_cache)"
    using NewLRUCache_spec [of "\<lambda>_. (0, False, 0, 0)" 8 1 False "1 / 2"] unfolding demo_cache_def by force
  from sharded_cache_well_formed [OF sc_reachable.new [OF this], of "ScInsert True [1] 42 2 True True"]
  show ?thesis by simp
qed

end
