(* ===== verification/Spec2Isabelle.thy ===== *)
theory Spec2Isabelle
  imports Prelude Coding Status Slice Comparator DbFormat IterKey Hash Bloom FilterBlock
    Crc32c PosixFile FileWriter LogWriter LogReader WriteBatch BlockLayout MergingCursor ShardedCache
begin

text \<open>
  A verification library for the storage engine of the repository, the C++ sources under
  \<^verbatim>\<open>src/dep/exonum_librocksdb-sys/rocksdb\<close> on which the blockchain node keeps its state.

  \<^bold>\<open>Modelled parts.\<close>
  \<^item> \<open>Coding\<close>: \<^verbatim>\<open>util/coding.{h,cc}\<close>.
  \<^item> \<open>Status\<close>, \<open>Slice\<close>, \<open>Comparator\<close>: the public value types and the key order.
  \<^item> \<open>DbFormat\<close>, \<open>IterKey\<close>: \<^verbatim>\<open>db/dbformat.{h,cc}\<close>.
\<close>

end
